(* ===== verification/Forest_Prelude.thy ===== *)
theory Forest_Prelude
  imports Main "HOL-Library.Word" "HOL-Library.List_Lexorder"
begin

text \<open>
  The shared vocabulary of the development: machine types, Go error values and panics, results as
  sums, \<open>bytes.Compare\<close> as the lexicographic order of byte lists, sorted association lists (the
  specification of every key/value component), and generic lemmas on lists, options and words.

  A Go slice is a list; a nil slice and an empty slice are both \<open>[]\<close>, since the modelled code
  only reads slices through \<open>len\<close>, indexing and copying.
\<close>

named_theorems go_cmp \<open>comparison of byte slices, reduced to the order on lists\<close>
named_theorems codec \<open>lengths and round trips of binary encodings\<close>

type_synonym byte = "8 word"
type_synonym bytes = "byte list"
type_synonym u8 = "8 word"
type_synonym u16 = "16 word"
type_synonym u32 = "32 word"
type_synonym u64 = "64 word"

section \<open>Errors and results\<close>

datatype go_panic =
    IndexOutOfRange
  | SliceBounds
  | DivideByZero
  | MakeSliceLen
  | SendOnClosedChannel
  | CloseOfClosedChannel
  | NilDereference

text \<open>
  \<open>Wrapped msg e\<close> is \<open>fmt.Errorf("msg: %w", e)\<close>; \<open>Failure msg\<close> is \<open>errors.New\<close> or a
  \<open>fmt.Errorf\<close> that wraps nothing. A panic is a value too, so that a theorem can say that an
  operation does not panic.
\<close>

datatype go_error =
    EOF
  | ErrUnexpectedEOF
  | ErrShortWrite
  | ErrNoSpace
  | ErrNotExist
  | ErrPermission
  | ErrSync
  | ErrFileClosed
  | ErrInvalidMagic
  | ErrShortBuffer
  | ErrConnectionClosed
  | ErrUnexpectedResponse
  | ErrInvalidServerMagic
  | ErrNetClosed
  | ErrBrokenPipe
  | ErrMissingCertFiles
  | ErrFailedToAppendCA
  | Failure string
  | Wrapped string go_error
  | Panic go_panic

type_synonym 'a result = "go_error + 'a"

text \<open>\<open>errors.Is(err, target)\<close>: the error chain below wrappings.\<close>

fun errors_Is :: "go_error \<Rightarrow> go_error \<Rightarrow> bool" where
  "errors_Is (Wrapped m e) t = (Wrapped m e = t \<or> errors_Is e t)"
| "errors_Is e t = (e = t)"

fun is_panic :: "go_error \<Rightarrow> bool" where
  "is_panic (Panic p) = True"
| "is_panic _ = False"

fun is_Ok :: "'a result \<Rightarrow> bool" where
  "is_Ok (Inl e) = False"
| "is_Ok (Inr x) = True"

lemma is_Ok_iff: "is_Ok r \<longleftrightarrow> (\<exists>x. r = Inr x)"
  by (cases r) auto

text \<open>Sequencing with the early return \<open>if err != nil { return ... }\<close>.\<close>

definition then_ok :: "go_error option \<times> 's \<Rightarrow> ('s \<Rightarrow> go_error option \<times> 's) \<Rightarrow> go_error option \<times> 's" where
  "then_ok r f = (case r of (Some e, s) \<Rightarrow> (Some e, s) | (None, s) \<Rightarrow> f s)"

lemma then_ok_simps [simp]: "then_ok (None, s) f = f s" "then_ok (Some e, s) f = (Some e, s)"
  by (simp_all add: then_ok_def)

lemma then_ok_None: "then_ok r f = (None, s') \<longleftrightarrow> (\<exists>s. r = (None, s) \<and> f s = (None, s'))"
  by (auto simp: then_ok_def split: prod.splits option.splits)

text \<open>The same with a value: in the state-passing style of the client, and for library calls whose error is
  wrapped.\<close>

definition bind_ok :: "'a result \<times> 's \<Rightarrow> ('a \<Rightarrow> 's \<Rightarrow> 'b result \<times> 's) \<Rightarrow> 'b result \<times> 's" where
  "bind_ok r f = (case r of (Inl e, s) \<Rightarrow> (Inl e, s) | (Inr x, s) \<Rightarrow> f x s)"

lemma bind_ok_simps [simp]: "bind_ok (Inr x, s) f = f x s" "bind_ok (Inl e, s) f = (Inl e, s)"
  by (simp_all add: bind_ok_def)

definition bind_wrap :: "string \<Rightarrow> 'a result \<Rightarrow> ('a \<Rightarrow> 'b result) \<Rightarrow> 'b result" where
  "bind_wrap msg r f = (case r of Inl e \<Rightarrow> Inl (Wrapped msg e) | Inr x \<Rightarrow> f x)"

lemma bind_wrap_simps [simp]: "bind_wrap msg (Inr x) f = f x" "bind_wrap msg (Inl e) f = Inl (Wrapped msg e)"
  by (simp_all add: bind_wrap_def)

lemma bind_wrap_Inr: "bind_wrap msg r f = Inr y \<longleftrightarrow> (\<exists>x. r = Inr x \<and> f x = Inr y)"
  by (cases r) simp_all

definition do_wrap :: "string \<Rightarrow> 'a result \<Rightarrow> 's \<Rightarrow> ('a \<Rightarrow> go_error option \<times> 's) \<Rightarrow> go_error option \<times> 's" where
  "do_wrap msg r s f = (case r of Inl e \<Rightarrow> (Some (Wrapped msg e), s) | Inr x \<Rightarrow> f x)"

lemma do_wrap_simps [simp]: "do_wrap msg (Inr x) s f = f x" "do_wrap msg (Inl e) s f = (Some (Wrapped msg e), s)"
  by (simp_all add: do_wrap_def)

section \<open>Comparing byte slices\<close>

text \<open>\<open>bytes.Compare\<close>: \<open>-1\<close>, \<open>0\<close> or \<open>1\<close>, lexicographically on unsigned bytes.\<close>

fun bytes_Compare :: "bytes \<Rightarrow> bytes \<Rightarrow> int" where
  "bytes_Compare [] [] = 0"
| "bytes_Compare [] (b # bs) = - 1"
| "bytes_Compare (a # as) [] = 1"
| "bytes_Compare (a # as) (b # bs) =
     (if a < b then - 1 else if b < a then 1 else bytes_Compare as bs)"

definition bytes_Equal :: "bytes \<Rightarrow> bytes \<Rightarrow> bool" where
  "bytes_Equal a b \<longleftrightarrow> a = b"

lemma bytes_Compare_less [go_cmp]: "bytes_Compare a b < 0 \<longleftrightarrow> a < b"
  by (induction a b rule: bytes_Compare.induct) auto

lemma bytes_Compare_greater [go_cmp]: "0 < bytes_Compare a b \<longleftrightarrow> b < a"
  by (induction a b rule: bytes_Compare.induct) auto

lemma bytes_Compare_eq [go_cmp]: "bytes_Compare a b = 0 \<longleftrightarrow> a = b"
  by (induction a b rule: bytes_Compare.induct) auto

lemma bytes_Compare_le [go_cmp]: "bytes_Compare a b \<le> 0 \<longleftrightarrow> a \<le> b"
  using bytes_Compare_greater [of a b] by (simp add: linorder_not_less [symmetric])

lemma bytes_Compare_ge [go_cmp]: "0 \<le> bytes_Compare a b \<longleftrightarrow> b \<le> a"
  using bytes_Compare_less [of a b] by (simp add: linorder_not_less [symmetric])

declare bytes_Equal_def [go_cmp]

lemma bytes_Compare_sym: "bytes_Compare b a = - bytes_Compare a b"
  by (induction a b rule: bytes_Compare.induct) auto

lemma empty_le_bytes [simp]: "([] :: bytes) \<le> k"
  by simp

lemma not_less_empty_bytes [simp]: "\<not> (k :: bytes) < []"
  by simp

section \<open>Slicing\<close>

text \<open>\<open>xs[i:j]\<close> on a slice; out of range it panics.\<close>

definition slice :: "nat \<Rightarrow> nat \<Rightarrow> 'a list \<Rightarrow> 'a list" where
  "slice i j xs = take (j - i) (drop i xs)"

definition slice_checked :: "nat \<Rightarrow> nat \<Rightarrow> 'a list \<Rightarrow> 'a list result" where
  "slice_checked i j xs =
     (if i \<le> j \<and> j \<le> length xs then Inr (slice i j xs) else Inl (Panic SliceBounds))"

lemma length_slice [simp]: "length (slice i j xs) = min (j - i) (length xs - i)"
  by (simp add: slice_def)

lemma slice_append_left [simp]: "j \<le> length xs \<Longrightarrow> slice i j (xs @ ys) = slice i j xs"
  by (simp add: slice_def)

lemma slice_append_right [simp]:
  "length xs \<le> i \<Longrightarrow> slice i j (xs @ ys) = slice (i - length xs) (j - length xs) ys"
  by (simp add: slice_def)

lemma slice_0 [simp]: "slice 0 n xs = take n xs"
  by (simp add: slice_def)

section \<open>Sorted association lists\<close>

text \<open>
  A component that keeps keys in order is specified by the association list of its entries, strictly
  ascending in the keys; \<^const>\<open>map_of\<close> is the map it stands for.
\<close>

abbreviation ksorted :: "('k::linorder \<times> 'v) list \<Rightarrow> bool" where
  "ksorted es \<equiv> sorted_wrt (<) (map fst es)"

fun upd :: "'k::linorder \<Rightarrow> 'v \<Rightarrow> ('k \<times> 'v) list \<Rightarrow> ('k \<times> 'v) list" where
  "upd k v [] = [(k, v)]"
| "upd k v ((a, b) # es) =
     (if k < a then (k, v) # (a, b) # es
      else if k = a then (k, v) # es
      else (a, b) # upd k v es)"

lemma set_fst_upd [simp]: "fst ` set (upd k v es) = insert k (fst ` set es)"
  by (induction k v es rule: upd.induct) auto

lemma ksorted_upd [simp]: "ksorted es \<Longrightarrow> ksorted (upd k v es)"
proof (induction k v es rule: upd.induct)
  case (2 k v a b es)
  have "set (map fst (upd k v es)) = insert k (set (map fst es))" by simp
  then show ?case using 2 by (auto simp del: set_map)
qed simp

lemma map_of_upd [simp]: "map_of (upd k v es) = (map_of es)(k \<mapsto> v)"
  by (induction k v es rule: upd.induct) auto

lemma upd_append_less:
  "\<forall>x \<in> fst ` set as. x < k \<Longrightarrow> upd k v (as @ bs) = as @ upd k v bs"
  by (induction as) (auto dest: order.strict_implies_not_eq order.asym)

lemma ksorted_map_of_less:
  "ksorted es \<Longrightarrow> \<forall>x \<in> fst ` set es. k < x \<Longrightarrow> map_of es k = None"
  by (force simp: map_of_eq_None_iff)

lemma ksorted_distinct: "ksorted es \<Longrightarrow> distinct (map fst es)"
  by (induction es) auto

lemma ksorted_append:
  "ksorted (as @ bs) \<longleftrightarrow>
     ksorted as \<and> ksorted bs \<and> (\<forall>x \<in> fst ` set as. \<forall>y \<in> fst ` set bs. x < y)"
  by (auto simp: sorted_wrt_append)

lemma ksorted_filter: "ksorted es \<Longrightarrow> ksorted (filter P es)"
  by (induction es) auto

lemma map_of_filter_key:
  "map_of (filter (\<lambda>(k, v). P k) es) = (\<lambda>k. if P k then map_of es k else None)"
  by (rule ext, induction es) auto

lemma ksorted_eqI:
  assumes "ksorted as" and "ksorted bs" and "map_of as = map_of bs"
  shows "as = bs"
proof -
  have dom: "set (map fst as) = set (map fst bs)"
    using assms(3) by (metis dom_map_of_conv_image_fst set_map)
  have keys: "map fst as = map fst bs"
    using assms(1,2) dom by (meson strict_sorted_equal)
  show ?thesis
  proof (rule nth_equalityI)
    show len: "length as = length bs" using keys by (metis length_map)
    fix i assume i: "i < length as"
    have fsteq: "fst (as ! i) = fst (bs ! i)"
      using keys i len by (metis nth_map)
    have "map_of as (fst (as ! i)) = Some (snd (as ! i))"
      using assms(1) i by (simp add: ksorted_distinct)
    moreover have "map_of bs (fst (bs ! i)) = Some (snd (bs ! i))"
      using assms(2) i len by (simp add: ksorted_distinct)
    ultimately show "as ! i = bs ! i"
      using fsteq assms(3) by (simp add: prod_eq_iff)
  qed
qed

end
