(* ===== verification/Go_Std.thy ===== *)
theory Go_Std
  imports Forest_Prelude
begin

text \<open>
  The parts of Go's standard library the program calls, written out as executable definitions:
  \<open>encoding/binary\<close> (big endian), \<open>hash/crc32\<close> (IEEE), \<open>hash/fnv\<close> (64-bit FNV-1a),
  \<open>io.ReadFull\<close>, \<open>os.File\<close> (append, sync, positioned read) on a disk that can run full,
  and \<open>bufio.Writer\<close>. The lemmas give their round trips, the
  error-detection law of the checksum and the buffering law \<open>file @ buffer\<close>.
\<close>

unbundle bit_operations_syntax

section \<open>encoding/binary, big endian\<close>

definition PutUint16 :: "u16 \<Rightarrow> bytes" where
  "PutUint16 v = [ucast (drop_bit 8 v), ucast v]"

definition PutUint32 :: "u32 \<Rightarrow> bytes" where
  "PutUint32 v = [ucast (drop_bit 24 v), ucast (drop_bit 16 v), ucast (drop_bit 8 v), ucast v]"

definition PutUint64 :: "u64 \<Rightarrow> bytes" where
  "PutUint64 v =
     [ucast (drop_bit 56 v), ucast (drop_bit 48 v), ucast (drop_bit 40 v), ucast (drop_bit 32 v),
      ucast (drop_bit 24 v), ucast (drop_bit 16 v), ucast (drop_bit 8 v), ucast v]"

definition Uint16 :: "bytes \<Rightarrow> u16" where
  "Uint16 b = ucast (b ! 1) OR push_bit 8 (ucast (b ! 0))"

definition Uint32 :: "bytes \<Rightarrow> u32" where
  "Uint32 b = ucast (b ! 3) OR push_bit 8 (ucast (b ! 2)) OR push_bit 16 (ucast (b ! 1)) OR
     push_bit 24 (ucast (b ! 0))"

definition Uint64 :: "bytes \<Rightarrow> u64" where
  "Uint64 b = ucast (b ! 7) OR push_bit 8 (ucast (b ! 6)) OR push_bit 16 (ucast (b ! 5)) OR
     push_bit 24 (ucast (b ! 4)) OR push_bit 32 (ucast (b ! 3)) OR push_bit 40 (ucast (b ! 2)) OR
     push_bit 48 (ucast (b ! 1)) OR push_bit 56 (ucast (b ! 0))"

lemma length_PutUint [simp, codec]:
  "length (PutUint16 x) = 2" "length (PutUint32 y) = 4" "length (PutUint64 z) = 8"
  by (simp_all add: PutUint16_def PutUint32_def PutUint64_def)

lemma bit_byte_piece:
  "bit (push_bit s (ucast (ucast (drop_bit s v) :: byte)) :: 'a::len word) n \<longleftrightarrow>
     s \<le> n \<and> n < s + 8 \<and> bit (v :: 'a word) n"
  by (auto simp: bit_simps dest: bit_imp_le_length)

lemma bit_byte_piece_low:
  "bit (ucast (ucast v :: byte) :: 'a::len word) n \<longleftrightarrow> n < 8 \<and> bit (v :: 'a word) n"
  by (auto simp: bit_simps dest: bit_imp_le_length)

lemmas byte_pieces = bit_byte_piece bit_byte_piece_low bit_or_iff

lemma Uint16_PutUint16 [simp, codec]: "Uint16 (PutUint16 v @ r) = v"
proof (rule bit_word_eqI)
  fix n assume "n < LENGTH(16)"
  then show "bit (Uint16 (PutUint16 v @ r)) n = bit v n"
    unfolding Uint16_def PutUint16_def by (simp add: byte_pieces) linarith
qed

lemma Uint32_PutUint32 [simp, codec]: "Uint32 (PutUint32 v @ r) = v"
proof (rule bit_word_eqI)
  fix n assume "n < LENGTH(32)"
  then show "bit (Uint32 (PutUint32 v @ r)) n = bit v n"
    unfolding Uint32_def PutUint32_def by (simp add: byte_pieces) linarith
qed

lemma Uint64_PutUint64 [simp, codec]: "Uint64 (PutUint64 v @ r) = v"
proof (rule bit_word_eqI)
  fix n assume "n < LENGTH(64)"
  then show "bit (Uint64 (PutUint64 v @ r)) n = bit v n"
    unfolding Uint64_def PutUint64_def by (simp add: byte_pieces) linarith
qed

lemmas Uint_PutUint_exact [simp, codec] =
  Uint16_PutUint16 [where r = "[]", simplified]
  Uint32_PutUint32 [where r = "[]", simplified]
  Uint64_PutUint64 [where r = "[]", simplified]

text \<open>Reading a field looks at its own bytes only.\<close>

lemma Uint16_take [simp]: "2 \<le> n \<Longrightarrow> Uint16 (take n b) = Uint16 b"
  by (simp add: Uint16_def)

lemma Uint32_take [simp]: "4 \<le> n \<Longrightarrow> Uint32 (take n b) = Uint32 b"
  by (simp add: Uint32_def)

lemma Uint64_take [simp]: "8 \<le> n \<Longrightarrow> Uint64 (take n b) = Uint64 b"
  by (simp add: Uint64_def)

text \<open>A length that fits its field survives the conversion \<open>uint16(len(x))\<close> and back.\<close>

lemma unat_len16 [simp]: "n < 65536 \<Longrightarrow> unat (word_of_nat n :: u16) = n"
  by (simp add: unat_of_nat)

lemma unat_len32 [simp]: "n < 4294967296 \<Longrightarrow> unat (word_of_nat n :: u32) = n"
  by (simp add: unat_of_nat)

lemma unat_len64 [simp]: "n < 18446744073709551616 \<Longrightarrow> unat (word_of_nat n :: u64) = n"
  by (simp add: unat_of_nat)

section \<open>hash/crc32, IEEE polynomial\<close>

definition IEEE :: u32 where
  "IEEE = 0xEDB88320"

definition crc_bit :: "u32 \<Rightarrow> u32" where
  "crc_bit c = (if bit c 0 then drop_bit 1 c XOR IEEE else drop_bit 1 c)"

text \<open>The table of \<open>simpleMakeTable\<close>, entry by entry, and \<open>simpleUpdate\<close>.\<close>

definition crc_table :: "byte \<Rightarrow> u32" where
  "crc_table b = (crc_bit ^^ 8) (ucast b)"

definition crc_byte :: "u32 \<Rightarrow> byte \<Rightarrow> u32" where
  "crc_byte c v = crc_table (ucast c XOR v) XOR drop_bit 8 c"

definition crc_Write :: "u32 \<Rightarrow> bytes \<Rightarrow> u32" where
  "crc_Write c p = NOT (foldl crc_byte (NOT c) p)"

definition crc_NewIEEE :: u32 where
  "crc_NewIEEE = 0"

lemma crc_Write_Nil [simp]: "crc_Write c [] = c"
  by (simp add: crc_Write_def)

lemma crc_Write_append: "crc_Write (crc_Write c p) q = crc_Write c (p @ q)"
  by (simp add: crc_Write_def)

text \<open>
  One step of the register is injective, because the polynomial has its top bit set: the top bit of
  the result is the bit shifted out. Hence the checksum of two messages that agree outside one byte
  always differs.
\<close>

lemma xor_cancel_right: "a XOR c = b XOR c \<longleftrightarrow> a = (b :: 'a::len word)"
  by (auto simp: bit_eq_iff bit_simps)

lemma xor_cancel_left: "c XOR a = c XOR b \<longleftrightarrow> a = (b :: 'a::len word)"
  by (auto simp: bit_eq_iff bit_simps)

lemma crc_bit_top: "bit (crc_bit c) 31 = bit c 0"
proof -
  have "\<not> bit c 32" by (auto dest: bit_imp_le_length)
  then show ?thesis by (simp add: crc_bit_def IEEE_def bit_simps)
qed

lemma inj_crc_bit: "inj crc_bit"
proof (rule injI)
  fix a b assume eq: "crc_bit a = crc_bit b"
  then have low: "bit a 0 = bit b 0"
    by (metis crc_bit_top)
  from eq low have "drop_bit 1 a = drop_bit 1 b"
    by (auto simp: crc_bit_def xor_cancel_right split: if_splits)
  then have high: "bit a (Suc n) = bit b (Suc n)" for n
    by (metis bit_drop_bit_eq comp_apply plus_1_eq_Suc)
  have "bit a n = bit b n" for n
    using low high by (cases n) simp_all
  then show "a = b"
    by (simp add: bit_eq_iff)
qed

lemma crc_bit_xor: "crc_bit (a XOR b) = crc_bit a XOR crc_bit b"
  by (auto simp: crc_bit_def bit_simps ac_simps xor.left_commute intro!: bit_word_eqI)

lemma crc_bits_xor: "(crc_bit ^^ n) (a XOR b) = (crc_bit ^^ n) a XOR (crc_bit ^^ n) b"
  by (induction n) (simp_all add: crc_bit_xor)

lemma crc_bits_shift:
  assumes "\<And>i. i < n \<Longrightarrow> \<not> bit c i"
  shows "(crc_bit ^^ n) c = drop_bit n c"
  using assms
proof (induction n)
  case (Suc n)
  then have "(crc_bit ^^ n) c = drop_bit n c" by simp
  moreover have "crc_bit (drop_bit n c) = drop_bit (Suc n) c"
    using Suc.prems [of n] by (simp add: crc_bit_def bit_simps)
  ultimately show ?case by simp
qed simp

lemma crc_byte_bits: "crc_byte c v = (crc_bit ^^ 8) (c XOR ucast v)"
proof -
  define hi where "hi = push_bit 8 (drop_bit 8 c)"
  have split: "c XOR ucast v = ucast (ucast c XOR v :: byte) XOR hi"
    unfolding hi_def by (rule bit_word_eqI) (auto simp: bit_simps)
  have "(crc_bit ^^ 8) hi = drop_bit 8 hi"
    by (rule crc_bits_shift) (simp add: hi_def bit_simps)
  also have "drop_bit 8 hi = drop_bit 8 c"
    unfolding hi_def by (rule bit_word_eqI) (auto simp: bit_simps dest: bit_imp_le_length)
  finally show ?thesis
    by (simp add: crc_byte_def crc_table_def split crc_bits_xor)
qed

lemma crc_bits_eq_iff [simp]: "(crc_bit ^^ n) a = (crc_bit ^^ n) b \<longleftrightarrow> a = b"
  by (induction n) (simp_all add: inj_eq [OF inj_crc_bit])

lemma ucast_byte_eq_iff: "(ucast (a :: byte) :: u32) = ucast b \<longleftrightarrow> a = b"
proof
  assume eq: "(ucast a :: u32) = ucast b"
  show "a = b"
  proof (rule bit_word_eqI)
    fix n assume "n < LENGTH(8)"
    then show "bit a n = bit b n"
      using arg_cong [OF eq, of "\<lambda>w. bit w n"] by (simp add: bit_simps)
  qed
qed simp

lemma crc_byte_eq_state [simp]: "crc_byte a v = crc_byte b v \<longleftrightarrow> a = b"
  by (simp add: crc_byte_bits xor_cancel_right)

lemma crc_byte_eq_byte [simp]: "crc_byte c a = crc_byte c b \<longleftrightarrow> a = b"
  by (simp add: crc_byte_bits xor_cancel_left ucast_byte_eq_iff)

lemma crc_fold_eq [simp]: "foldl crc_byte a p = foldl crc_byte b p \<longleftrightarrow> a = b"
  by (induction p arbitrary: a b) simp_all

lemma crc_detects_byte:
  assumes "a \<noteq> b"
  shows "crc_Write c (p @ a # q) \<noteq> crc_Write c (p @ b # q)"
  using assms by (simp add: crc_Write_def)

section \<open>hash/fnv, 64-bit FNV-1a\<close>

definition fnv64a :: "bytes \<Rightarrow> u64" where
  "fnv64a p = foldl (\<lambda>h c. (h XOR ucast c) * 1099511628211) 14695981039346656037 p"

section \<open>io.ReadFull\<close>

text \<open>
  \<open>io.ReadFull(r, buf)\<close> with a buffer of \<open>n\<close> bytes, on a reader that holds the bytes \<open>bs\<close>:
  the bytes read and what is left, \<open>io.EOF\<close> when nothing is left and
  \<open>io.ErrUnexpectedEOF\<close> when too little is.
\<close>

definition ReadFull :: "nat \<Rightarrow> bytes \<Rightarrow> (bytes \<times> bytes) result" where
  "ReadFull n bs =
     (if n \<le> length bs then Inr (take n bs, drop n bs)
      else if bs = [] then Inl EOF else Inl ErrUnexpectedEOF)"

lemma ReadFull_append [simp]: "n = length xs \<Longrightarrow> ReadFull n (xs @ ys) = Inr (xs, ys)"
  by (simp add: ReadFull_def)

lemma ReadFull_exact [simp]: "n = length xs \<Longrightarrow> ReadFull n xs = Inr (xs, [])"
  by (simp add: ReadFull_def)

lemma ReadFull_short: "length bs < n \<Longrightarrow> \<exists>e. ReadFull n bs = Inl e \<and> (e = EOF \<or> e = ErrUnexpectedEOF)"
  by (auto simp: ReadFull_def)

lemma ReadFull_InrD: "ReadFull n bs = Inr (x, r) \<Longrightarrow> bs = x @ r \<and> length x = n"
  by (auto simp: ReadFull_def split: if_splits)

section \<open>os.File\<close>

text \<open>
  An open file: its content as the operating system holds it, the part that has reached the disk,
  how many bytes the disk still takes (\<open>None\<close>: no limit), whether \<open>fsync\<close> fails, and whether
  the descriptor is closed.
\<close>

record os_file =
  f_data :: bytes
  f_durable :: bytes
  f_quota :: "nat option"
  f_syncfail :: bool
  f_closed :: bool

definition file_Write :: "os_file \<Rightarrow> bytes \<Rightarrow> nat \<times> go_error option \<times> os_file" where
  "file_Write f p =
     (if f_closed f then (0, Some ErrFileClosed, f)
      else case f_quota f of
        None \<Rightarrow> (length p, None, f\<lparr>f_data := f_data f @ p\<rparr>)
      | Some q \<Rightarrow>
          (if length p \<le> q
           then (length p, None, f\<lparr>f_data := f_data f @ p, f_quota := Some (q - length p)\<rparr>)
           else (q, Some ErrNoSpace, f\<lparr>f_data := f_data f @ take q p, f_quota := Some 0\<rparr>)))"

definition file_Sync :: "os_file \<Rightarrow> go_error option \<times> os_file" where
  "file_Sync f =
     (if f_closed f then (Some ErrFileClosed, f)
      else if f_syncfail f then (Some ErrSync, f)
      else (None, f\<lparr>f_durable := f_data f\<rparr>))"

definition file_Close :: "os_file \<Rightarrow> go_error option \<times> os_file" where
  "file_Close f = (if f_closed f then (Some ErrFileClosed, f) else (None, f\<lparr>f_closed := True\<rparr>))"

text \<open>
  \<open>File.ReadAt\<close>: a negative offset is refused, an empty read always succeeds, a read past the end
  is \<open>io.EOF\<close>.
\<close>

definition ReadAt :: "bytes \<Rightarrow> nat \<Rightarrow> int \<Rightarrow> bytes result" where
  "ReadAt d n off =
     (if off < 0 then Inl (Failure ''negative offset'')
      else if n = 0 then Inr []
      else if nat off + n \<le> length d then Inr (take n (drop (nat off) d))
      else Inl EOF)"

lemma ReadAt_append: "off = int (length a) \<Longrightarrow> n = length b \<Longrightarrow> ReadAt (a @ b @ c) n off = Inr b"
  by (simp add: ReadAt_def)

text \<open>The files of the disk, by path, and \<open>os.ReadFile\<close>.\<close>

type_synonym disk = "string \<Rightarrow> os_file option"

definition os_ReadFile :: "disk \<Rightarrow> string \<Rightarrow> bytes result" where
  "os_ReadFile d path = (case d path of None \<Rightarrow> Inl ErrNotExist | Some f \<Rightarrow> Inr (f_data f))"

text \<open>A healthy file takes every write and every sync.\<close>

definition healthy :: "os_file \<Rightarrow> bool" where
  "healthy f \<longleftrightarrow> \<not> f_closed f \<and> f_quota f = None \<and> \<not> f_syncfail f"

lemma file_Write_healthy:
  "healthy f \<Longrightarrow> file_Write f p = (length p, None, f\<lparr>f_data := f_data f @ p\<rparr>)"
  by (simp add: healthy_def file_Write_def)

lemma file_Write_ok:
  "file_Write f p = (n, None, f') \<Longrightarrow>
     n = length p \<and> f_data f' = f_data f @ p \<and> f_durable f' = f_durable f \<and>
     f_closed f' = f_closed f \<and> f_syncfail f' = f_syncfail f"
  by (auto simp: file_Write_def split: if_splits option.splits)

lemma file_Write_data:
  "file_Write f p = (n, e, f') \<Longrightarrow> n \<le> length p \<and> f_data f' = f_data f @ take n p"
  by (auto simp: file_Write_def split: if_splits option.splits)

section \<open>bufio.Writer\<close>

record bufio_writer =
  bw_file :: os_file
  bw_buf :: bytes
  bw_cap :: nat
  bw_err :: "go_error option"

definition NewWriterSize :: "os_file \<Rightarrow> nat \<Rightarrow> bufio_writer" where
  "NewWriterSize f n = \<lparr>bw_file = f, bw_buf = [], bw_cap = n, bw_err = None\<rparr>"

definition bw_Available :: "bufio_writer \<Rightarrow> nat" where
  "bw_Available w = bw_cap w - length (bw_buf w)"

definition bw_Flush :: "bufio_writer \<Rightarrow> go_error option \<times> bufio_writer" where
  "bw_Flush w =
     (if bw_err w \<noteq> None then (bw_err w, w)
      else if bw_buf w = [] then (None, w)
      else let (n, e, f') = file_Write (bw_file w) (bw_buf w) in
        case e of
          None \<Rightarrow> (None, w\<lparr>bw_file := f', bw_buf := []\<rparr>)
        | Some er \<Rightarrow> (Some er, w\<lparr>bw_file := f', bw_buf := drop n (bw_buf w), bw_err := Some er\<rparr>))"

text \<open>The loop of \<open>Writer.Write\<close>: what is left of \<open>p\<close>, the bytes taken so far, the writer.\<close>

function bw_write_loop ::
  "bufio_writer \<Rightarrow> bytes \<Rightarrow> nat \<Rightarrow> bytes \<times> nat \<times> bufio_writer" where
  "bw_write_loop w p nn =
     (if bw_Available w < length p \<and> bw_err w = None then
        if bw_buf w = [] then
          let (n, e, f') = file_Write (bw_file w) p
          in bw_write_loop (w\<lparr>bw_file := f', bw_err := e\<rparr>) (drop n p) (nn + n)
        else
          let n = bw_Available w;
              w' = snd (bw_Flush (w\<lparr>bw_buf := bw_buf w @ take n p\<rparr>))
          in bw_write_loop w' (drop n p) (nn + n)
      else (p, nn, w))"
  by pat_completeness auto
termination
proof (relation "measure (\<lambda>(w, p, nn). if bw_err w \<noteq> None then 0
                     else 2 * length p + (if bw_buf w = [] then 0 else 1))", goal_cases)
  case (2 w p nn x n y e f')
  then show ?case
    using file_Write_ok [of "bw_file w" p n f'] by (cases e) auto
next
  case (3 w p nn n w')
  then show ?case
    by (auto simp: bw_Flush_def Let_def split: prod.splits option.splits)
qed simp

declare bw_write_loop.simps [simp del]

lemma bw_write_loop_err [simp]: "bw_err w \<noteq> None \<Longrightarrow> bw_write_loop w p nn = (p, nn, w)"
  by (subst bw_write_loop.simps) auto

definition bw_Write :: "bufio_writer \<Rightarrow> bytes \<Rightarrow> nat \<times> go_error option \<times> bufio_writer" where
  "bw_Write w p =
     (let (r, nn, w') = bw_write_loop w p 0 in
      if bw_err w' \<noteq> None then (nn, bw_err w', w')
      else (nn + length r, None, w'\<lparr>bw_buf := bw_buf w' @ r\<rparr>))"

text \<open>Everything accepted so far: in the file, then in the buffer.\<close>

definition bw_total :: "bufio_writer \<Rightarrow> bytes" where
  "bw_total w = f_data (bw_file w) @ bw_buf w"

definition bw_healthy :: "bufio_writer \<Rightarrow> bool" where
  "bw_healthy w \<longleftrightarrow> bw_err w = None \<and> healthy (bw_file w)"

lemma bw_Flush_ok:
  assumes "bw_Flush w = (None, w')"
  shows "bw_total w' = bw_total w" and "bw_buf w' = []" and "bw_err w' = None"
    and "f_data (bw_file w') = bw_total w" and "f_durable (bw_file w') = f_durable (bw_file w)"
    and "bw_cap w' = bw_cap w" and "f_closed (bw_file w') = f_closed (bw_file w)"
    and "f_syncfail (bw_file w') = f_syncfail (bw_file w)"
  using assms
  by (auto simp: bw_Flush_def bw_total_def Let_def split: if_splits prod.splits option.splits
      dest!: file_Write_ok)

lemma bw_Flush_healthy:
  assumes "bw_healthy w"
  shows "bw_Flush w = (None, w\<lparr>bw_file := (bw_file w)\<lparr>f_data := bw_total w\<rparr>, bw_buf := []\<rparr>)"
  using assms by (simp add: bw_healthy_def bw_Flush_def bw_total_def file_Write_healthy)

text \<open>
  The buffering law: when \<open>Write\<close> reports no error it has taken all of \<open>p\<close>, and file and
  buffer together hold what they held before followed by \<open>p\<close>.
\<close>

lemma bw_write_loop_ok:
  assumes "bw_write_loop w p nn = (r, m, w')" and "bw_err w = None" and "bw_err w' = None"
  shows "bw_total w' @ r = bw_total w @ p \<and> m + length r = nn + length p \<and>
    bw_cap w' = bw_cap w \<and> length r \<le> bw_Available w' \<and>
    f_durable (bw_file w') = f_durable (bw_file w) \<and>
    f_closed (bw_file w') = f_closed (bw_file w) \<and> f_syncfail (bw_file w') = f_syncfail (bw_file w)"
  using assms
proof (induction w p nn rule: bw_write_loop.induct)
  case (1 w p nn)
  show ?case
  proof (cases "bw_Available w < length p")
    case False
    then show ?thesis using 1(3-) by (subst (asm) bw_write_loop.simps) auto
  next
    case avail: True
    show ?thesis
    proof (cases "bw_buf w = []")
      case True
      obtain n e f' where wr: "file_Write (bw_file w) p = (n, e, f')"
        by (cases "file_Write (bw_file w) p")
      let ?w = "w\<lparr>bw_file := f', bw_err := e\<rparr>"
      have rec: "bw_write_loop ?w (drop n p) (nn + n) = (r, m, w')"
        using 1(3,4) avail True wr by (simp add: bw_write_loop.simps [of w])
      show ?thesis
      proof (cases e)
        case None
        have IH: "bw_total w' @ r = bw_total ?w @ drop n p \<and> m + length r = nn + n + length (drop n p) \<and>
            bw_cap w' = bw_cap ?w \<and> length r \<le> bw_Available w' \<and>
            f_durable (bw_file w') = f_durable (bw_file ?w) \<and>
            f_closed (bw_file w') = f_closed (bw_file ?w) \<and>
            f_syncfail (bw_file w') = f_syncfail (bw_file ?w)"
          by (rule 1(1) [OF _ _ wr [symmetric]]) (use avail 1(4,5) True rec None in auto)
        then show ?thesis
          using file_Write_ok [of "bw_file w" p n f'] wr None True by (auto simp: bw_total_def)
      next
        case (Some er)
        then have "w' = ?w" using rec by simp
        then show ?thesis using Some 1(5) by auto
      qed
    next
      case False
      let ?n = "bw_Available w"
      let ?v = "w\<lparr>bw_buf := bw_buf w @ take ?n p\<rparr>"
      obtain e w2 where fl: "bw_Flush ?v = (e, w2)" by (cases "bw_Flush ?v")
      have rec: "bw_write_loop w2 (drop ?n p) (nn + ?n) = (r, m, w')"
        using 1(3,4) avail False fl by (simp add: bw_write_loop.simps [of w] Let_def)
      show ?thesis
      proof (cases e)
        case None
        then have fl': "bw_Flush ?v = (None, w2)" using fl by simp
        have IH: "bw_total w' @ r = bw_total w2 @ drop ?n p \<and>
            m + length r = nn + ?n + length (drop ?n p) \<and>
            bw_cap w' = bw_cap w2 \<and> length r \<le> bw_Available w' \<and>
            f_durable (bw_file w') = f_durable (bw_file w2) \<and>
            f_closed (bw_file w') = f_closed (bw_file w2) \<and>
            f_syncfail (bw_file w') = f_syncfail (bw_file w2)"
          by (rule 1(2)) (use avail 1(4,5) False rec fl bw_Flush_ok(3) [OF fl'] in auto)
        then show ?thesis
          using bw_Flush_ok [OF fl'] avail by (auto simp: bw_total_def)
      next
        case (Some er)
        then have "bw_err w2 \<noteq> None"
          using fl 1(4) by (auto simp: bw_Flush_def Let_def split: if_splits prod.splits option.splits)
        then have "w' = w2" using rec by simp
        then show ?thesis using \<open>bw_err w2 \<noteq> None\<close> 1(5) by simp
      qed
    qed
  qed
qed

lemma bw_Write_ok:
  assumes "bw_Write w p = (n, None, w')" and "bw_err w = None"
  shows "n = length p" and "bw_total w' = bw_total w @ p" and "bw_err w' = None"
    and "bw_cap w' = bw_cap w" and "f_durable (bw_file w') = f_durable (bw_file w)"
    and "f_closed (bw_file w') = f_closed (bw_file w)"
    and "f_syncfail (bw_file w') = f_syncfail (bw_file w)"
proof -
  obtain r m v where loop: "bw_write_loop w p 0 = (r, m, v)" by (cases "bw_write_loop w p 0")
  then have v: "bw_err v = None" "n = m + length r" "w' = v\<lparr>bw_buf := bw_buf v @ r\<rparr>"
    using assms(1) by (auto simp: bw_Write_def split: if_splits)
  note spec = bw_write_loop_ok [OF loop assms(2) v(1)]
  show "n = length p" "bw_total w' = bw_total w @ p" "bw_err w' = None" "bw_cap w' = bw_cap w"
    "f_durable (bw_file w') = f_durable (bw_file w)"
    "f_closed (bw_file w') = f_closed (bw_file w)"
    "f_syncfail (bw_file w') = f_syncfail (bw_file w)"
    using spec v by (auto simp: bw_total_def)
qed

lemma bw_write_loop_healthy:
  "bw_write_loop w p nn = (r, m, w') \<Longrightarrow> bw_healthy w \<Longrightarrow> bw_healthy w'"
proof (induction w p nn rule: bw_write_loop.induct)
  case (1 w p nn)
  show ?case
  proof (cases "bw_Available w < length p")
    case False
    then show ?thesis using 1(3-) by (subst (asm) bw_write_loop.simps) auto
  next
    case avail: True
    have none: "bw_err w = None" using 1(4) by (simp add: bw_healthy_def)
    show ?thesis
    proof (cases "bw_buf w = []")
      case True
      have "file_Write (bw_file w) p =
          (length p, None, (bw_file w)\<lparr>f_data := f_data (bw_file w) @ p\<rparr>)"
        using 1(4) by (simp add: bw_healthy_def file_Write_healthy)
      then show ?thesis
        using 1(1) [OF _ True] 1(3,4) avail none True
        by (simp add: bw_write_loop.simps [of w] bw_healthy_def healthy_def)
    next
      case False
      let ?v = "w\<lparr>bw_buf := bw_buf w @ take (bw_Available w) p\<rparr>"
      have hv: "bw_healthy ?v" using 1(4) by (simp add: bw_healthy_def)
      have "bw_healthy (snd (bw_Flush ?v))"
        using 1(4) by (simp add: bw_Flush_healthy [OF hv] bw_healthy_def healthy_def)
      then show ?thesis
        using 1(2) [OF _ False refl refl] 1(3) avail none False
        by (simp add: bw_write_loop.simps [of w] Let_def)
    qed
  qed
qed

lemma bw_Write_healthy:
  assumes "bw_healthy w"
  obtains w' where "bw_Write w p = (length p, None, w')" and "bw_healthy w'"
    and "bw_total w' = bw_total w @ p" and "bw_cap w' = bw_cap w"
    and "f_durable (bw_file w') = f_durable (bw_file w)"
proof -
  obtain r m v where loop: "bw_write_loop w p 0 = (r, m, v)" by (cases "bw_write_loop w p 0")
  have hv: "bw_healthy v" by (rule bw_write_loop_healthy [OF loop assms])
  let ?w = "v\<lparr>bw_buf := bw_buf v @ r\<rparr>"
  have wr: "bw_Write w p = (m + length r, None, ?w)"
    using loop hv by (simp add: bw_Write_def bw_healthy_def)
  have w: "bw_err w = None" using assms by (simp add: bw_healthy_def)
  show ?thesis
    by (rule that [of ?w]) (use wr hv bw_Write_ok [OF wr w] in \<open>auto simp: bw_healthy_def\<close>)
qed

text \<open>The file only ever grows, and a write that fits the buffer does not touch it.\<close>

lemma file_Write_grows: "file_Write f p = (n, e, f') \<Longrightarrow> \<exists>z. f_data f' = f_data f @ z"
  by (auto dest: file_Write_data)

lemma bw_Flush_grows: "\<exists>z. f_data (bw_file (snd (bw_Flush w))) = f_data (bw_file w) @ z"
  by (auto simp: bw_Flush_def Let_def split: prod.splits option.splits dest: file_Write_grows)

lemma bw_write_loop_grows:
  "bw_write_loop w p nn = (r, m, w') \<Longrightarrow> \<exists>z. f_data (bw_file w') = f_data (bw_file w) @ z"
proof (induction w p nn rule: bw_write_loop.induct)
  case (1 w p nn)
  show ?case
  proof (cases "bw_Available w < length p \<and> bw_err w = None")
    case False
    then show ?thesis using 1(3) by (subst (asm) bw_write_loop.simps) auto
  next
    case go: True
    show ?thesis
    proof (cases "bw_buf w = []")
      case True
      obtain n e f' where wr: "file_Write (bw_file w) p = (n, e, f')"
        by (cases "file_Write (bw_file w) p")
      have "\<exists>z. f_data (bw_file w') = f_data (bw_file (w\<lparr>bw_file := f', bw_err := e\<rparr>)) @ z"
        using 1(1) [OF go True wr [symmetric] refl] 1(3) go True wr
        by (simp add: bw_write_loop.simps [of w])
      then show ?thesis using file_Write_grows [OF wr] by auto
    next
      case False
      let ?v = "w\<lparr>bw_buf := bw_buf w @ take (bw_Available w) p\<rparr>"
      have "\<exists>z. f_data (bw_file w') = f_data (bw_file (snd (bw_Flush ?v))) @ z"
        using 1(2) [OF go False refl refl] 1(3) go False
        by (simp add: bw_write_loop.simps [of w] Let_def)
      then show ?thesis using bw_Flush_grows [of ?v] by auto
    qed
  qed
qed

lemma bw_Write_grows:
  assumes "bw_Write w p = (n, e, w')"
  shows "\<exists>z. f_data (bw_file w') = f_data (bw_file w) @ z"
proof -
  obtain r m v where loop: "bw_write_loop w p 0 = (r, m, v)" by (cases "bw_write_loop w p 0")
  then show ?thesis
    using assms bw_write_loop_grows [OF loop] by (auto simp: bw_Write_def split: if_splits)
qed

lemma bw_Write_fits:
  assumes "bw_err w = None" and "length p \<le> bw_Available w"
  shows "bw_Write w p = (length p, None, w\<lparr>bw_buf := bw_buf w @ p\<rparr>)"
proof -
  have "bw_write_loop w p 0 = (p, 0, w)" using assms by (subst bw_write_loop.simps) auto
  then show ?thesis using assms by (simp add: bw_Write_def)
qed

end
