(* ===== verification/Protocol.thy ===== *)
theory Protocol
  imports Go_Std
begin

text \<open>
  \<open>internal/network/protocol.go\<close>: the binary protocol. Opcodes, the 8-byte TCP request header
  and its parser, and the parser of UDP telemetry datagrams. A reader is the list of bytes it still
  holds; the parsers return what is left of it.
\<close>

definition MagicByte :: byte where
  "MagicByte = 0xA1"

definition HeaderSize :: nat where
  "HeaderSize = 8"

definition TelemetryHeaderSize :: nat where
  "TelemetryHeaderSize = 4"

definition OpEcho :: byte where "OpEcho = 0x01"
definition OpPut :: byte where "OpPut = 0x02"
definition OpGet :: byte where "OpGet = 0x03"
definition OpDelete :: byte where "OpDelete = 0x04"
definition OpTelemetry :: byte where "OpTelemetry = 0x05"
definition OpHeartbeat :: byte where "OpHeartbeat = 0x06"
definition OpScan :: byte where "OpScan = 0x07"

lemmas opcodes = OpEcho_def OpPut_def OpGet_def OpDelete_def OpTelemetry_def OpHeartbeat_def OpScan_def

record KeyValue =
  kv_Key :: bytes
  kv_Value :: bytes

record RequestHeader =
  rh_Op :: byte
  rh_KeyLen :: u16
  rh_ValueLen :: u32

definition ParseHeader :: "bytes \<Rightarrow> nat \<Rightarrow> (RequestHeader \<times> bytes) result" where
  "ParseHeader r bufLen =
     (if bufLen < HeaderSize then Inl ErrShortBuffer
      else case ReadFull HeaderSize r of
        Inl err \<Rightarrow>
          if errors_Is err EOF then Inl err
          else Inl (Wrapped ''failed to read protocol header'' err)
      | Inr (headerBuf, rest) \<Rightarrow>
          if headerBuf ! 0 \<noteq> MagicByte then Inl (Wrapped ''magic'' ErrInvalidMagic)
          else Inr (\<lparr>rh_Op = headerBuf ! 1,
                     rh_KeyLen = Uint16 (slice 2 4 headerBuf),
                     rh_ValueLen = Uint32 (slice 4 8 headerBuf)\<rparr>, rest))"

definition ParseTelemetryPacket :: "bytes \<Rightarrow> (byte \<times> bytes) result" where
  "ParseTelemetryPacket buf =
     (if length buf < TelemetryHeaderSize then Inl ErrShortBuffer
      else if buf ! 0 \<noteq> MagicByte then Inl (Wrapped ''magic'' ErrInvalidMagic)
      else let op = buf ! 1; payloadLen = unat (Uint16 (slice 2 4 buf)) in
        if length buf < TelemetryHeaderSize + payloadLen
        then Inl (Failure ''truncated UDP telemetry payload'')
        else Inr (op, slice TelemetryHeaderSize (TelemetryHeaderSize + payloadLen) buf))"

text \<open>The header every sender builds on its stack: magic, opcode, key length, value length.\<close>

definition header_bytes :: "byte \<Rightarrow> u16 \<Rightarrow> u32 \<Rightarrow> bytes" where
  "header_bytes op klen vlen = [MagicByte, op] @ PutUint16 klen @ PutUint32 vlen"

lemma length_header_bytes [simp, codec]: "length (header_bytes op k v) = 8"
  by (simp add: header_bytes_def)

lemma header_fields [simp]:
  "header_bytes op k v ! 0 = MagicByte" "header_bytes op k v ! Suc 0 = op"
  "Uint16 (slice 2 4 (header_bytes op k v)) = k" "Uint32 (slice 4 8 (header_bytes op k v)) = v"
  by (simp_all add: header_bytes_def slice_def numeral_2_eq_2 [symmetric])

lemma ParseHeader_header_bytes [simp]:
  "8 \<le> n \<Longrightarrow> ParseHeader (header_bytes op k v @ rest) n =
     Inr (\<lparr>rh_Op = op, rh_KeyLen = k, rh_ValueLen = v\<rparr>, rest)"
  by (simp add: ParseHeader_def HeaderSize_def)

end
