(* ===== verification/Metrics.thy ===== *)
theory Metrics
  imports Go_Std Complex_Main
begin

text \<open>
  \<open>internal/metrics\<close>: counters, gauges, histograms and the registry. The pointers the program
  shares between the \<open>EngineMetrics\<close> bundle and the registry are the constructors of
  \<open>counter_id\<close>, \<open>gauge_id\<close> and \<open>histogram_id\<close>; the bundle maps each to the metric it points
  to, the registry lists the pointers in registration order. Counters wrap at 64 bits. A
  \<open>float64\<close> is a real: rounding, NaN and infinities are not modelled.
\<close>

section \<open>Metric values\<close>

record counter =
  c_name :: string
  c_help :: string
  c_labels :: string
  c_val :: u64

definition NewCounter :: "string \<Rightarrow> string \<Rightarrow> string \<Rightarrow> counter" where
  "NewCounter name hlp labels = \<lparr>c_name = name, c_help = hlp, c_labels = labels, c_val = 0\<rparr>"

definition counter_Inc :: "counter \<Rightarrow> counter" where
  "counter_Inc c = c\<lparr>c_val := c_val c + 1\<rparr>"

definition counter_Add :: "counter \<Rightarrow> u64 \<Rightarrow> counter" where
  "counter_Add c delta = c\<lparr>c_val := c_val c + delta\<rparr>"

definition counter_Value :: "counter \<Rightarrow> u64" where
  "counter_Value c = c_val c"

record gauge =
  g_name :: string
  g_help :: string
  g_val :: u64

definition NewGauge :: "string \<Rightarrow> string \<Rightarrow> gauge" where
  "NewGauge name hlp = \<lparr>g_name = name, g_help = hlp, g_val = 0\<rparr>"

definition gauge_Set :: "gauge \<Rightarrow> u64 \<Rightarrow> gauge" where
  "gauge_Set g v = g\<lparr>g_val := v\<rparr>"

definition gauge_Add :: "gauge \<Rightarrow> u64 \<Rightarrow> gauge" where
  "gauge_Add g delta = g\<lparr>g_val := g_val g + delta\<rparr>"

definition gauge_Value :: "gauge \<Rightarrow> int" where
  "gauge_Value g = sint (g_val g)"

record histogram =
  h_name :: string
  h_help :: string
  h_buckets :: "real list"
  h_counts :: "u64 list"
  h_count :: u64
  h_sum :: real

definition DefaultHistogramBuckets :: "real list" where
  "DefaultHistogramBuckets =
     [1 / 1000000, 5 / 1000000, 10 / 1000000, 50 / 1000000, 100 / 1000000, 500 / 1000000,
      1 / 1000, 5 / 1000, 10 / 1000, 50 / 1000, 100 / 1000, 500 / 1000, 1]"

definition NewHistogram :: "string \<Rightarrow> string \<Rightarrow> real list \<Rightarrow> histogram" where
  "NewHistogram name hlp buckets =
     (let bs = (if length buckets = 0 then DefaultHistogramBuckets else buckets) in
      \<lparr>h_name = name, h_help = hlp, h_buckets = bs, h_counts = replicate (length bs) 0,
       h_count = 0, h_sum = 0\<rparr>)"

text \<open>\<open>Observe\<close>: the loop over the buckets adds one to every bucket whose bound is not exceeded.\<close>

fun observe_buckets :: "real \<Rightarrow> real list \<Rightarrow> u64 list \<Rightarrow> u64 list" where
  "observe_buckets v (b # bs) (c # cs) = (if v \<le> b then c + 1 else c) # observe_buckets v bs cs"
| "observe_buckets v _ cs = cs"

definition histogram_Observe :: "histogram \<Rightarrow> real \<Rightarrow> histogram" where
  "histogram_Observe h v =
     h\<lparr>h_count := h_count h + 1, h_sum := h_sum h + v,
       h_counts := observe_buckets v (h_buckets h) (h_counts h)\<rparr>"

section \<open>The engine's bundle and the registry\<close>

datatype counter_id =
    TCPRequestsPutOk | TCPRequestsGetOk | TCPRequestsDelOk | TCPRequestsEchoOk
  | TCPRequestsScanOk | TCPRequestsErrors | UDPPacketsTotal | UDPPacketsDropped
  | MemTableSwapEvents | WALFsyncTotal

datatype gauge_id = MemTableActiveBytes

datatype histogram_id =
    TCPParseDuration | UDPTelemetryDuration | MemTableSwapDuration | WALFsyncDuration

record Registry =
  reg_counters :: "counter_id list"
  reg_gauges :: "gauge_id list"
  reg_histograms :: "histogram_id list"

record EngineMetrics =
  em_registry :: Registry
  em_counter :: "counter_id \<Rightarrow> counter"
  em_gauge :: "gauge_id \<Rightarrow> gauge"
  em_histogram :: "histogram_id \<Rightarrow> histogram"

definition NewRegistry :: Registry where
  "NewRegistry = \<lparr>reg_counters = [], reg_gauges = [], reg_histograms = []\<rparr>"

definition RegisterCounter :: "Registry \<Rightarrow> counter_id \<Rightarrow> Registry" where
  "RegisterCounter r c = r\<lparr>reg_counters := reg_counters r @ [c]\<rparr>"

definition RegisterGauge :: "Registry \<Rightarrow> gauge_id \<Rightarrow> Registry" where
  "RegisterGauge r g = r\<lparr>reg_gauges := reg_gauges r @ [g]\<rparr>"

definition RegisterHistogram :: "Registry \<Rightarrow> histogram_id \<Rightarrow> Registry" where
  "RegisterHistogram r h = r\<lparr>reg_histograms := reg_histograms r @ [h]\<rparr>"

fun new_counter :: "counter_id \<Rightarrow> counter" where
  "new_counter TCPRequestsPutOk = NewCounter ''forest_tcp_requests_total''
     ''Total TCP Put requests succeeded'' ''cmd=\"put\",status=\"ok\"''"
| "new_counter TCPRequestsGetOk = NewCounter ''forest_tcp_requests_total''
     ''Total TCP Get requests succeeded'' ''cmd=\"get\",status=\"ok\"''"
| "new_counter TCPRequestsDelOk = NewCounter ''forest_tcp_requests_total''
     ''Total TCP Delete requests succeeded'' ''cmd=\"delete\",status=\"ok\"''"
| "new_counter TCPRequestsEchoOk = NewCounter ''forest_tcp_requests_total''
     ''Total TCP Echo requests succeeded'' ''cmd=\"echo\",status=\"ok\"''"
| "new_counter TCPRequestsScanOk = NewCounter ''forest_tcp_requests_total''
     ''Total TCP Scan requests succeeded'' ''cmd=\"scan\",status=\"ok\"''"
| "new_counter TCPRequestsErrors = NewCounter ''forest_tcp_requests_total''
     ''Total TCP requests failed'' ''status=\"error\"''"
| "new_counter UDPPacketsTotal = NewCounter ''forest_udp_packets_total''
     ''Total UDP telemetry datagrams received'' ''''"
| "new_counter UDPPacketsDropped = NewCounter ''forest_udp_packets_dropped_total''
     ''Total UDP telemetry packets dropped under backpressure'' ''''"
| "new_counter MemTableSwapEvents = NewCounter ''forest_memtable_swap_events_total''
     ''Total MemTable rotation and swap events'' ''''"
| "new_counter WALFsyncTotal = NewCounter ''forest_wal_fsync_total''
     ''Total WAL background fsync operations completed'' ''''"

fun new_histogram :: "histogram_id \<Rightarrow> histogram" where
  "new_histogram TCPParseDuration = NewHistogram ''forest_parse_duration_seconds''
     ''Latency distribution of frame parsing and dispatch'' []"
| "new_histogram UDPTelemetryDuration = NewHistogram ''forest_udp_telemetry_duration_seconds''
     ''Duration of processing UDP telemetry frames'' []"
| "new_histogram MemTableSwapDuration = NewHistogram ''forest_memtable_swap_duration_seconds''
     ''Duration of freezing and rotating active MemTable'' []"
| "new_histogram WALFsyncDuration = NewHistogram ''forest_wal_fsync_duration_seconds''
     ''Latency distribution of WAL file fsync calls'' []"

definition NewEngineMetrics :: EngineMetrics where
  "NewEngineMetrics =
     (let r0 = NewRegistry;
          r1 = foldl RegisterCounter r0
                 [TCPRequestsPutOk, TCPRequestsGetOk, TCPRequestsDelOk, TCPRequestsEchoOk,
                  TCPRequestsScanOk, TCPRequestsErrors];
          r2 = RegisterHistogram r1 TCPParseDuration;
          r3 = foldl RegisterCounter r2 [UDPPacketsTotal, UDPPacketsDropped];
          r4 = RegisterHistogram r3 UDPTelemetryDuration;
          r5 = RegisterCounter r4 MemTableSwapEvents;
          r6 = RegisterHistogram r5 MemTableSwapDuration;
          r7 = RegisterGauge r6 MemTableActiveBytes;
          r8 = RegisterCounter r7 WALFsyncTotal;
          r9 = RegisterHistogram r8 WALFsyncDuration
      in \<lparr>em_registry = r9, em_counter = new_counter,
          em_gauge = (\<lambda>_. NewGauge ''forest_memtable_active_bytes''
                            ''Estimated active MemTable memory usage in bytes''),
          em_histogram = new_histogram\<rparr>)"

text \<open>Calls through the bundle's pointers.\<close>

definition em_Inc :: "counter_id \<Rightarrow> EngineMetrics \<Rightarrow> EngineMetrics" where
  "em_Inc c em = em\<lparr>em_counter := (em_counter em)(c := counter_Inc (em_counter em c))\<rparr>"

definition em_Observe :: "histogram_id \<Rightarrow> real \<Rightarrow> EngineMetrics \<Rightarrow> EngineMetrics" where
  "em_Observe h v em =
     em\<lparr>em_histogram := (em_histogram em)(h := histogram_Observe (em_histogram em h) v)\<rparr>"

definition em_Set :: "gauge_id \<Rightarrow> u64 \<Rightarrow> EngineMetrics \<Rightarrow> EngineMetrics" where
  "em_Set g v em = em\<lparr>em_gauge := (em_gauge em)(g := gauge_Set (em_gauge em g) v)\<rparr>"

definition em_Value :: "EngineMetrics \<Rightarrow> counter_id \<Rightarrow> u64" where
  "em_Value em c = counter_Value (em_counter em c)"

lemma em_Value_Inc [simp]: "em_Value (em_Inc c em) d = (if d = c then em_Value em d + 1 else em_Value em d)"
  by (simp add: em_Value_def em_Inc_def counter_Value_def counter_Inc_def)

lemma em_Value_Observe [simp]: "em_Value (em_Observe h v em) d = em_Value em d"
  by (simp add: em_Value_def em_Observe_def)

lemma em_Value_Set [simp]: "em_Value (em_Set g v em) d = em_Value em d"
  by (simp add: em_Value_def em_Set_def)

section \<open>Histograms count cumulatively\<close>

text \<open>After the observations \<open>vs\<close>, bucket \<open>i\<close> holds the number of values up to its bound.\<close>

definition histogram_holds :: "histogram \<Rightarrow> real list \<Rightarrow> bool" where
  "histogram_holds h vs \<longleftrightarrow>
     length (h_counts h) = length (h_buckets h) \<and>
     (\<forall>i < length (h_buckets h).
        h_counts h ! i = word_of_nat (length (filter (\<lambda>v. v \<le> h_buckets h ! i) vs))) \<and>
     h_count h = word_of_nat (length vs) \<and> h_sum h = sum_list vs"

lemma length_observe_buckets [simp]: "length (observe_buckets v bs cs) = length cs"
  by (induction v bs cs rule: observe_buckets.induct) auto

lemma nth_observe_buckets:
  "length bs = length cs \<Longrightarrow> i < length cs \<Longrightarrow>
     observe_buckets v bs cs ! i = (if v \<le> bs ! i then cs ! i + 1 else cs ! i)"
proof (induction v bs cs arbitrary: i rule: observe_buckets.induct)
  case (1 v b bs c cs)
  then show ?case by (cases i) auto
qed auto

lemma histogram_holds_New: "histogram_holds (NewHistogram n h bs) []"
  by (simp add: histogram_holds_def NewHistogram_def Let_def)

lemma histogram_holds_Observe:
  "histogram_holds h vs \<Longrightarrow> histogram_holds (histogram_Observe h v) (vs @ [v])"
  by (auto simp: histogram_holds_def histogram_Observe_def nth_observe_buckets add.commute)

lemma histogram_holds_foldl:
  "histogram_holds h us \<Longrightarrow> histogram_holds (foldl histogram_Observe h vs) (us @ vs)"
proof (induction vs arbitrary: h us)
  case (Cons v vs)
  from Cons.IH [OF histogram_holds_Observe [OF Cons.prems, of v]] show ?case by simp
qed simp

lemma foldl_Observe_buckets [simp]: "h_buckets (foldl histogram_Observe h vs) = h_buckets h"
  by (induction vs arbitrary: h) (simp_all add: histogram_Observe_def)

end
