(* ===== verification/Store_Interface.thy ===== *)
theory Store_Interface
  imports Forest_Prelude
begin

text \<open>
  The contract of an in-memory ordered table, as its clients (write-ahead-log recovery, the engine,
  the SSTable writer) use it: a representation relation to sorted association lists, and what
  \<open>put\<close>, \<open>get\<close> and \<open>scan\<close> do to it. \<open>MemTable\<close> interprets it on the skip list. The
  operations return \<open>None\<close> when they do not return at all; the laws promise that they do.
\<close>

definition in_range :: "bytes \<Rightarrow> bytes \<Rightarrow> bytes \<Rightarrow> bool" where
  "in_range startKey endKey k \<longleftrightarrow>
     (startKey = [] \<or> startKey \<le> k) \<and> (endKey = [] \<or> k \<le> endKey)"

text \<open>Applying writes in order to a sorted association list.\<close>

definition apply_ops :: "(bytes \<times> bytes) list \<Rightarrow> (bytes \<times> bytes) list \<Rightarrow> (bytes \<times> bytes) list" where
  "apply_ops es ops = foldl (\<lambda>es (k, v). upd k v es) es ops"

lemma apply_ops_simps [simp]:
  "apply_ops es [] = es" "apply_ops es ((k, v) # ops) = apply_ops (upd k v es) ops"
  "apply_ops es (ops @ ops') = apply_ops (apply_ops es ops) ops'"
  by (simp_all add: apply_ops_def)

lemma ksorted_apply_ops: "ksorted es \<Longrightarrow> ksorted (apply_ops es ops)"
  by (induction ops arbitrary: es) auto

lemma map_of_apply_ops: "map_of (apply_ops es ops) = map_of es ++ map_of (rev ops)"
  by (induction ops arbitrary: es) (auto simp: fun_eq_iff map_add_def split: option.splits)

text \<open>A sequence of \<open>put\<close> calls, the \<open>i\<close>-th with the random draws \<open>r i\<close>.\<close>

fun put_seq ::
  "('r \<Rightarrow> 's \<Rightarrow> bytes \<Rightarrow> bytes \<Rightarrow> (go_error option \<times> 's) option) \<Rightarrow> (nat \<Rightarrow> 'r) \<Rightarrow> 's \<Rightarrow>
   (bytes \<times> bytes) list \<Rightarrow> 's option" where
  "put_seq put r s [] = Some s"
| "put_seq put r s ((k, v) # ops) =
     (case put (r 0) s k v of
        Some (None, s') \<Rightarrow> put_seq put (\<lambda>i. r (Suc i)) s' ops
      | _ \<Rightarrow> None)"

locale sorted_store =
  fixes rel :: "'s \<Rightarrow> (bytes \<times> bytes) list \<Rightarrow> bool"
    and writable :: "'s \<Rightarrow> bool"
    and put :: "'r \<Rightarrow> 's \<Rightarrow> bytes \<Rightarrow> bytes \<Rightarrow> (go_error option \<times> 's) option"
    and get :: "'s \<Rightarrow> bytes \<Rightarrow> bytes option option"
    and scan :: "'s \<Rightarrow> bytes \<Rightarrow> bytes \<Rightarrow> (bytes \<times> bytes) list option"
  assumes rel_sorted: "rel s es \<Longrightarrow> ksorted es"
    and put_rel: "rel s es \<Longrightarrow> writable s \<Longrightarrow>
      \<exists>s'. put r s k v = Some (None, s') \<and> rel s' (upd k v es) \<and> writable s'"
    and get_rel: "rel s es \<Longrightarrow> get s k = Some (map_of es k)"
    and scan_rel: "rel s es \<Longrightarrow> scan s a b = Some (filter (\<lambda>(k, v). in_range a b k) es)"
begin

lemma put_seq_rel:
  assumes "rel s es" and "writable s"
  shows "\<exists>s'. put_seq put r s ops = Some s' \<and> rel s' (apply_ops es ops) \<and> writable s'"
  using assms
proof (induction ops arbitrary: r s es)
  case (Cons op ops)
  obtain k v where op: "op = (k, v)" by (cases op)
  obtain s1 where s1: "put (r 0) s k v = Some (None, s1)" "rel s1 (upd k v es)" "writable s1"
    using put_rel [OF Cons.prems] by blast
  then show ?case using Cons.IH [OF s1(2,3)] by (simp add: op)
qed simp

lemma put_seq_get:
  assumes "rel s es" and "writable s"
  shows "\<exists>s'. put_seq put r s ops = Some s' \<and> writable s' \<and>
    (\<forall>k. get s' k = Some ((map_of es ++ map_of (rev ops)) k)) \<and>
    (\<forall>a b. scan s' a b = Some (filter (\<lambda>(k, v). in_range a b k) (apply_ops es ops)))"
proof -
  obtain s' where s': "put_seq put r s ops = Some s'" "rel s' (apply_ops es ops)" "writable s'"
    using put_seq_rel [OF assms] by blast
  then show ?thesis
    using get_rel [OF s'(2)] scan_rel [OF s'(2)] by (auto simp: map_of_apply_ops)
qed

lemma rel_unique:
  assumes "rel s es" and "rel s es'"
  shows "es = es'"
proof (rule ksorted_eqI)
  show "map_of es = map_of es'"
    using get_rel [OF assms(1)] get_rel [OF assms(2)] by (simp add: fun_eq_iff)
qed (use assms rel_sorted in auto)

end

text \<open>The sorted entries of a map in a range, which a range query returns.\<close>

definition spec_scan :: "(bytes \<Rightarrow> bytes option) \<Rightarrow> bytes \<Rightarrow> bytes \<Rightarrow> (bytes \<times> bytes) list" where
  "spec_scan M a b = map (\<lambda>k. (k, the (M k))) (sorted_list_of_set {k \<in> dom M. in_range a b k})"

lemma spec_scan_eq:
  assumes "finite (dom M)" and "ksorted xs" and "\<forall>k. map_of xs k = (if in_range a b k then M k else None)"
  shows "xs = spec_scan M a b"
proof (rule ksorted_eqI [OF assms(2)])
  let ?K = "{k \<in> dom M. in_range a b k}"
  have fin: "finite ?K" using assms(1) by simp
  have keys: "map fst (spec_scan M a b) = sorted_list_of_set ?K" by (simp add: spec_scan_def comp_def)
  show "ksorted (spec_scan M a b)" unfolding keys by simp
  have "map_of (spec_scan M a b) k = (if in_range a b k then M k else None)" for k
    using fin unfolding spec_scan_def map_of_map_keys by (auto simp: map_of_map_restrict restrict_map_def)
  then show "map_of xs = map_of (spec_scan M a b)" using assms(3) by (simp add: fun_eq_iff)
qed

end
