(* ===== verification/Framing.thy ===== *)
theory Framing
  imports Forest_Prelude
begin

text \<open>
  The contract of a self-delimiting record format: an encoder, a decoder that splits one record off
  the front of a byte string, and which records fit the fields of the format. The data entries and
  the sparse-index entries of SSTables interpret it. The lemmas hold for every such format: a stream decodes record by record and is uniquely decodable.
\<close>

locale framed =
  fixes enc :: "'a \<Rightarrow> bytes"
    and dec :: "bytes \<Rightarrow> ('a \<times> bytes) option"
    and ok :: "'a \<Rightarrow> bool"
  assumes dec_enc: "ok x \<Longrightarrow> dec (enc x @ rest) = Some (x, rest)"
    and dec_shorter: "dec d = Some (x, rest) \<Longrightarrow> length rest < length d"
begin

lemma enc_nonempty: "ok x \<Longrightarrow> enc x \<noteq> []"
  using dec_enc [of x "[]"] dec_shorter [of "enc x" x "[]"] by auto

lemma dec_stream: "ok x \<Longrightarrow> dec (concat (map enc (x # xs)) @ rest) = Some (x, concat (map enc xs) @ rest)"
  using dec_enc [of x "concat (map enc xs) @ rest"] by simp

lemma stream_length: "\<forall>x \<in> set xs. ok x \<Longrightarrow> length xs \<le> length (concat (map enc xs))"
proof (induction xs)
  case (Cons x xs)
  then have "0 < length (enc x)" using enc_nonempty [of x] by simp
  moreover have "length xs \<le> length (concat (map enc xs))" using Cons by simp
  ultimately show ?case unfolding list.map concat.simps length_append list.size by linarith
qed simp

lemma stream_unique:
  assumes "\<forall>x \<in> set xs. ok x" and "\<forall>y \<in> set ys. ok y"
    and "concat (map enc xs) = concat (map enc ys)"
  shows "xs = ys"
  using assms
proof (induction xs arbitrary: ys)
  case Nil
  have "length ys \<le> length (concat (map enc ys))" by (rule stream_length [OF Nil.prems(2)])
  then show ?case by (simp flip: Nil.prems(3))
next
  case (Cons x xs)
  have d: "dec (concat (map enc ys)) = Some (x, concat (map enc xs))"
    using dec_stream [of x xs "[]"] Cons.prems by simp
  have "ys \<noteq> []" using Cons.prems enc_nonempty [of x] by auto
  then obtain y zs where ys: "ys = y # zs" by (cases ys) auto
  have "dec (concat (map enc ys)) = Some (y, concat (map enc zs))"
    using dec_stream [of y zs "[]"] Cons.prems(2) by (simp add: ys)
  then have "x = y" and "concat (map enc xs) = concat (map enc zs)" using d by simp_all
  then show ?case using Cons.IH [of zs] Cons.prems(1,2) by (simp add: ys)
qed

end

end
