(* ===== verification/Handler.thy ===== *)
theory Handler
  imports Protocol Metrics Store_Interface Framing
begin

text \<open>
  \<open>internal/network/handler.go\<close>: one TCP request. A connection holds the bytes that are still to be
  read and those that were written; it may stop accepting bytes. The storage behind the handler is the
  interface \<open>Storage\<close> of \<open>protocol.go\<close>, a record of operations on an abstract state, and what the
  handler relies on is the locale \<open>storage_map\<close>.
\<close>

section \<open>Connections\<close>

record conn =
  cn_in :: bytes
  cn_out :: bytes
  cn_limit :: "nat option"
  cn_closed :: bool

definition conn_Write :: "conn \<Rightarrow> bytes \<Rightarrow> go_error option \<times> conn" where
  "conn_Write c p =
     (if cn_closed c then (Some ErrNetClosed, c)
      else case cn_limit c of
        None \<Rightarrow> (None, c\<lparr>cn_out := cn_out c @ p\<rparr>)
      | Some n \<Rightarrow>
          if length p \<le> n then (None, c\<lparr>cn_out := cn_out c @ p, cn_limit := Some (n - length p)\<rparr>)
          else (Some ErrBrokenPipe, c\<lparr>cn_out := cn_out c @ take n p, cn_limit := Some 0\<rparr>))"

definition conn_ReadFull :: "nat \<Rightarrow> conn \<Rightarrow> bytes result \<times> conn" where
  "conn_ReadFull n c =
     (if cn_closed c then (Inl ErrNetClosed, c)
      else case ReadFull n (cn_in c) of
        Inl e \<Rightarrow> (Inl e, c\<lparr>cn_in := []\<rparr>)
      | Inr (x, rest) \<Rightarrow> (Inr x, c\<lparr>cn_in := rest\<rparr>))"

definition conn_Close :: "conn \<Rightarrow> go_error option \<times> conn" where
  "conn_Close c = (if cn_closed c then (Some ErrNetClosed, c) else (None, c\<lparr>cn_closed := True\<rparr>))"

definition conn_up :: "conn \<Rightarrow> bool" where
  "conn_up c \<longleftrightarrow> \<not> cn_closed c \<and> cn_limit c = None"

section \<open>The storage interface\<close>

record 's Storage =
  st_Put :: "bytes \<Rightarrow> bytes \<Rightarrow> 's \<Rightarrow> (go_error option \<times> 's) option"
  st_Get :: "bytes \<Rightarrow> 's \<Rightarrow> (bytes option result \<times> 's) option"
  st_Delete :: "bytes \<Rightarrow> 's \<Rightarrow> (go_error option \<times> 's) option"
  st_Scan :: "bytes \<Rightarrow> bytes \<Rightarrow> 's \<Rightarrow> ((bytes \<times> bytes) list result \<times> 's) option"

section \<open>Responses\<close>

text \<open>A write that counts and reports its failure.\<close>

definition h_write :: "string \<Rightarrow> bytes \<Rightarrow> conn \<times> EngineMetrics \<Rightarrow> go_error option \<times> conn \<times> EngineMetrics" where
  "h_write msg p st =
     (let (c, em) = st in
      case conn_Write c p of
        (Some e, c') \<Rightarrow> (Some (Wrapped msg e), c', em_Inc TCPRequestsErrors em)
      | (None, c') \<Rightarrow> (None, c', em))"

definition count_ok :: "counter_id \<Rightarrow> conn \<times> EngineMetrics \<Rightarrow> go_error option \<times> conn \<times> EngineMetrics" where
  "count_ok i st = (None, fst st, em_Inc i (snd st))"

definition sendAck :: "conn \<Rightarrow> go_error option \<times> conn" where
  "sendAck c =
     (case conn_Write c (header_bytes 0 0 0) of
        (Some e, c') \<Rightarrow> (Some (Wrapped ''failed to send ACK'' e), c')
      | (None, c') \<Rightarrow> (None, c'))"

definition sendNotFound :: "conn \<Rightarrow> go_error option \<times> conn" where
  "sendNotFound c =
     (case conn_Write c (header_bytes 0 0xFFFF 0) of
        (Some e, c') \<Rightarrow> (Some (Wrapped ''failed to send NotFound response'' e), c')
      | (None, c') \<Rightarrow> (None, c'))"

definition handle_echo :: "RequestHeader \<Rightarrow> bytes \<Rightarrow> conn \<times> EngineMetrics \<Rightarrow> go_error option \<times> conn \<times> EngineMetrics" where
  "handle_echo h payload st =
     then_ok (h_write ''failed to write echo header'' (header_bytes OpEcho (rh_KeyLen h) (rh_ValueLen h)) st) (\<lambda>st.
     then_ok (if 0 < length payload then h_write ''failed to write echo payload'' payload st else (None, st))
       (count_ok TCPRequestsEchoOk))"

definition handle_found :: "RequestHeader \<Rightarrow> bytes \<Rightarrow> bytes \<Rightarrow> conn \<times> EngineMetrics \<Rightarrow> go_error option \<times> conn \<times> EngineMetrics" where
  "handle_found h key foundVal st =
     then_ok (h_write ''failed to write get header''
       (header_bytes OpGet (rh_KeyLen h) (word_of_nat (length foundVal))) st) (\<lambda>st.
     then_ok (h_write ''failed to write get key'' key st) (\<lambda>st.
     then_ok (h_write ''failed to write get value'' foundVal st) (count_ok TCPRequestsGetOk)))"

definition item_header :: "bytes \<Rightarrow> bytes \<Rightarrow> bytes" where
  "item_header k v = PutUint16 (word_of_nat (length k)) @ PutUint32 (word_of_nat (length v))"

fun write_items :: "(bytes \<times> bytes) list \<Rightarrow> conn \<times> EngineMetrics \<Rightarrow> go_error option \<times> conn \<times> EngineMetrics" where
  "write_items [] st = (None, st)"
| "write_items ((k, v) # items) st =
     then_ok (h_write ''failed to write scan item header'' (item_header k v) st) (\<lambda>st.
     then_ok (h_write ''failed to write scan item key'' k st) (\<lambda>st.
     then_ok (if 0 < length v then h_write ''failed to write scan item value'' v st else (None, st)) (\<lambda>st.
     write_items items st)))"

definition total_bytes :: "(bytes \<times> bytes) list \<Rightarrow> u32" where
  "total_bytes items = foldl (\<lambda>t (k, v). t + word_of_nat (6 + length k + length v)) 0 items"

definition handle_items :: "(bytes \<times> bytes) list \<Rightarrow> conn \<times> EngineMetrics \<Rightarrow> go_error option \<times> conn \<times> EngineMetrics" where
  "handle_items items st =
     then_ok (h_write ''failed to write scan header''
       (header_bytes OpScan (word_of_nat (length items)) (total_bytes items)) st) (\<lambda>st.
     then_ok (write_items items st) (count_ok TCPRequestsScanOk))"

text \<open>An error of the storage; a panic there unwinds through the handler.\<close>

definition storage_failed :: "string \<Rightarrow> go_error \<Rightarrow> conn \<Rightarrow> EngineMetrics \<Rightarrow> go_error option \<times> conn \<times> EngineMetrics" where
  "storage_failed msg e c em =
     (if is_panic e then (Some e, c, em) else (Some (Wrapped msg e), c, em_Inc TCPRequestsErrors em))"

section \<open>The handler\<close>

text \<open>\<open>bufLen\<close> is the length of \<open>payloadBuf\<close>; \<open>None\<close> is a storage operation that does not return.\<close>

definition HandleRequest ::
  "conn \<Rightarrow> RequestHeader \<Rightarrow> nat \<Rightarrow> 's Storage \<Rightarrow> EngineMetrics \<Rightarrow> 's \<Rightarrow> ((go_error option \<times> conn \<times> EngineMetrics) \<times> 's) option" where
  "HandleRequest c h bufLen db em s =
     (let totalLen = unat (rh_KeyLen h) + unat (rh_ValueLen h) in
      if bufLen < totalLen
      then Some ((Some (Failure ''protocol error: payload length exceeds buffer capacity''), c, em_Inc TCPRequestsErrors em), s)
      else
        case (if 0 < totalLen then conn_ReadFull totalLen c else (Inr [], c)) of
          (Inl e, c') \<Rightarrow>
            Some ((Some (Wrapped ''failed to read payload from connection'' e), c', em_Inc TCPRequestsErrors em), s)
        | (Inr payload, c') \<Rightarrow>
            let key = take (unat (rh_KeyLen h)) payload; val = drop (unat (rh_KeyLen h)) payload in
            if rh_Op h = OpEcho then Some (handle_echo h payload (c', em), s)
            else if rh_Op h = OpPut then
              (case st_Put db key val s of
                 None \<Rightarrow> None
               | Some (Some e, s') \<Rightarrow> Some (storage_failed ''storage engine failed to process Put'' e c' em, s')
               | Some (None, s') \<Rightarrow> let (e, c2) = sendAck c' in Some ((e, c2, em_Inc TCPRequestsPutOk em), s'))
            else if rh_Op h = OpGet then
              (case st_Get db key s of
                 None \<Rightarrow> None
               | Some (Inl e, s') \<Rightarrow> Some (storage_failed ''storage engine failed to process Get'' e c' em, s')
               | Some (Inr None, s') \<Rightarrow> let (e, c2) = sendNotFound c' in Some ((e, c2, em_Inc TCPRequestsGetOk em), s')
               | Some (Inr (Some v), s') \<Rightarrow> Some (handle_found h key v (c', em), s'))
            else if rh_Op h = OpDelete then
              (case st_Delete db key s of
                 None \<Rightarrow> None
               | Some (Some e, s') \<Rightarrow> Some (storage_failed ''storage engine failed to process Delete'' e c' em, s')
               | Some (None, s') \<Rightarrow> let (e, c2) = sendAck c' in Some ((e, c2, em_Inc TCPRequestsDelOk em), s'))
            else if rh_Op h = OpScan then
              (case st_Scan db key val s of
                 None \<Rightarrow> None
               | Some (Inl e, s') \<Rightarrow> Some (storage_failed ''storage engine failed to process Scan'' e c' em, s')
               | Some (Inr items, s') \<Rightarrow> Some (handle_items items (c', em), s'))
            else let (e, c2) = sendNotFound c' in Some ((e, c2, em_Inc TCPRequestsErrors em), s))"

section \<open>What the handler relies on\<close>

text \<open>
  The contract of \<open>Storage\<close>: the operations return, without error for the keys the storage accepts,
  and act as a map in which an empty value is an absent key.
\<close>

definition bind_value :: "bytes \<Rightarrow> bytes option" where
  "bind_value v = (if v = [] then None else Some v)"

locale storage_map =
  fixes S :: "'s Storage"
    and rel :: "'s \<Rightarrow> (bytes \<Rightarrow> bytes option) \<Rightarrow> bool"
    and key_ok :: "bytes \<Rightarrow> bool"
  assumes st_put: "rel s M \<Longrightarrow> key_ok k \<Longrightarrow> \<exists>s'. st_Put S k v s = Some (None, s') \<and> rel s' (M(k := bind_value v))"
    and st_delete: "rel s M \<Longrightarrow> key_ok k \<Longrightarrow> \<exists>s'. st_Delete S k s = Some (None, s') \<and> rel s' (M(k := None))"
    and st_get: "rel s M \<Longrightarrow> \<exists>s'. st_Get S k s = Some (Inr (M k), s') \<and> rel s' M"
    and st_scan: "rel s M \<Longrightarrow> \<exists>s'. st_Scan S a b s = Some (Inr (spec_scan M a b), s') \<and> rel s' M"

text \<open>Requests, their encoding, and the answer a map gives.\<close>

datatype request =
    RqEcho bytes bytes
  | RqPut bytes bytes
  | RqGet bytes
  | RqDelete bytes
  | RqScan bytes bytes

fun rq_op :: "request \<Rightarrow> byte" where
  "rq_op (RqEcho k v) = OpEcho" | "rq_op (RqPut k v) = OpPut" | "rq_op (RqGet k) = OpGet"
| "rq_op (RqDelete k) = OpDelete" | "rq_op (RqScan a b) = OpScan"

fun rq_key :: "request \<Rightarrow> bytes" where
  "rq_key (RqEcho k v) = k" | "rq_key (RqPut k v) = k" | "rq_key (RqGet k) = k"
| "rq_key (RqDelete k) = k" | "rq_key (RqScan a b) = a"

fun rq_val :: "request \<Rightarrow> bytes" where
  "rq_val (RqEcho k v) = v" | "rq_val (RqPut k v) = v" | "rq_val (RqGet k) = []"
| "rq_val (RqDelete k) = []" | "rq_val (RqScan a b) = b"

definition rq_header :: "request \<Rightarrow> RequestHeader" where
  "rq_header r = \<lparr>rh_Op = rq_op r, rh_KeyLen = word_of_nat (length (rq_key r)), rh_ValueLen = word_of_nat (length (rq_val r))\<rparr>"

definition rq_bytes :: "request \<Rightarrow> bytes" where
  "rq_bytes r = header_bytes (rq_op r) (word_of_nat (length (rq_key r))) (word_of_nat (length (rq_val r))) @ rq_key r @ rq_val r"

definition item_bytes :: "bytes \<times> bytes \<Rightarrow> bytes" where
  "item_bytes e = item_header (fst e) (snd e) @ fst e @ snd e"

fun response :: "request \<Rightarrow> (bytes \<Rightarrow> bytes option) \<Rightarrow> bytes" where
  "response (RqEcho k v) M = rq_bytes (RqEcho k v)"
| "response (RqPut k v) M = header_bytes 0 0 0"
| "response (RqGet k) M =
     (case M k of
        None \<Rightarrow> header_bytes 0 0xFFFF 0
      | Some v \<Rightarrow> header_bytes OpGet (word_of_nat (length k)) (word_of_nat (length v)) @ k @ v)"
| "response (RqDelete k) M = header_bytes 0 0 0"
| "response (RqScan a b) M =
     (let items = spec_scan M a b in
      header_bytes OpScan (word_of_nat (length items)) (total_bytes items) @ concat (map item_bytes items))"

fun rq_effect :: "request \<Rightarrow> (bytes \<Rightarrow> bytes option) \<Rightarrow> bytes \<Rightarrow> bytes option" where
  "rq_effect (RqPut k v) M = M(k := bind_value v)"
| "rq_effect (RqDelete k) M = M(k := None)"
| "rq_effect r M = M"

fun rq_counter :: "request \<Rightarrow> counter_id" where
  "rq_counter (RqEcho k v) = TCPRequestsEchoOk" | "rq_counter (RqPut k v) = TCPRequestsPutOk"
| "rq_counter (RqGet k) = TCPRequestsGetOk" | "rq_counter (RqDelete k) = TCPRequestsDelOk"
| "rq_counter (RqScan a b) = TCPRequestsScanOk"

text \<open>The lengths fit their fields and the payload buffer of \<open>n\<close> bytes.\<close>

definition rq_fits :: "nat \<Rightarrow> request \<Rightarrow> bool" where
  "rq_fits n r \<longleftrightarrow> length (rq_key r) < 2 ^ 16 \<and> length (rq_val r) < 2 ^ 32 \<and> length (rq_key r) + length (rq_val r) \<le> n"

fun rq_writes :: "request \<Rightarrow> bool" where
  "rq_writes (RqPut k v) = True" | "rq_writes (RqDelete k) = True" | "rq_writes r = False"

section \<open>Writing on a connection that is up\<close>

lemma conn_Write_up [simp]: "conn_up c \<Longrightarrow> conn_Write c p = (None, c\<lparr>cn_out := cn_out c @ p\<rparr>)"
  by (simp add: conn_Write_def conn_up_def)

lemma conn_up_out [simp]: "conn_up (c\<lparr>cn_out := x\<rparr>) = conn_up c" "conn_up (c\<lparr>cn_in := y\<rparr>) = conn_up c"
  by (simp_all add: conn_up_def)

lemma h_write_up [simp]: "conn_up c \<Longrightarrow> h_write msg p (c, em) = (None, c\<lparr>cn_out := cn_out c @ p\<rparr>, em)"
  by (simp add: h_write_def)

lemma send_up [simp]:
  "conn_up c \<Longrightarrow> sendAck c = (None, c\<lparr>cn_out := cn_out c @ header_bytes 0 0 0\<rparr>)"
  "conn_up c \<Longrightarrow> sendNotFound c = (None, c\<lparr>cn_out := cn_out c @ header_bytes 0 0xFFFF 0\<rparr>)"
  by (simp_all add: sendAck_def sendNotFound_def)

lemma write_items_up:
  "conn_up c \<Longrightarrow> write_items items (c, em) = (None, c\<lparr>cn_out := cn_out c @ concat (map item_bytes items)\<rparr>, em)"
proof (induction items arbitrary: c)
  case (Cons e items)
  obtain k v where e: "e = (k, v)" by (cases e)
  show ?case using Cons by (cases "v = []") (simp_all add: e item_bytes_def)
qed simp

lemma handle_echo_up:
  "conn_up c \<Longrightarrow> handle_echo h payload (c, em) =
     (None, c\<lparr>cn_out := cn_out c @ header_bytes OpEcho (rh_KeyLen h) (rh_ValueLen h) @ payload\<rparr>, em_Inc TCPRequestsEchoOk em)"
  by (cases "payload = []") (simp_all add: handle_echo_def count_ok_def)

lemma handle_found_up:
  "conn_up c \<Longrightarrow> handle_found h key v (c, em) =
     (None, c\<lparr>cn_out := cn_out c @ header_bytes OpGet (rh_KeyLen h) (word_of_nat (length v)) @ key @ v\<rparr>,
      em_Inc TCPRequestsGetOk em)"
  by (simp add: handle_found_def count_ok_def)

lemma handle_items_up:
  "conn_up c \<Longrightarrow> handle_items items (c, em) =
     (None, c\<lparr>cn_out := cn_out c @ header_bytes OpScan (word_of_nat (length items)) (total_bytes items) @
        concat (map item_bytes items)\<rparr>, em_Inc TCPRequestsScanOk em)"
  by (simp add: handle_items_def write_items_up count_ok_def)

text \<open>The payload of a request that fits, and what it splits into.\<close>

lemma rq_payload:
  assumes "rq_fits n r" and "conn_up c" and "cn_in c = rq_key r @ rq_val r @ rest"
  shows "unat (rh_KeyLen (rq_header r)) = length (rq_key r)" and "unat (rh_ValueLen (rq_header r)) = length (rq_val r)"
    and "(if 0 < length (rq_key r) + length (rq_val r) then conn_ReadFull (length (rq_key r) + length (rq_val r)) c
       else (Inr [], c)) = (Inr (rq_key r @ rq_val r), c\<lparr>cn_in := rest\<rparr>)"
proof -
  show "unat (rh_KeyLen (rq_header r)) = length (rq_key r)" "unat (rh_ValueLen (rq_header r)) = length (rq_val r)"
    using assms(1) by (simp_all add: rq_fits_def rq_header_def)
  have "ReadFull (length (rq_key r) + length (rq_val r)) (cn_in c) = Inr (rq_key r @ rq_val r, rest)"
    using ReadFull_append [of _ "rq_key r @ rq_val r" rest] assms(3) by simp
  then show "(if 0 < length (rq_key r) + length (rq_val r) then conn_ReadFull (length (rq_key r) + length (rq_val r)) c
      else (Inr [], c)) = (Inr (rq_key r @ rq_val r), c\<lparr>cn_in := rest\<rparr>)"
    using assms(2,3) by (auto simp: conn_ReadFull_def conn_up_def)
qed

lemma HandleRequest_dispatch:
  assumes fits: "rq_fits n r" and c: "conn_up c" "cn_in c = rq_key r @ rq_val r @ rest"
  shows "HandleRequest c (rq_header r) n S em s =
    (let c' = c\<lparr>cn_in := rest\<rparr>; h = rq_header r; key = rq_key r; val = rq_val r in
     if rq_op r = OpEcho then Some (handle_echo h (key @ val) (c', em), s)
     else if rq_op r = OpPut then
       (case st_Put S key val s of
          None \<Rightarrow> None
        | Some (Some e, s') \<Rightarrow> Some (storage_failed ''storage engine failed to process Put'' e c' em, s')
        | Some (None, s') \<Rightarrow> let (e, c2) = sendAck c' in Some ((e, c2, em_Inc TCPRequestsPutOk em), s'))
     else if rq_op r = OpGet then
       (case st_Get S key s of
          None \<Rightarrow> None
        | Some (Inl e, s') \<Rightarrow> Some (storage_failed ''storage engine failed to process Get'' e c' em, s')
        | Some (Inr None, s') \<Rightarrow> let (e, c2) = sendNotFound c' in Some ((e, c2, em_Inc TCPRequestsGetOk em), s')
        | Some (Inr (Some v), s') \<Rightarrow> Some (handle_found h key v (c', em), s'))
     else if rq_op r = OpDelete then
       (case st_Delete S key s of
          None \<Rightarrow> None
        | Some (Some e, s') \<Rightarrow> Some (storage_failed ''storage engine failed to process Delete'' e c' em, s')
        | Some (None, s') \<Rightarrow> let (e, c2) = sendAck c' in Some ((e, c2, em_Inc TCPRequestsDelOk em), s'))
     else if rq_op r = OpScan then
       (case st_Scan S key val s of
          None \<Rightarrow> None
        | Some (Inl e, s') \<Rightarrow> Some (storage_failed ''storage engine failed to process Scan'' e c' em, s')
        | Some (Inr items, s') \<Rightarrow> Some (handle_items items (c', em), s'))
     else let (e, c2) = sendNotFound c' in Some ((e, c2, em_Inc TCPRequestsErrors em), s))"
proof -
  have le: "\<not> n < length (rq_key r) + length (rq_val r)" using fits by (simp add: rq_fits_def)
  have op: "rh_Op (rq_header r) = rq_op r" by (simp add: rq_header_def)
  have kv: "take (length (rq_key r)) (rq_key r @ rq_val r) = rq_key r" "drop (length (rq_key r)) (rq_key r @ rq_val r) = rq_val r"
    by simp_all
  show ?thesis
    by (simp only: HandleRequest_def Let_def rq_payload [OF fits c] op le if_False prod.case sum.case kv)
qed

context storage_map
begin

lemma HandleRequest_map:
  assumes rel: "rel s M" and fits: "rq_fits n r" and key: "rq_writes r \<longrightarrow> key_ok (rq_key r)"
    and c: "conn_up c" "cn_in c = rq_key r @ rq_val r @ rest"
  shows "\<exists>s'. HandleRequest c (rq_header r) n S em s =
      Some ((None, c\<lparr>cn_in := rest, cn_out := cn_out c @ response r M\<rparr>, em_Inc (rq_counter r) em), s') \<and> rel s' (rq_effect r M)"
proof -
  have up: "conn_up (c\<lparr>cn_in := rest\<rparr>)" using c(1) by simp
  note step = HandleRequest_dispatch [OF fits c, of S em s]
  show ?thesis
  proof (cases r)
    case (RqEcho k v)
    then show ?thesis
      using rel up step by (simp add: handle_echo_up rq_bytes_def rq_header_def)
  next
    case (RqPut k v)
    obtain s' where "st_Put S k v s = Some (None, s')" "rel s' (M(k := bind_value v))"
      using st_put [OF rel, of k v] key RqPut by auto
    then show ?thesis using up step by (simp add: RqPut opcodes)
  next
    case (RqGet k)
    obtain s' where "st_Get S k s = Some (Inr (M k), s')" "rel s' M" using st_get [OF rel] by blast
    then show ?thesis
      using up step by (cases "M k") (simp_all add: RqGet opcodes handle_found_up rq_header_def)
  next
    case (RqDelete k)
    obtain s' where "st_Delete S k s = Some (None, s')" "rel s' (M(k := None))"
      using st_delete [OF rel, of k] key RqDelete by auto
    then show ?thesis using up step by (simp add: RqDelete opcodes)
  next
    case (RqScan a b)
    obtain s' where "st_Scan S a b s = Some (Inr (spec_scan M a b), s')" "rel s' M" using st_scan [OF rel] by blast
    then show ?thesis using up step by (simp add: RqScan opcodes handle_items_up Let_def)
  qed
qed

end

end
