(* ===== verification/Paths.thy ===== *)
theory Paths
  imports Forest_Prelude
begin

text \<open>
  \<open>fmt\<close>'s decimal verb and \<open>path/filepath\<close>'s \<open>Join\<close> with its lexical cleaning, as far as
  the engine names its files with them. The lemmas show that different ids give different paths.
\<close>

section \<open>Decimal numbers\<close>

definition digit :: "nat \<Rightarrow> char" where
  "digit n = char_of (48 + n)"

fun fmt_nat :: "nat \<Rightarrow> string" where
  "fmt_nat n = (if n < 10 then [digit n] else fmt_nat (n div 10) @ [digit (n mod 10)])"

declare fmt_nat.simps [simp del]

definition fmt_int :: "int \<Rightarrow> string" where
  "fmt_int i = (if i < 0 then CHR ''-'' # fmt_nat (nat (- i)) else fmt_nat (nat i))"

definition undigits :: "string \<Rightarrow> nat" where
  "undigits s = foldl (\<lambda>a c. 10 * a + (of_char c - 48)) 0 s"

lemma of_char_digit: "n < 10 \<Longrightarrow> (of_char (digit n) :: nat) = 48 + n"
  by (simp add: digit_def)

lemma undigits_fmt_nat: "undigits (fmt_nat n) = n"
proof (induction n rule: fmt_nat.induct)
  case (1 n)
  show ?case
  proof (cases "n < 10")
    case True
    then show ?thesis by (subst fmt_nat.simps) (simp add: undigits_def of_char_digit)
  next
    case False
    then have "undigits (fmt_nat n) = 10 * undigits (fmt_nat (n div 10)) + n mod 10"
      by (subst fmt_nat.simps) (simp add: undigits_def of_char_digit)
    then show ?thesis using 1 False by simp
  qed
qed

lemma fmt_nat_digits: "c \<in> set (fmt_nat n) \<Longrightarrow> \<exists>d < 10. c = digit d"
proof (induction n rule: fmt_nat.induct)
  case (1 n)
  show ?case
  proof (cases "n < 10")
    case True
    then show ?thesis using 1(2) by (subst (asm) fmt_nat.simps) auto
  next
    case False
    then have "c \<in> set (fmt_nat (n div 10)) \<or> c = digit (n mod 10)"
      using 1(2) by (subst (asm) fmt_nat.simps) auto
    then show ?thesis using 1(1) [OF False] by (metis mod_less_divisor zero_less_numeral)
  qed
qed

lemma digit_neq: "d < 10 \<Longrightarrow> digit d \<noteq> CHR ''-''" "d < 10 \<Longrightarrow> digit d \<noteq> CHR ''/''" "d < 10 \<Longrightarrow> digit d \<noteq> CHR ''.''"
  by (auto dest!: arg_cong [where f = "of_char :: char \<Rightarrow> nat"] simp: of_char_digit)

lemma fmt_int_inj: "fmt_int i = fmt_int j \<longleftrightarrow> i = j"
proof
  assume eq: "fmt_int i = fmt_int j"
  have neg: "CHR ''-'' \<notin> set (fmt_nat n)" for n using fmt_nat_digits digit_neq(1) by metis
  have inj: "fmt_nat m = fmt_nat n \<Longrightarrow> m = n" for m n by (metis undigits_fmt_nat)
  show "i = j"
    using eq neg inj [of "nat i" "nat j"] inj [of "nat (- i)" "nat (- j)"]
    unfolding fmt_int_def by (auto split: if_splits) (metis list.set_intros(1))+
qed simp

lemma fmt_int_no_slash: "CHR ''/'' \<notin> set (fmt_int i)"
proof -
  have "CHR ''/'' \<notin> set (fmt_nat n)" for n using fmt_nat_digits digit_neq(2) by metis
  then show ?thesis by (simp add: fmt_int_def)
qed

section \<open>filepath.Join\<close>

text \<open>The elements between slashes.\<close>

fun split_slash :: "string \<Rightarrow> string list" where
  "split_slash [] = [[]]"
| "split_slash (c # cs) =
     (if c = CHR ''/'' then [] # split_slash cs
      else case split_slash cs of [] \<Rightarrow> [[c]] | e # es \<Rightarrow> (c # e) # es)"

text \<open>Dropping empty and \<open>.\<close> elements, resolving \<open>..\<close>; the accumulator is reversed.\<close>

fun clean_elems :: "bool \<Rightarrow> string list \<Rightarrow> string list \<Rightarrow> string list" where
  "clean_elems rooted acc [] = rev acc"
| "clean_elems rooted acc (e # es) =
     (if e = [] \<or> e = ''.'' then clean_elems rooted acc es
      else if e = ''..'' then
        (case acc of
           [] \<Rightarrow> clean_elems rooted (if rooted then [] else [''..'']) es
         | x # xs \<Rightarrow> clean_elems rooted (if x = ''..'' then ''..'' # acc else xs) es)
      else clean_elems rooted (e # acc) es)"

fun join_slash :: "string list \<Rightarrow> string" where
  "join_slash [] = []"
| "join_slash [e] = e"
| "join_slash (e # es) = e @ ''/'' @ join_slash es"

definition filepath_Clean :: "string \<Rightarrow> string" where
  "filepath_Clean p =
     (let rooted = (p \<noteq> [] \<and> hd p = CHR ''/'');
          r = (if rooted then ''/'' else []) @ join_slash (clean_elems rooted [] (split_slash p))
      in if r = [] then ''.'' else r)"

definition filepath_Join :: "string \<Rightarrow> string \<Rightarrow> string" where
  "filepath_Join dir name =
     (if dir = [] \<and> name = [] then []
      else if dir = [] then filepath_Clean name
      else if name = [] then filepath_Clean dir
      else filepath_Clean (dir @ ''/'' @ name))"

lemma split_slash_nonempty: "split_slash p \<noteq> []"
  by (induction p) (auto split: list.splits)

lemma split_slash_plain: "CHR ''/'' \<notin> set p \<Longrightarrow> split_slash p = [p]"
  by (induction p) auto

lemma split_slash_append: "split_slash (p @ CHR ''/'' # q) = split_slash p @ split_slash q"
proof (induction p)
  case (Cons c p)
  then show ?case using split_slash_nonempty [of p] by (auto split: list.splits)
qed simp

lemma clean_elems_snoc:
  "e \<noteq> [] \<Longrightarrow> e \<noteq> ''.'' \<Longrightarrow> e \<noteq> ''..'' \<Longrightarrow> clean_elems r acc (es @ [e]) = clean_elems r acc es @ [e]"
  by (induction r acc es rule: clean_elems.induct) (auto split: list.splits)

lemma join_slash_snoc: "join_slash (es @ [e]) = (if es = [] then [] else join_slash es @ ''/'') @ e"
  by (induction es rule: join_slash.induct) auto

text \<open>Joining a directory with a plain file name puts a fixed prefix in front of the name.\<close>

lemma filepath_Join_plain:
  assumes "dir \<noteq> []"
  obtains pre where "\<And>name. name \<noteq> [] \<Longrightarrow> name \<noteq> ''.'' \<Longrightarrow> name \<noteq> ''..'' \<Longrightarrow> CHR ''/'' \<notin> set name \<Longrightarrow>
    filepath_Join dir name = pre @ name"
proof -
  let ?r = "hd dir = CHR ''/''"
  let ?es = "clean_elems ?r [] (split_slash dir)"
  show ?thesis
  proof (rule that [of "(if ?r then ''/'' else []) @ (if ?es = [] then [] else join_slash ?es @ ''/'')"])
    fix name assume n: "name \<noteq> []" "name \<noteq> ''.''" "name \<noteq> ''..''" "CHR ''/'' \<notin> set name"
    have "split_slash (dir @ ''/'' @ name) = split_slash dir @ [name]"
      using split_slash_append [of dir name] split_slash_plain [OF n(4)] by simp
    then have el: "clean_elems ?r [] (split_slash (dir @ ''/'' @ name)) = ?es @ [name]"
      using clean_elems_snoc [OF n(1-3)] by simp
    have root: "(dir @ ''/'' @ name \<noteq> [] \<and> hd (dir @ ''/'' @ name) = CHR ''/'') = ?r" using assms by simp
    show "filepath_Join dir name = ((if ?r then ''/'' else []) @ (if ?es = [] then [] else join_slash ?es @ ''/'')) @ name"
      unfolding filepath_Join_def filepath_Clean_def Let_def root el join_slash_snoc
      using assms n(1) by simp
  qed
qed

text \<open>Different plain names give different paths.\<close>

definition plain_name :: "string \<Rightarrow> bool" where
  "plain_name n \<longleftrightarrow> n \<noteq> [] \<and> n \<noteq> ''.'' \<and> n \<noteq> ''..'' \<and> CHR ''/'' \<notin> set n"

lemma filepath_Join_prefix: "\<exists>pre. \<forall>n. plain_name n \<longrightarrow> filepath_Join dir n = pre @ n"
proof (cases "dir = []")
  case True
  have "filepath_Join dir n = n" if "plain_name n" for n
  proof -
    have "hd n \<noteq> CHR ''/''" using that by (cases n) (auto simp: plain_name_def)
    then show ?thesis using that by (auto simp: True plain_name_def filepath_Join_def filepath_Clean_def split_slash_plain)
  qed
  then show ?thesis by (intro exI [of _ "[]"]) simp
next
  case False
  then show ?thesis by (rule filepath_Join_plain) (auto simp: plain_name_def)
qed

lemma filepath_Join_eq:
  "plain_name a \<Longrightarrow> plain_name b \<Longrightarrow> filepath_Join dir a = filepath_Join dir b \<longleftrightarrow> a = b"
  using filepath_Join_prefix [of dir] by (elim exE) simp

lemma filepath_Join_nonempty: "plain_name a \<Longrightarrow> filepath_Join dir a \<noteq> []"
  using filepath_Join_prefix [of dir] by (elim exE) (simp add: plain_name_def)

end
