(* ===== verification/Tls.thy ===== *)
theory Tls
  imports Go_Std Paths
begin

text \<open>
  \<open>internal/network/tls.go\<close>: loading TLS configurations and making development credentials. The
  cryptography of \<open>crypto/ecdsa\<close>, \<open>crypto/x509\<close>, \<open>crypto/tls\<close> and \<open>encoding/pem\<close> is a parameter, the
  record \<open>crypto\<close>; a theorem that needs something of it says so as a hypothesis. Generated keys and
  clock readings are numbered in the order of the calls.
\<close>

section \<open>Library types\<close>

text \<open>\<open>ecdsa.PrivateKey\<close>: the point of the public key, and the scalar.\<close>

record ecdsa_PrivateKey =
  ek_PublicKey :: "int \<times> int"
  ek_D :: int

datatype ExtKeyUsage = ExtKeyUsageServerAuth | ExtKeyUsageClientAuth

text \<open>The fields of \<open>x509.Certificate\<close> the templates set; times are in nanoseconds.\<close>

record x509_Template =
  ct_SerialNumber :: int
  ct_CommonName :: string
  ct_Organization :: "string list"
  ct_IPAddresses :: "bytes list"
  ct_DNSNames :: "string list"
  ct_NotBefore :: int
  ct_NotAfter :: int
  ct_IsCA :: bool
  ct_KeyUsage :: "nat set"
  ct_ExtKeyUsage :: "ExtKeyUsage list"
  ct_BasicConstraintsValid :: bool

record tls_Certificate =
  tc_Certificate :: "bytes list"
  tc_PrivateKey :: ecdsa_PrivateKey

datatype ClientAuthType = NoClientCert | RequireAndVerifyClientCert

text \<open>\<open>tls.Config\<close>; a pool is the list of its certificates in DER form, \<open>None\<close> a nil pool.\<close>

record tls_Config =
  tls_Certificates :: "tls_Certificate list"
  tls_MinVersion :: u16
  tls_ClientCAs :: "bytes list option"
  tls_ClientAuth :: ClientAuthType
  tls_RootCAs :: "bytes list option"
  tls_ServerName :: string

definition VersionTLS13 :: u16 where
  "VersionTLS13 = 0x0304"

definition zero_Config :: tls_Config where
  "zero_Config = \<lparr>tls_Certificates = [], tls_MinVersion = 0, tls_ClientCAs = None, tls_ClientAuth = NoClientCert,
     tls_RootCAs = None, tls_ServerName = []\<rparr>"

text \<open>
  The library calls. \<open>cr_PEMCerts\<close> are the certificates \<open>AppendCertsFromPEM\<close> finds in a text,
  \<open>cr_Parse\<close> is the \<open>Raw\<close> field of a parsed certificate.
\<close>

record crypto =
  cr_X509KeyPair :: "bytes \<Rightarrow> bytes \<Rightarrow> tls_Certificate result"
  cr_PEMCerts :: "bytes \<Rightarrow> bytes list"
  cr_Create :: "x509_Template \<Rightarrow> x509_Template \<Rightarrow> int \<times> int \<Rightarrow> ecdsa_PrivateKey \<Rightarrow> bytes result"
  cr_Parse :: "bytes \<Rightarrow> bytes result"
  cr_MarshalKey :: "ecdsa_PrivateKey \<Rightarrow> bytes result"
  cr_PEM :: "string \<Rightarrow> bytes \<Rightarrow> bytes"

definition LoadX509KeyPair :: "crypto \<Rightarrow> disk \<Rightarrow> string \<Rightarrow> string \<Rightarrow> tls_Certificate result" where
  "LoadX509KeyPair lib d certFile keyFile =
     (case os_ReadFile d certFile of
        Inl e \<Rightarrow> Inl e
      | Inr certPEM \<Rightarrow> (case os_ReadFile d keyFile of Inl e \<Rightarrow> Inl e | Inr keyPEM \<Rightarrow> cr_X509KeyPair lib certPEM keyPEM))"

text \<open>\<open>x509.NewCertPool\<close> followed by \<open>AppendCertsFromPEM\<close>, which says whether it found one.\<close>

definition pool_from_PEM :: "crypto \<Rightarrow> bytes \<Rightarrow> bytes list result" where
  "pool_from_PEM lib caBytes =
     (let caPool = cr_PEMCerts lib caBytes in if caPool = [] then Inl ErrFailedToAppendCA else Inr caPool)"

section \<open>Loading\<close>

definition LoadServerTLSConfig :: "crypto \<Rightarrow> disk \<Rightarrow> string \<Rightarrow> string \<Rightarrow> string \<Rightarrow> tls_Config result" where
  "LoadServerTLSConfig lib d certFile keyFile caFile =
     (if certFile = [] \<or> keyFile = [] then Inl ErrMissingCertFiles
      else
        bind_wrap ''failed to load server certificate pair'' (LoadX509KeyPair lib d certFile keyFile) (\<lambda>cert.
        let tlsConfig = zero_Config\<lparr>tls_Certificates := [cert], tls_MinVersion := VersionTLS13\<rparr> in
        if caFile \<noteq> [] then
          bind_wrap ''failed to read CA certificate'' (os_ReadFile d caFile) (\<lambda>caBytes.
          case pool_from_PEM lib caBytes of
            Inl e \<Rightarrow> Inl e
          | Inr caPool \<Rightarrow> Inr (tlsConfig\<lparr>tls_ClientCAs := Some caPool, tls_ClientAuth := RequireAndVerifyClientCert\<rparr>))
        else Inr tlsConfig))"

definition LoadClientTLSConfig :: "crypto \<Rightarrow> disk \<Rightarrow> string \<Rightarrow> string \<Rightarrow> string \<Rightarrow> string \<Rightarrow> tls_Config result" where
  "LoadClientTLSConfig lib d certFile keyFile caFile serverName =
     (let tlsConfig = zero_Config\<lparr>tls_MinVersion := VersionTLS13, tls_ServerName := serverName\<rparr> in
      case (if certFile \<noteq> [] \<and> keyFile \<noteq> [] then
              bind_wrap ''failed to load client certificate pair'' (LoadX509KeyPair lib d certFile keyFile) (\<lambda>cert.
              Inr (tlsConfig\<lparr>tls_Certificates := [cert]\<rparr>))
            else Inr tlsConfig) of
        Inl e \<Rightarrow> Inl e
      | Inr tlsConfig \<Rightarrow>
          if caFile \<noteq> [] then
            bind_wrap ''failed to read root CA file'' (os_ReadFile d caFile) (\<lambda>caBytes.
            case pool_from_PEM lib caBytes of
              Inl e \<Rightarrow> Inl e
            | Inr caPool \<Rightarrow> Inr (tlsConfig\<lparr>tls_RootCAs := Some caPool\<rparr>))
          else Inr tlsConfig)"

section \<open>Making credentials\<close>

definition hour :: int where
  "hour = 3600 * 1000000000"

text \<open>\<open>x509.KeyUsageDigitalSignature\<close>, \<open>KeyUsageCertSign\<close> and \<open>KeyUsageCRLSign\<close> by bit number.\<close>

definition caTemplate :: "string \<Rightarrow> int \<Rightarrow> int \<Rightarrow> int \<Rightarrow> x509_Template" where
  "caTemplate cn now1 now2 hours =
     \<lparr>ct_SerialNumber = 1, ct_CommonName = cn, ct_Organization = [''Forest Storage Engine''], ct_IPAddresses = [],
      ct_DNSNames = [], ct_NotBefore = now1 - hour, ct_NotAfter = now2 + hours * hour, ct_IsCA = True,
      ct_KeyUsage = {5, 6}, ct_ExtKeyUsage = [], ct_BasicConstraintsValid = True\<rparr>"

text \<open>\<open>net.ParseIP("127.0.0.1")\<close> and \<open>net.IPv6loopback\<close> in 16 bytes.\<close>

definition loopbacks :: "bytes list" where
  "loopbacks = [replicate 10 0 @ [0xFF, 0xFF, 127, 0, 0, 1], replicate 15 0 @ [1]]"

definition srvTemplate :: "int \<Rightarrow> int \<Rightarrow> int \<Rightarrow> x509_Template" where
  "srvTemplate now1 now2 hours =
     \<lparr>ct_SerialNumber = 2, ct_CommonName = ''localhost'', ct_Organization = [''Forest Node''],
      ct_IPAddresses = loopbacks, ct_DNSNames = [''localhost''], ct_NotBefore = now1 - hour,
      ct_NotAfter = now2 + hours * hour, ct_IsCA = False, ct_KeyUsage = {0},
      ct_ExtKeyUsage = [ExtKeyUsageServerAuth], ct_BasicConstraintsValid = False\<rparr>"

definition clientTemplate :: "int \<Rightarrow> int \<Rightarrow> int \<Rightarrow> x509_Template" where
  "clientTemplate now1 now2 hours =
     \<lparr>ct_SerialNumber = 3, ct_CommonName = ''forest-client-node'', ct_Organization = [''Forest Cluster''],
      ct_IPAddresses = [], ct_DNSNames = [], ct_NotBefore = now1 - hour,
      ct_NotAfter = now2 + hours * hour, ct_IsCA = False, ct_KeyUsage = {0},
      ct_ExtKeyUsage = [ExtKeyUsageClientAuth], ct_BasicConstraintsValid = False\<rparr>"

text \<open>\<open>gen i\<close> is the outcome of the \<open>i\<close>-th \<open>ecdsa.GenerateKey\<close>, \<open>now i\<close> the \<open>i\<close>-th \<open>time.Now()\<close>.\<close>

definition GenerateTestMTLSCredentials ::
  "crypto \<Rightarrow> (nat \<Rightarrow> ecdsa_PrivateKey result) \<Rightarrow> (nat \<Rightarrow> int) \<Rightarrow> (tls_Config \<times> tls_Config) result" where
  "GenerateTestMTLSCredentials lib gen now =
     bind_wrap ''failed generating CA private key'' (gen 0) (\<lambda>caPriv.
     let caT = caTemplate ''Forest Test Root CA'' (now 0) (now 1) 24 in
     bind_wrap ''failed creating CA certificate'' (cr_Create lib caT caT (ek_PublicKey caPriv) caPriv) (\<lambda>caBytes.
     bind_wrap ''failed parsing CA cert'' (cr_Parse lib caBytes) (\<lambda>caCertObj.
     let caPool = [caCertObj] in
     bind_wrap ''failed generating server private key'' (gen 1) (\<lambda>srvPriv.
     let srvT = srvTemplate (now 2) (now 3) 24 in
     bind_wrap ''failed creating server cert'' (cr_Create lib srvT caT (ek_PublicKey srvPriv) caPriv) (\<lambda>srvBytes.
     let serverCert = \<lparr>tc_Certificate = [srvBytes], tc_PrivateKey = srvPriv\<rparr> in
     bind_wrap ''failed generating client key'' (gen 2) (\<lambda>clientPriv.
     let clientT = clientTemplate (now 4) (now 5) 24 in
     bind_wrap ''failed creating client cert'' (cr_Create lib clientT caT (ek_PublicKey clientPriv) caPriv) (\<lambda>clientBytes.
     let clientCert = \<lparr>tc_Certificate = [clientBytes], tc_PrivateKey = clientPriv\<rparr>;
         serverCfg = zero_Config\<lparr>tls_Certificates := [serverCert], tls_ClientAuth := RequireAndVerifyClientCert,
           tls_ClientCAs := Some caPool, tls_MinVersion := VersionTLS13\<rparr>;
         clientCfg = zero_Config\<lparr>tls_Certificates := [clientCert], tls_RootCAs := Some caPool,
           tls_ServerName := ''localhost'', tls_MinVersion := VersionTLS13\<rparr>
     in Inr (serverCfg, clientCfg))))))))"

text \<open>\<open>os.Create\<close> or \<open>os.OpenFile\<close> with truncation, \<open>pem.Encode\<close> into the file, and the deferred \<open>Close\<close>.\<close>

definition write_pem :: "string \<Rightarrow> string \<Rightarrow> os_file result \<Rightarrow> string \<Rightarrow> bytes \<Rightarrow> disk \<Rightarrow> go_error option \<times> disk" where
  "write_pem createMsg writeMsg opened path text d =
     do_wrap createMsg opened d (\<lambda>out.
     let (n, e, out') = file_Write (out\<lparr>f_data := []\<rparr>) text in
     (map_option (Wrapped writeMsg) e, d(path \<mapsto> snd (file_Close out'))))"

definition WritePEMFiles ::
  "crypto \<Rightarrow> (string \<Rightarrow> os_file result) \<Rightarrow> string \<Rightarrow> string \<Rightarrow> bytes \<Rightarrow> ecdsa_PrivateKey \<Rightarrow> disk \<Rightarrow> go_error option \<times> disk" where
  "WritePEMFiles lib opened certFile keyFile certDER privKey d =
     then_ok (write_pem ''failed to create cert file'' ''failed to write cert pem'' (opened certFile) certFile
       (cr_PEM lib ''CERTIFICATE'' certDER) d) (\<lambda>d.
     do_wrap ''failed to marshal ec private key'' (cr_MarshalKey lib privKey) d (\<lambda>keyBytes.
     write_pem ''failed to create key file'' ''failed to write key pem'' (opened keyFile) keyFile
       (cr_PEM lib ''EC PRIVATE KEY'' keyBytes) d))"

definition GenerateAndSaveDevCerts ::
  "crypto \<Rightarrow> (string \<Rightarrow> go_error option) \<Rightarrow> (nat \<Rightarrow> ecdsa_PrivateKey result) \<Rightarrow> (nat \<Rightarrow> int) \<Rightarrow>
   (string \<Rightarrow> os_file result) \<Rightarrow> string \<Rightarrow> disk \<Rightarrow> go_error option \<times> disk" where
  "GenerateAndSaveDevCerts lib mkdir gen now opened outDir d =
     (case mkdir outDir of
        Some e \<Rightarrow> (Some (Wrapped ''failed to create cert output directory'' e), d)
      | None \<Rightarrow>
          let path = filepath_Join outDir; caT = caTemplate ''Forest Development CA'' (now 0) (now 1) (365 * 24) in
          do_wrap ''failed generating CA private key'' (gen 0) d (\<lambda>caPriv.
          do_wrap ''failed creating CA certificate'' (cr_Create lib caT caT (ek_PublicKey caPriv) caPriv) d (\<lambda>caDER.
          then_ok (WritePEMFiles lib opened (path ''ca.crt'') (path ''ca.key'') caDER caPriv d) (\<lambda>d.
          do_wrap ''failed generating server private key'' (gen 1) d (\<lambda>srvPriv.
          let srvT = srvTemplate (now 2) (now 3) (365 * 24) in
          do_wrap ''failed creating server certificate'' (cr_Create lib srvT caT (ek_PublicKey srvPriv) caPriv) d (\<lambda>srvDER.
          then_ok (WritePEMFiles lib opened (path ''server.crt'') (path ''server.key'') srvDER srvPriv d) (\<lambda>d.
          do_wrap ''failed generating client private key'' (gen 2) d (\<lambda>clientPriv.
          let clientT = clientTemplate (now 4) (now 5) (365 * 24) in
          do_wrap ''failed creating client certificate'' (cr_Create lib clientT caT (ek_PublicKey clientPriv) caPriv) d (\<lambda>clientDER.
          WritePEMFiles lib opened (path ''client.crt'') (path ''client.key'') clientDER clientPriv d)))))))))"

section \<open>Client authentication\<close>

lemma server_config_auth:
  assumes "LoadServerTLSConfig lib d certFile keyFile caFile = Inr cfg"
  shows "tls_MinVersion cfg = VersionTLS13" and "length (tls_Certificates cfg) = 1"
    and "caFile = [] \<Longrightarrow> tls_ClientAuth cfg = NoClientCert \<and> tls_ClientCAs cfg = None"
    and "caFile \<noteq> [] \<Longrightarrow> tls_ClientAuth cfg = RequireAndVerifyClientCert \<and>
       (\<exists>f. d caFile = Some f \<and> tls_ClientCAs cfg = Some (cr_PEMCerts lib (f_data f)) \<and> cr_PEMCerts lib (f_data f) \<noteq> [])"
  using assms
  by (auto simp: LoadServerTLSConfig_def bind_wrap_Inr pool_from_PEM_def os_ReadFile_def zero_Config_def Let_def
      split: if_splits option.splits sum.splits)

text \<open>C39. A server configuration that was loaded with a CA file always demands and verifies client
  certificates, against a pool that is not empty: an unreadable or empty CA file is an error and never a
  configuration without client authentication. Without a CA file no client certificate is asked for.
  TLS 1.3 is the minimum in both cases.\<close>

theorem server_tls_client_auth:
  assumes "LoadServerTLSConfig lib d certFile keyFile caFile = Inr cfg"
  shows "tls_MinVersion cfg = VersionTLS13 \<and> length (tls_Certificates cfg) = 1 \<and>
    (if caFile = [] then tls_ClientAuth cfg = NoClientCert \<and> tls_ClientCAs cfg = None
     else tls_ClientAuth cfg = RequireAndVerifyClientCert \<and>
       (\<exists>f. d caFile = Some f \<and> tls_ClientCAs cfg = Some (cr_PEMCerts lib (f_data f)) \<and> cr_PEMCerts lib (f_data f) \<noteq> []))"
  using server_config_auth [OF assms] by simp

section \<open>Credentials that fit together\<close>

text \<open>The certificate was made from the template with the key of a CA whose own certificate is the pool.\<close>

definition issued_by :: "crypto \<Rightarrow> bytes list option \<Rightarrow> tls_Certificate \<Rightarrow> x509_Template \<Rightarrow> x509_Template \<Rightarrow> bool" where
  "issued_by lib pool cert caT tmpl \<longleftrightarrow> ct_IsCA caT \<and>
     (\<exists>ca caKey der. pool = Some [ca] \<and> cr_Create lib caT caT (ek_PublicKey caKey) caKey = Inr ca \<and>
        cr_Create lib tmpl caT (ek_PublicKey (tc_PrivateKey cert)) caKey = Inr der \<and> tc_Certificate cert = [der])"

definition valid_at :: "int \<Rightarrow> x509_Template \<Rightarrow> bool" where
  "valid_at t tmpl \<longleftrightarrow> ct_NotBefore tmpl \<le> t \<and> t \<le> ct_NotAfter tmpl"

text \<open>What mutual authentication at time \<open>t\<close> needs: each side trusts the CA of the other side's
  certificate, which is meant for its role, is valid at that time and, for the server, bears the name
  the client asks for.\<close>

definition mutual_tls :: "crypto \<Rightarrow> int \<Rightarrow> tls_Config \<Rightarrow> tls_Config \<Rightarrow> bool" where
  "mutual_tls lib t scfg ccfg \<longleftrightarrow>
     tls_MinVersion scfg = VersionTLS13 \<and> tls_MinVersion ccfg = VersionTLS13 \<and>
     tls_ClientAuth scfg = RequireAndVerifyClientCert \<and>
     (\<exists>sc cc caT srvT clientT. tls_Certificates scfg = [sc] \<and> tls_Certificates ccfg = [cc] \<and>
        issued_by lib (tls_RootCAs ccfg) sc caT srvT \<and> issued_by lib (tls_ClientCAs scfg) cc caT clientT \<and>
        ExtKeyUsageServerAuth \<in> set (ct_ExtKeyUsage srvT) \<and> tls_ServerName ccfg \<in> set (ct_DNSNames srvT) \<and>
        ExtKeyUsageClientAuth \<in> set (ct_ExtKeyUsage clientT) \<and>
        valid_at t caT \<and> valid_at t srvT \<and> valid_at t clientT)"

lemma mutual_tlsI:
  fixes now :: "nat \<Rightarrow> int" and hours :: int and cn :: string
  defines "caT \<equiv> caTemplate cn (now 0) (now 1) hours"
  assumes "\<forall>i < 6. now i - hour \<le> t \<and> t \<le> now i + hours * hour"
    and "cr_Create lib caT caT (ek_PublicKey caPriv) caPriv = Inr ca"
    and "cr_Create lib (srvTemplate (now 2) (now 3) hours) caT (ek_PublicKey srvPriv) caPriv = Inr srv"
    and "cr_Create lib (clientTemplate (now 4) (now 5) hours) caT (ek_PublicKey clientPriv) caPriv = Inr client"
    and "scfg = zero_Config\<lparr>tls_Certificates := [\<lparr>tc_Certificate = [srv], tc_PrivateKey = srvPriv\<rparr>],
      tls_MinVersion := VersionTLS13, tls_ClientCAs := Some [ca], tls_ClientAuth := RequireAndVerifyClientCert\<rparr>"
    and "ccfg = zero_Config\<lparr>tls_Certificates := [\<lparr>tc_Certificate = [client], tc_PrivateKey = clientPriv\<rparr>],
      tls_MinVersion := VersionTLS13, tls_RootCAs := Some [ca], tls_ServerName := ''localhost''\<rparr>"
  shows "mutual_tls lib t scfg ccfg"
proof -
  let ?s = "\<lparr>tc_Certificate = [srv], tc_PrivateKey = srvPriv\<rparr>" and ?c = "\<lparr>tc_Certificate = [client], tc_PrivateKey = clientPriv\<rparr>"
  let ?srvT = "srvTemplate (now 2) (now 3) hours" and ?clientT = "clientTemplate (now 4) (now 5) hours"
  have "ct_IsCA caT" by (simp add: caT_def caTemplate_def)
  then have "issued_by lib (Some [ca]) ?s caT ?srvT" "issued_by lib (Some [ca]) ?c caT ?clientT"
    using assms(3-5) by (auto simp: issued_by_def)
  moreover have "valid_at t caT" "valid_at t ?srvT" "valid_at t ?clientT"
    using assms(2) by (simp_all add: valid_at_def caT_def caTemplate_def srvTemplate_def clientTemplate_def)
  moreover have "ct_ExtKeyUsage ?srvT = [ExtKeyUsageServerAuth]" "ct_DNSNames ?srvT = [''localhost'']"
    "ct_ExtKeyUsage ?clientT = [ExtKeyUsageClientAuth]" by (simp_all add: srvTemplate_def clientTemplate_def)
  ultimately show ?thesis
    unfolding mutual_tls_def assms(6,7) by (intro conjI exI [of _ ?s] exI [of _ ?c] exI [of _ caT] exI [of _ ?srvT] exI [of _ ?clientT])
      (simp_all add: zero_Config_def)
qed

text \<open>C38. Test credentials. Whenever \<open>GenerateTestMTLSCredentials\<close> succeeds, its two configurations fit
  together for mutual authentication at any time from an hour before to 24 hours after the call. The
  library is only asked to keep the bytes of a certificate it parses.\<close>

theorem test_credentials_match:
  assumes "GenerateTestMTLSCredentials lib gen now = Inr (scfg, ccfg)"
    and "\<forall>b x. cr_Parse lib b = Inr x \<longrightarrow> x = b"
    and "\<forall>i < 6. now i - hour \<le> t \<and> t \<le> now i + 24 * hour"
  shows "mutual_tls lib t scfg ccfg"
proof -
  let ?caT = "caTemplate ''Forest Test Root CA'' (now 0) (now 1) 24"
  obtain caPriv ca ca' srvPriv srv clientPriv client where
    c: "cr_Create lib ?caT ?caT (ek_PublicKey caPriv) caPriv = Inr ca" "cr_Parse lib ca = Inr ca'"
      "cr_Create lib (srvTemplate (now 2) (now 3) 24) ?caT (ek_PublicKey srvPriv) caPriv = Inr srv"
      "cr_Create lib (clientTemplate (now 4) (now 5) 24) ?caT (ek_PublicKey clientPriv) caPriv = Inr client"
    and cfg: "scfg = zero_Config\<lparr>tls_Certificates := [\<lparr>tc_Certificate = [srv], tc_PrivateKey = srvPriv\<rparr>],
      tls_MinVersion := VersionTLS13, tls_ClientCAs := Some [ca'], tls_ClientAuth := RequireAndVerifyClientCert\<rparr>"
      "ccfg = zero_Config\<lparr>tls_Certificates := [\<lparr>tc_Certificate = [client], tc_PrivateKey = clientPriv\<rparr>],
      tls_MinVersion := VersionTLS13, tls_RootCAs := Some [ca'], tls_ServerName := ''localhost''\<rparr>"
    using assms(1) by (auto simp: GenerateTestMTLSCredentials_def bind_wrap_Inr zero_Config_def Let_def)
  have "ca' = ca" using assms(2) c(2) by blast
  then show ?thesis using mutual_tlsI [OF assms(3) c(1,3,4)] cfg by simp
qed

lemma write_pem_None:
  "write_pem m1 m2 opened path text d = (None, d') \<Longrightarrow> \<exists>f. d' = d(path \<mapsto> f) \<and> f_data f = text"
  by (cases opened) (auto simp: write_pem_def file_Close_def split: prod.splits if_splits dest!: file_Write_ok)

lemma do_wrap_None: "do_wrap msg r s f = (None, s') \<longleftrightarrow> (\<exists>x. r = Inr x \<and> f x = (None, s'))"
  by (cases r) simp_all

lemma WritePEMFiles_None:
  assumes "WritePEMFiles lib opened certFile keyFile der key d = (None, d')"
  obtains cf kf kb where "d' = d(certFile \<mapsto> cf, keyFile \<mapsto> kf)" "f_data cf = cr_PEM lib ''CERTIFICATE'' der"
    "cr_MarshalKey lib key = Inr kb" "f_data kf = cr_PEM lib ''EC PRIVATE KEY'' kb"
  using assms by (auto simp: WritePEMFiles_def then_ok_None do_wrap_None dest!: write_pem_None)

lemma cert_names:
  "plain_name ''ca.crt''" "plain_name ''ca.key''" "plain_name ''server.crt''" "plain_name ''server.key''"
  "plain_name ''client.crt''" "plain_name ''client.key''"
  by (simp_all add: plain_name_def)

text \<open>What a successful \<open>GenerateAndSaveDevCerts\<close> leaves behind.\<close>

lemma dev_certs_written:
  fixes now :: "nat \<Rightarrow> int" and outDir :: string
  defines "caT \<equiv> caTemplate ''Forest Development CA'' (now 0) (now 1) (365 * 24)" and "p \<equiv> filepath_Join outDir"
  assumes "GenerateAndSaveDevCerts lib mkdir gen now opened outDir d = (None, d')"
  obtains caPriv ca srvPriv srv clientPriv client caf scf skf skb ccf ckf ckb where
    "cr_Create lib caT caT (ek_PublicKey caPriv) caPriv = Inr ca"
    "cr_Create lib (srvTemplate (now 2) (now 3) (365 * 24)) caT (ek_PublicKey srvPriv) caPriv = Inr srv"
    "cr_Create lib (clientTemplate (now 4) (now 5) (365 * 24)) caT (ek_PublicKey clientPriv) caPriv = Inr client"
    "d' (p ''ca.crt'') = Some caf" "f_data caf = cr_PEM lib ''CERTIFICATE'' ca"
    "d' (p ''server.crt'') = Some scf" "f_data scf = cr_PEM lib ''CERTIFICATE'' srv"
    "d' (p ''server.key'') = Some skf" "cr_MarshalKey lib srvPriv = Inr skb" "f_data skf = cr_PEM lib ''EC PRIVATE KEY'' skb"
    "d' (p ''client.crt'') = Some ccf" "f_data ccf = cr_PEM lib ''CERTIFICATE'' client"
    "d' (p ''client.key'') = Some ckf" "cr_MarshalKey lib clientPriv = Inr ckb" "f_data ckf = cr_PEM lib ''EC PRIVATE KEY'' ckb"
proof -
  let ?srvT = "srvTemplate (now 2) (now 3) (365 * 24)" and ?clientT = "clientTemplate (now 4) (now 5) (365 * 24)"
  obtain caPriv ca d1 srvPriv srv d2 clientPriv client where
    c: "cr_Create lib caT caT (ek_PublicKey caPriv) caPriv = Inr ca"
      "cr_Create lib ?srvT caT (ek_PublicKey srvPriv) caPriv = Inr srv"
      "cr_Create lib ?clientT caT (ek_PublicKey clientPriv) caPriv = Inr client"
    and w: "WritePEMFiles lib opened (p ''ca.crt'') (p ''ca.key'') ca caPriv d = (None, d1)"
      "WritePEMFiles lib opened (p ''server.crt'') (p ''server.key'') srv srvPriv d1 = (None, d2)"
      "WritePEMFiles lib opened (p ''client.crt'') (p ''client.key'') client clientPriv d2 = (None, d')"
    using assms(3) unfolding caT_def p_def
    by (auto simp: GenerateAndSaveDevCerts_def then_ok_None do_wrap_None Let_def split: option.splits)
  obtain f1 k1 where f1: "d1 = d(p ''ca.crt'' \<mapsto> f1, p ''ca.key'' \<mapsto> k1)" "f_data f1 = cr_PEM lib ''CERTIFICATE'' ca"
    using WritePEMFiles_None [OF w(1)] by metis
  obtain f2 k2 b2 where f2: "d2 = d1(p ''server.crt'' \<mapsto> f2, p ''server.key'' \<mapsto> k2)"
    "f_data f2 = cr_PEM lib ''CERTIFICATE'' srv" "cr_MarshalKey lib srvPriv = Inr b2" "f_data k2 = cr_PEM lib ''EC PRIVATE KEY'' b2"
    using WritePEMFiles_None [OF w(2)] by metis
  obtain f3 k3 b3 where f3: "d' = d2(p ''client.crt'' \<mapsto> f3, p ''client.key'' \<mapsto> k3)"
    "f_data f3 = cr_PEM lib ''CERTIFICATE'' client" "cr_MarshalKey lib clientPriv = Inr b3" "f_data k3 = cr_PEM lib ''EC PRIVATE KEY'' b3"
    using WritePEMFiles_None [OF w(3)] by metis
  have "d' (p ''ca.crt'') = Some f1" "d' (p ''server.crt'') = Some f2" "d' (p ''server.key'') = Some k2"
    "d' (p ''client.crt'') = Some f3" "d' (p ''client.key'') = Some k3"
    by (simp_all add: f1(1) f2(1) f3(1) p_def filepath_Join_eq cert_names)
  then show ?thesis using that [OF c _ f1(2) _ f2(2) _ f2(3,4) _ f3(2) _ f3(3,4)] by blast
qed

text \<open>C37. Development credentials. Whenever \<open>GenerateAndSaveDevCerts\<close> returns nil, the server and the
  client can load their configurations from the six files it wrote, in any directory, and these fit
  together for mutual authentication for a year. Hypotheses on the library: a certificate in PEM form is
  found again by the pool and, with the PEM form of the key it was made for, by the key-pair loader.\<close>

theorem dev_certs_load:
  assumes "GenerateAndSaveDevCerts lib mkdir gen now opened outDir d = (None, d')"
    and pair: "\<forall>tmpl par key signer der kb. cr_Create lib tmpl par (ek_PublicKey key) signer = Inr der \<longrightarrow>
      cr_MarshalKey lib key = Inr kb \<longrightarrow>
      cr_X509KeyPair lib (cr_PEM lib ''CERTIFICATE'' der) (cr_PEM lib ''EC PRIVATE KEY'' kb) =
        Inr \<lparr>tc_Certificate = [der], tc_PrivateKey = key\<rparr>"
    and pool: "\<forall>tmpl par pub signer der. cr_Create lib tmpl par pub signer = Inr der \<longrightarrow>
      cr_PEMCerts lib (cr_PEM lib ''CERTIFICATE'' der) = [der]"
    and "\<forall>i < 6. now i - hour \<le> t \<and> t \<le> now i + 365 * 24 * hour"
  shows "\<exists>scfg ccfg.
    LoadServerTLSConfig lib d' (filepath_Join outDir ''server.crt'') (filepath_Join outDir ''server.key'')
      (filepath_Join outDir ''ca.crt'') = Inr scfg \<and>
    LoadClientTLSConfig lib d' (filepath_Join outDir ''client.crt'') (filepath_Join outDir ''client.key'')
      (filepath_Join outDir ''ca.crt'') ''localhost'' = Inr ccfg \<and> mutual_tls lib t scfg ccfg"
proof -
  let ?caT = "caTemplate ''Forest Development CA'' (now 0) (now 1) (365 * 24)" and ?p = "filepath_Join outDir"
  obtain caPriv ca srvPriv srv clientPriv client caf scf skf skb ccf ckf ckb where
    c: "cr_Create lib ?caT ?caT (ek_PublicKey caPriv) caPriv = Inr ca"
      "cr_Create lib (srvTemplate (now 2) (now 3) (365 * 24)) ?caT (ek_PublicKey srvPriv) caPriv = Inr srv"
      "cr_Create lib (clientTemplate (now 4) (now 5) (365 * 24)) ?caT (ek_PublicKey clientPriv) caPriv = Inr client"
    and files: "d' (?p ''ca.crt'') = Some caf" "d' (?p ''server.crt'') = Some scf" "d' (?p ''server.key'') = Some skf"
      "d' (?p ''client.crt'') = Some ccf" "d' (?p ''client.key'') = Some ckf"
    and f: "f_data caf = cr_PEM lib ''CERTIFICATE'' ca" "f_data scf = cr_PEM lib ''CERTIFICATE'' srv"
      "f_data skf = cr_PEM lib ''EC PRIVATE KEY'' skb" "f_data ccf = cr_PEM lib ''CERTIFICATE'' client"
      "f_data ckf = cr_PEM lib ''EC PRIVATE KEY'' ckb"
    and kb: "cr_MarshalKey lib srvPriv = Inr skb" "cr_MarshalKey lib clientPriv = Inr ckb"
    by (rule dev_certs_written [OF assms(1)]) blast
  have pools: "cr_PEMCerts lib (f_data caf) = [ca]" unfolding f using pool c(1) by blast
  have pairs: "cr_X509KeyPair lib (f_data scf) (f_data skf) = Inr \<lparr>tc_Certificate = [srv], tc_PrivateKey = srvPriv\<rparr>"
    "cr_X509KeyPair lib (f_data ccf) (f_data ckf) = Inr \<lparr>tc_Certificate = [client], tc_PrivateKey = clientPriv\<rparr>"
    unfolding f using pair c(2,3) kb by blast+
  note load = LoadX509KeyPair_def os_ReadFile_def pool_from_PEM_def files filepath_Join_nonempty cert_names pools pairs zero_Config_def Let_def
  show ?thesis
  proof (intro exI conjI)
    show "LoadServerTLSConfig lib d' (?p ''server.crt'') (?p ''server.key'') (?p ''ca.crt'') =
      Inr (zero_Config\<lparr>tls_Certificates := [\<lparr>tc_Certificate = [srv], tc_PrivateKey = srvPriv\<rparr>],
        tls_MinVersion := VersionTLS13, tls_ClientCAs := Some [ca], tls_ClientAuth := RequireAndVerifyClientCert\<rparr>)"
      by (simp add: LoadServerTLSConfig_def load)
    show "LoadClientTLSConfig lib d' (?p ''client.crt'') (?p ''client.key'') (?p ''ca.crt'') ''localhost'' =
      Inr (zero_Config\<lparr>tls_Certificates := [\<lparr>tc_Certificate = [client], tc_PrivateKey = clientPriv\<rparr>],
        tls_MinVersion := VersionTLS13, tls_RootCAs := Some [ca], tls_ServerName := ''localhost''\<rparr>)"
      by (simp add: LoadClientTLSConfig_def load)
  qed (rule mutual_tlsI [where now = now, OF _ c refl refl], use assms(4) in simp)
qed

text \<open>A library that satisfies the hypotheses: certificates carry their serial number, keys their scalar.\<close>

definition sample_key :: "byte \<Rightarrow> ecdsa_PrivateKey" where
  "sample_key n = \<lparr>ek_PublicKey = (uint n, 0), ek_D = uint n\<rparr>"

definition sample_crypto :: crypto where
  "sample_crypto = \<lparr>cr_X509KeyPair = (\<lambda>certPEM keyPEM.
       Inr \<lparr>tc_Certificate = [tl certPEM], tc_PrivateKey = sample_key (keyPEM ! 1)\<rparr>),
     cr_PEMCerts = (\<lambda>b. [tl b]),
     cr_Create = (\<lambda>tmpl par pub signer. Inr [word_of_int (ct_SerialNumber tmpl)]),
     cr_Parse = Inr,
     cr_MarshalKey = (\<lambda>k. let n = word_of_int (ek_D k) in
       if k = sample_key n then Inr [n] else Inl (Failure ''unknown elliptic curve'')),
     cr_PEM = (\<lambda>ty b. (if ty = ''CERTIFICATE'' then 1 else 2) # b)\<rparr>"

definition sample_file :: os_file where
  "sample_file = \<lparr>f_data = [], f_durable = [], f_quota = None, f_syncfail = False, f_closed = False\<rparr>"

definition sample_certs :: "go_error option \<times> disk" where
  "sample_certs = GenerateAndSaveDevCerts sample_crypto (\<lambda>_. None) (\<lambda>i. Inr (sample_key (word_of_nat i))) (\<lambda>_. 0)
     (\<lambda>_. Inr sample_file) ''certs'' (\<lambda>_. None)"

lemma sample_certs_ok: "fst sample_certs = None"
  by (simp add: sample_certs_def GenerateAndSaveDevCerts_def WritePEMFiles_def write_pem_def sample_crypto_def sample_file_def
      file_Write_def sample_key_def Let_def)

theorem dev_certs_load_witness:
  "\<exists>scfg ccfg. fst sample_certs = None \<and>
    LoadServerTLSConfig sample_crypto (snd sample_certs) ''certs/server.crt'' ''certs/server.key'' ''certs/ca.crt'' = Inr scfg \<and>
    LoadClientTLSConfig sample_crypto (snd sample_certs) ''certs/client.crt'' ''certs/client.key'' ''certs/ca.crt'' ''localhost'' =
      Inr ccfg \<and> mutual_tls sample_crypto 5 scfg ccfg"
proof -
  have gen: "GenerateAndSaveDevCerts sample_crypto (\<lambda>_. None) (\<lambda>i. Inr (sample_key (word_of_nat i))) (\<lambda>_. 0)
     (\<lambda>_. Inr sample_file) ''certs'' (\<lambda>_. None) = (None, snd sample_certs)"
    using sample_certs_ok by (simp add: sample_certs_def prod_eq_iff)
  have pair: "\<forall>tmpl par key signer der kb. cr_Create sample_crypto tmpl par (ek_PublicKey key) signer = Inr der \<longrightarrow>
      cr_MarshalKey sample_crypto key = Inr kb \<longrightarrow>
      cr_X509KeyPair sample_crypto (cr_PEM sample_crypto ''CERTIFICATE'' der) (cr_PEM sample_crypto ''EC PRIVATE KEY'' kb) =
        Inr \<lparr>tc_Certificate = [der], tc_PrivateKey = key\<rparr>"
    by (auto simp: sample_crypto_def Let_def split: if_splits)
  have pool: "\<forall>tmpl par pub signer der. cr_Create sample_crypto tmpl par pub signer = Inr der \<longrightarrow>
      cr_PEMCerts sample_crypto (cr_PEM sample_crypto ''CERTIFICATE'' der) = [der]"
    by (simp add: sample_crypto_def)
  have now: "\<forall>i < 6. (\<lambda>_. 0) (i :: nat) - hour \<le> 5 \<and> 5 \<le> (\<lambda>_. 0) i + 365 * 24 * hour" by (simp add: hour_def)
  show ?thesis
    using dev_certs_load [OF gen pair pool now] sample_certs_ok by (simp add: filepath_Join_def filepath_Clean_def)
qed

theorem test_credentials_match_witness:
  "\<exists>scfg ccfg. GenerateTestMTLSCredentials sample_crypto (\<lambda>i. Inr (sample_key (word_of_nat i))) (\<lambda>_. 0) = Inr (scfg, ccfg) \<and>
    mutual_tls sample_crypto 5 scfg ccfg"
proof -
  obtain scfg ccfg where gen:
    "GenerateTestMTLSCredentials sample_crypto (\<lambda>i. Inr (sample_key (word_of_nat i))) (\<lambda>_. 0) = Inr (scfg, ccfg)"
    by (simp add: GenerateTestMTLSCredentials_def sample_crypto_def Let_def)
  have "\<forall>b x. cr_Parse sample_crypto b = Inr x \<longrightarrow> x = b" by (simp add: sample_crypto_def)
  moreover have "\<forall>i < 6. (\<lambda>_. 0) (i :: nat) - hour \<le> 5 \<and> 5 \<le> (\<lambda>_. 0) i + 24 * hour" by (simp add: hour_def)
  ultimately show ?thesis using test_credentials_match [OF gen] gen by blast
qed

theorem server_tls_client_auth_witness:
  "\<exists>cfg. LoadServerTLSConfig sample_crypto (\<lambda>_. Some (sample_file\<lparr>f_data := [1, 2]\<rparr>)) ''c'' ''k'' ''ca'' = Inr cfg \<and>
    tls_ClientAuth cfg = RequireAndVerifyClientCert"
proof -
  obtain cfg where cfg:
    "LoadServerTLSConfig sample_crypto (\<lambda>_. Some (sample_file\<lparr>f_data := [1, 2]\<rparr>)) ''c'' ''k'' ''ca'' = Inr cfg"
    by (simp add: LoadServerTLSConfig_def LoadX509KeyPair_def os_ReadFile_def pool_from_PEM_def sample_crypto_def Let_def)
  then show ?thesis using server_tls_client_auth [OF cfg] by simp
qed

end
