(* ===== verification/Server.thy ===== *)
theory Server
  imports Handler Tls
begin

text \<open>
  \<open>internal/network/server.go\<close>: options, listeners, the accept loop, the connection loop, the UDP
  telemetry loop and \<open>Stop\<close>. What the operating system answers (listening, accepting, reading a
  datagram) is an argument; lists of such answers drive the loops. The telemetry callback is a
  function on an observer state \<open>'t\<close>.
\<close>

section \<open>State and construction\<close>

type_synonym 't telemetry_fn = "byte \<Rightarrow> bytes \<Rightarrow> string \<Rightarrow> 't \<Rightarrow> 't"

record listener =
  ln_closed :: bool
  ln_closeErr :: "go_error option"

record ('s, 't) Server =
  sv_addr :: string
  sv_udpAddr :: string
  sv_db :: "'s Storage"
  sv_listener :: "listener option"
  sv_udpConn :: "listener option"
  sv_tlsConfig :: "tls_Config option"
  sv_metrics :: EngineMetrics
  sv_stopped :: bool
  sv_telemetryFn :: "'t telemetry_fn option"

datatype 't ServerOption =
    SrvWithTLS "tls_Config option"
  | SrvWithUDP string
  | SrvWithMetrics "EngineMetrics option"
  | SrvWithTelemetryHandler "'t telemetry_fn option"

fun apply_server_option :: "'t ServerOption \<Rightarrow> ('s, 't) Server \<Rightarrow> ('s, 't) Server" where
  "apply_server_option (SrvWithTLS cfg) s = s\<lparr>sv_tlsConfig := cfg\<rparr>"
| "apply_server_option (SrvWithUDP udpAddr) s = s\<lparr>sv_udpAddr := udpAddr\<rparr>"
| "apply_server_option (SrvWithMetrics m) s = (case m of Some em \<Rightarrow> s\<lparr>sv_metrics := em\<rparr> | None \<Rightarrow> s)"
| "apply_server_option (SrvWithTelemetryHandler fn) s = s\<lparr>sv_telemetryFn := fn\<rparr>"

definition NewServer :: "EngineMetrics \<Rightarrow> string \<Rightarrow> 's Storage \<Rightarrow> 't ServerOption list \<Rightarrow> ('s, 't) Server" where
  "NewServer defaultMetrics addr db opts =
     fold apply_server_option opts
       \<lparr>sv_addr = addr, sv_udpAddr = [], sv_db = db, sv_listener = None, sv_udpConn = None, sv_tlsConfig = None,
        sv_metrics = defaultMetrics, sv_stopped = False, sv_telemetryFn = None\<rparr>"

definition isClosedNetworkError :: "go_error option \<Rightarrow> bool" where
  "isClosedNetworkError err =
     (case err of
        None \<Rightarrow> False
      | Some e \<Rightarrow> e = Failure ''use of closed network connection'' \<or> errors_Is e ErrNetClosed)"

definition ln_Close :: "listener \<Rightarrow> go_error option \<times> listener" where
  "ln_Close l = (if ln_closed l then (Some ErrNetClosed, l) else (ln_closeErr l, l\<lparr>ln_closed := True\<rparr>))"

section \<open>Start and Stop\<close>

text \<open>The accept loop; \<open>None\<close>: it still waits after the given answers. Each connection gets a goroutine.\<close>

fun accept_loop :: "conn result list \<Rightarrow> conn list \<Rightarrow> go_error option option \<times> conn list" where
  "accept_loop [] conns = (None, conns)"
| "accept_loop (Inl e # as) conns =
     (if errors_Is e ErrNetClosed \<or> isClosedNetworkError (Some e) then (Some None, conns)
      else (Some (Some (Wrapped ''failed to accept TCP connection'' e)), conns))"
| "accept_loop (Inr c # as) conns = accept_loop as (conns @ [c])"

text \<open>
  \<open>Start\<close>: \<open>listen\<close> is \<open>tls.Listen\<close> for a configuration and \<open>net.Listen\<close> without one; then the outcomes of resolving and binding the UDP address, and of accepting.
  The result says how it returned (\<open>None\<close>: not yet), which connections were accepted and whether the
  UDP loop was started.
\<close>

definition server_Start ::
  "(tls_Config option \<Rightarrow> listener result) \<Rightarrow> go_error option \<Rightarrow> listener result \<Rightarrow> conn result list \<Rightarrow> ('s, 't) Server \<Rightarrow>
   (go_error option option \<times> conn list \<times> bool) \<times> listener option \<times> ('s, 't) Server" where
  "server_Start listen resolved udpListened accepts s =
     (case listen (sv_tlsConfig s) of
        Inl e \<Rightarrow> ((Some (Some (Wrapped ''failed to bind TCP listener'' e)), [], False), None, s)
      | Inr l \<Rightarrow>
          let s1 = s\<lparr>sv_listener := Some l\<rparr> in
          if sv_udpAddr s1 \<noteq> [] then
            (case resolved of
               Some e \<Rightarrow> ((Some (Some (Wrapped ''failed to resolve UDP address'' e)), [], False), Some (snd (ln_Close l)), s1)
             | None \<Rightarrow>
                 (case udpListened of
                    Inl e \<Rightarrow> ((Some (Some (Wrapped ''failed to bind UDP listener'' e)), [], False), Some (snd (ln_Close l)), s1)
                  | Inr u \<Rightarrow>
                      let (r, conns) = accept_loop accepts [] in ((r, conns, True), Some l, s1\<lparr>sv_udpConn := Some u\<rparr>)))
          else let (r, conns) = accept_loop accepts [] in ((r, conns, False), Some l, s1))"

definition close_error :: "listener \<Rightarrow> go_error option" where
  "close_error l =
     (case fst (ln_Close l) of
        None \<Rightarrow> None
      | Some e \<Rightarrow> if errors_Is e ErrNetClosed \<or> isClosedNetworkError (Some e) then None else Some e)"

text \<open>\<open>Stop\<close>; the UDP loop it waits for ends, since its socket is closed.\<close>

definition server_Stop :: "('s, 't) Server \<Rightarrow> go_error option \<times> ('s, 't) Server" where
  "server_Stop s =
     (if sv_stopped s then (None, s)
      else
        let s1 = s\<lparr>sv_stopped := True\<rparr>;
            err1 = (case sv_listener s1 of None \<Rightarrow> None | Some l \<Rightarrow> close_error l);
            s2 = s1\<lparr>sv_listener := None\<rparr>;
            err2 = (case sv_udpConn s2 of
                      None \<Rightarrow> err1
                    | Some u \<Rightarrow> (case close_error u of None \<Rightarrow> err1 | Some e \<Rightarrow> if err1 = None then Some e else err1));
            s3 = s2\<lparr>sv_udpConn := None\<rparr>
        in (err2, s3))"

section \<open>UDP telemetry\<close>

text \<open>One turn of \<open>listenUDP\<close>: the stop signal, a failed read, or a datagram with its sender and the
  time its callback takes.\<close>

datatype udp_turn = UStop | UErr go_error | UPacket bytes string real

text \<open>The first component says whether the loop has returned.\<close>

fun listenUDP :: "'t telemetry_fn option \<Rightarrow> udp_turn list \<Rightarrow> EngineMetrics \<Rightarrow> 't \<Rightarrow> bool \<times> EngineMetrics \<times> 't" where
  "listenUDP fn [] em t = (False, em, t)"
| "listenUDP fn (UStop # ts) em t = (True, em, t)"
| "listenUDP fn (UErr e # ts) em t =
     (if errors_Is e ErrNetClosed \<or> isClosedNetworkError (Some e) then (True, em, t) else listenUDP fn ts em t)"
| "listenUDP fn (UPacket d from dt # ts) em t =
     (let em1 = em_Inc UDPPacketsTotal em in
      case ParseTelemetryPacket (take 65535 d) of
        Inl e \<Rightarrow> listenUDP fn ts (em_Inc UDPPacketsDropped em1) t
      | Inr (op, payload) \<Rightarrow>
          (case fn of
             None \<Rightarrow> listenUDP fn ts em1 t
           | Some f \<Rightarrow> listenUDP fn ts (em_Observe UDPTelemetryDuration dt em1) (f op payload from t)))"

section \<open>The connection loop\<close>

lemma conn_in_le: "length (cn_in (snd (conn_ReadFull n c))) \<le> length (cn_in c)"
  by (auto simp: conn_ReadFull_def dest: ReadFull_InrD split: sum.splits prod.splits)

lemma conn_Write_in [simp]: "cn_in (snd (conn_Write c p)) = cn_in c"
  by (simp add: conn_Write_def split: option.splits)

lemma h_write_in [simp]: "cn_in (fst (snd (h_write msg p st))) = cn_in (fst st)"
proof (cases "conn_Write (fst st) p")
  case (Pair e c')
  then show ?thesis using conn_Write_in [of "fst st" p]
    by (cases st; cases e) (simp_all add: h_write_def)
qed

lemma then_ok_in:
  assumes "cn_in (fst (snd r)) = x" and "\<And>st. cn_in (fst st) = x \<Longrightarrow> cn_in (fst (snd (f st))) = x"
  shows "cn_in (fst (snd (then_ok r f))) = x"
  using assms by (cases r; cases "fst r") (auto simp: then_ok_def)

lemma write_items_in: "cn_in (fst (snd (write_items items st))) = cn_in (fst st)"
proof (induction items st rule: write_items.induct)
  case (2 k v items st)
  show ?case unfolding write_items.simps
    by (intro then_ok_in) (auto simp: "2.IH")
qed simp

lemma handle_in:
  "cn_in (fst (snd (handle_echo h p st))) = cn_in (fst st)"
  "cn_in (fst (snd (handle_found h k v st))) = cn_in (fst st)"
  "cn_in (fst (snd (handle_items items st))) = cn_in (fst st)"
  unfolding handle_echo_def handle_found_def handle_items_def
  by (intro then_ok_in; simp add: count_ok_def write_items_in)+

lemma sent_in:
  "conn_Write c p = (e, c') \<Longrightarrow> cn_in c' = cn_in c"
  "sendAck c = (e, c') \<Longrightarrow> cn_in c' = cn_in c" "sendNotFound c = (e, c') \<Longrightarrow> cn_in c' = cn_in c"
  "handle_echo h q (c, em) = (e, c', em') \<Longrightarrow> cn_in c' = cn_in c"
  "handle_found h k v (c, em) = (e, c', em') \<Longrightarrow> cn_in c' = cn_in c"
  "handle_items items (c, em) = (e, c', em') \<Longrightarrow> cn_in c' = cn_in c"
  "storage_failed msg err c em = (e, c', em') \<Longrightarrow> cn_in c' = cn_in c"
proof -
  have w: "cn_in c' = cn_in c" if "conn_Write c p = (e, c')" for p e c' using conn_Write_in [of c p] that by simp
  show "conn_Write c p = (e, c') \<Longrightarrow> cn_in c' = cn_in c" by (rule w)
  show "sendAck c = (e, c') \<Longrightarrow> cn_in c' = cn_in c" "sendNotFound c = (e, c') \<Longrightarrow> cn_in c' = cn_in c"
    by (auto simp: sendAck_def sendNotFound_def dest: w split: prod.splits option.splits)
  show "handle_echo h q (c, em) = (e, c', em') \<Longrightarrow> cn_in c' = cn_in c"
    "handle_found h k v (c, em) = (e, c', em') \<Longrightarrow> cn_in c' = cn_in c"
    "handle_items items (c, em) = (e, c', em') \<Longrightarrow> cn_in c' = cn_in c"
    using handle_in(1) [of h q "(c, em)"] handle_in(2) [of h k v "(c, em)"] handle_in(3) [of items "(c, em)"] by simp_all
  show "storage_failed msg err c em = (e, c', em') \<Longrightarrow> cn_in c' = cn_in c"
    by (auto simp: storage_failed_def split: if_splits)
qed

lemma HandleRequest_in_le:
  assumes "HandleRequest c h n db em s = Some ((e, c', em'), s')"
  shows "length (cn_in c') \<le> length (cn_in c)"
proof -
  let ?t = "unat (rh_KeyLen h) + unat (rh_ValueLen h)"
  obtain r c1 where rd: "(if 0 < ?t then conn_ReadFull ?t c else (Inr [], c)) = (r, c1)" by fastforce
  have c1: "length (cn_in c1) \<le> length (cn_in c)"
    using conn_in_le [of ?t c] rd by (auto split: if_splits)
  have "n < ?t \<Longrightarrow> c' = c" using assms by (simp add: HandleRequest_def)
  moreover have "cn_in c' = cn_in c1" if "\<not> n < ?t"
    using assms that unfolding HandleRequest_def Let_def rd
    by (cases r) (auto dest: sent_in split: if_split_asm option.split_asm prod.split_asm sum.split_asm)
  ultimately show ?thesis using c1 by fastforce
qed

text \<open>
  \<open>handleConnection\<close>. \<open>st i\<close> is the storage as the \<open>i\<close>-th request finds it, \<open>dt i\<close> the measured
  duration. The error is why the loop ended; a panic ends the process.
\<close>

function handleConnection ::
  "(nat \<Rightarrow> 's Storage) \<Rightarrow> (nat \<Rightarrow> real) \<Rightarrow> conn \<Rightarrow> EngineMetrics \<Rightarrow> 's \<Rightarrow> (go_error \<times> conn \<times> EngineMetrics \<times> 's) option" where
  "handleConnection st dt c em s =
     (case ParseHeader (cn_in c) HeaderSize of
        Inl err \<Rightarrow> Some (err, snd (conn_Close c), em, s)
      | Inr (header, rest) \<Rightarrow>
          (case HandleRequest (c\<lparr>cn_in := rest\<rparr>) header (4 * 1024 * 1024) (st 0) em s of
             None \<Rightarrow> None
           | Some ((Some err, c', em'), s') \<Rightarrow> Some (err, snd (conn_Close c'), em', s')
           | Some ((None, c', em'), s') \<Rightarrow>
               handleConnection (\<lambda>i. st (Suc i)) (\<lambda>i. dt (Suc i)) c' (em_Observe TCPParseDuration (dt 0) em') s'))"
  by pat_completeness auto

lemma ParseHeader_rest: "ParseHeader bs n = Inr (h, rest) \<Longrightarrow> length rest + 8 = length bs"
  by (auto simp: ParseHeader_def HeaderSize_def dest!: ReadFull_InrD split: if_splits sum.splits)

termination handleConnection
proof (relation "measure (\<lambda>(st, dt, c, em, s). length (cn_in c))")
  fix st :: "nat \<Rightarrow> 'a Storage" and dt :: "nat \<Rightarrow> real" and c em and s :: 'a and x hdr rest y r s' e r' c' em'
  assume "ParseHeader (cn_in c) HeaderSize = Inr x" "(hdr, rest) = x"
    "HandleRequest (c\<lparr>cn_in := rest\<rparr>) hdr (4 * 1024 * 1024) (st 0) em s = Some y" "(r, s') = y"
    "(e, r') = r" "e = None" "(c', em') = r'"
  then have "length rest + 8 = length (cn_in c)" "length (cn_in c') \<le> length rest"
    using ParseHeader_rest [of "cn_in c" HeaderSize hdr rest]
      HandleRequest_in_le [of "c\<lparr>cn_in := rest\<rparr>" hdr "4 * 1024 * 1024" "st 0" em s None c' em' s'] by auto
  then show "((\<lambda>i. st (Suc i), \<lambda>i. dt (Suc i), c', em_Observe TCPParseDuration (dt 0) em', s'), (st, dt, c, em, s))
    \<in> measure (\<lambda>(st, dt, c, em, s). length (cn_in c))" by simp
qed simp

declare handleConnection.simps [simp del]

section \<open>Sessions\<close>

fun responses :: "request list \<Rightarrow> (bytes \<Rightarrow> bytes option) \<Rightarrow> bytes" where
  "responses [] M = []"
| "responses (r # rs) M = response r M @ responses rs (rq_effect r M)"

text \<open>The beginning of a request whose last bytes did not arrive.\<close>

definition torn :: "bytes \<Rightarrow> bool" where
  "torn t \<longleftrightarrow> (\<exists>r t'. rq_fits (4 * 1024 * 1024) r \<and> rq_bytes r = t @ t' \<and> t' \<noteq> [])"

definition rq_count :: "request list \<Rightarrow> counter_id \<Rightarrow> u64" where
  "rq_count rs i = word_of_nat (length (filter (\<lambda>r. rq_counter r = i) rs))"

locale storage_session =
  fixes st :: "nat \<Rightarrow> 's Storage"
    and rel :: "'s \<Rightarrow> (bytes \<Rightarrow> bytes option) \<Rightarrow> bool"
    and key_ok :: "bytes \<Rightarrow> bool"
  assumes each: "storage_map (st i) rel key_ok"
begin

lemma handleConnection_request:
  assumes rel: "rel s M" and fits: "rq_fits (4 * 1024 * 1024) r" and key: "rq_writes r \<longrightarrow> key_ok (rq_key r)"
    and c: "conn_up c" "cn_in c = rq_bytes r @ rest"
  shows "\<exists>s'. handleConnection (\<lambda>i. st (n + i)) dt c em s =
      handleConnection (\<lambda>i. st (Suc n + i)) (\<lambda>i. dt (Suc i)) (c\<lparr>cn_in := rest, cn_out := cn_out c @ response r M\<rparr>)
        (em_Observe TCPParseDuration (dt 0) (em_Inc (rq_counter r) em)) s' \<and> rel s' (rq_effect r M)"
proof -
  let ?c = "c\<lparr>cn_in := rq_key r @ rq_val r @ rest\<rparr>"
  have parse: "ParseHeader (cn_in c) HeaderSize = Inr (rq_header r, rq_key r @ rq_val r @ rest)"
    by (simp add: c(2) rq_bytes_def rq_header_def HeaderSize_def)
  obtain s' where "HandleRequest ?c (rq_header r) (4 * 1024 * 1024) (st n) em s =
      Some ((None, ?c\<lparr>cn_in := rest, cn_out := cn_out ?c @ response r M\<rparr>, em_Inc (rq_counter r) em), s')"
    "rel s' (rq_effect r M)"
    using storage_map.HandleRequest_map [OF each rel fits key, of ?c rest n em] c(1) by auto
  then show ?thesis
    using parse by (intro exI [of _ s'] conjI) (simp_all add: handleConnection.simps [of "\<lambda>i. st (n + i)"])
qed

lemma handleConnection_requests:
  assumes "rel s M" and "\<forall>r \<in> set rs. rq_fits (4 * 1024 * 1024) r \<and> (rq_writes r \<longrightarrow> key_ok (rq_key r))"
    and "conn_up c" and "cn_in c = concat (map rq_bytes rs) @ tail"
  shows "\<exists>s' em' dt'. handleConnection (\<lambda>i. st (n + i)) dt c em s =
      handleConnection (\<lambda>i. st (n + length rs + i)) dt' (c\<lparr>cn_in := tail, cn_out := cn_out c @ responses rs M\<rparr>) em' s' \<and>
    rel s' (fold rq_effect rs M) \<and> (\<forall>i. em_Value em' i = em_Value em i + rq_count rs i)"
  using assms
proof (induction rs arbitrary: s M c n dt em)
  case Nil
  have "c\<lparr>cn_in := cn_in c, cn_out := cn_out c\<rparr> = c" by simp
  then have "c\<lparr>cn_in := tail, cn_out := cn_out c @ responses [] M\<rparr> = c" using Nil.prems(4) by simp
  then show ?case using Nil.prems(1) by (intro exI [of _ s] exI [of _ em] exI [of _ dt]) (simp add: rq_count_def)
next
  case (Cons r rs)
  let ?c = "c\<lparr>cn_in := concat (map rq_bytes rs) @ tail, cn_out := cn_out c @ response r M\<rparr>"
  let ?em = "em_Observe TCPParseDuration (dt 0) (em_Inc (rq_counter r) em)"
  have r: "rq_fits (4 * 1024 * 1024) r" "rq_writes r \<longrightarrow> key_ok (rq_key r)" using Cons.prems(2) by simp_all
  have cin: "cn_in c = rq_bytes r @ (concat (map rq_bytes rs) @ tail)" using Cons.prems(4) by simp
  obtain s1 where s1: "handleConnection (\<lambda>i. st (n + i)) dt c em s =
      handleConnection (\<lambda>i. st (Suc n + i)) (\<lambda>i. dt (Suc i)) ?c ?em s1" "rel s1 (rq_effect r M)"
    using handleConnection_request [OF Cons.prems(1) r Cons.prems(3) cin, of n dt em] by blast
  obtain s' em' dt' where t: "handleConnection (\<lambda>i. st (Suc n + i)) (\<lambda>i. dt (Suc i)) ?c ?em s1 =
      handleConnection (\<lambda>i. st (Suc n + length rs + i)) dt'
        (?c\<lparr>cn_in := tail, cn_out := cn_out ?c @ responses rs (rq_effect r M)\<rparr>) em' s'"
    "rel s' (fold rq_effect rs (rq_effect r M))" "\<forall>i. em_Value em' i = em_Value ?em i + rq_count rs i"
    using Cons.IH [OF s1(2), of ?c "Suc n" "\<lambda>i. dt (Suc i)" ?em] Cons.prems(2,3) by auto
  have "em_Value em' i = em_Value em i + rq_count (r # rs) i" for i using t(3) by (simp add: rq_count_def)
  then show ?case using s1(1) t(1,2) by (intro exI [of _ s'] exI [of _ em'] exI [of _ dt']) simp
qed

lemma handleConnection_torn:
  assumes "torn t" and "conn_up c" and "cn_in c = t"
  shows "\<exists>err c' em'. handleConnection st' dt c em s = Some (err, c', em', s) \<and> cn_closed c' \<and> cn_out c' = cn_out c \<and>
    \<not> is_panic err \<and> (t = [] \<longrightarrow> err = EOF \<and> em' = em)"
proof -
  obtain r t' where r: "rq_fits (4 * 1024 * 1024) r" "rq_bytes r = t @ t'" "t' \<noteq> []" using assms(1) by (auto simp: torn_def)
  have up: "\<not> cn_closed c" using assms(2) by (simp add: conn_up_def)
  show ?thesis
  proof (cases "length t < 8")
    case True
    then have "\<exists>e. ReadFull 8 t = Inl e \<and> (e = EOF \<or> e = ErrUnexpectedEOF) \<and> (t = [] \<longrightarrow> e = EOF)" by (simp add: ReadFull_def)
    then obtain e where e: "ReadFull 8 t = Inl e" "e = EOF \<or> e = ErrUnexpectedEOF" "t = [] \<longrightarrow> e = EOF" by blast
    then have "\<exists>err. ParseHeader (cn_in c) HeaderSize = Inl err \<and> \<not> is_panic err \<and> (t = [] \<longrightarrow> err = EOF)"
      using assms(3) by (auto simp: ParseHeader_def HeaderSize_def)
    then show ?thesis using up by (subst handleConnection.simps) (auto simp: conn_Close_def)
  next
    case False
    define p where "p = drop 8 t"
    have hd8: "take 8 t = header_bytes (rq_op r) (word_of_nat (length (rq_key r))) (word_of_nat (length (rq_val r)))"
      using False arg_cong [OF r(2), of "take 8"] by (simp add: rq_bytes_def)
    then have t: "t = header_bytes (rq_op r) (word_of_nat (length (rq_key r))) (word_of_nat (length (rq_val r))) @ p"
      by (metis append_take_drop_id p_def)
    then have pay: "rq_key r @ rq_val r = p @ t'" using r(2) by (simp add: rq_bytes_def)
    then have short: "length p < length (rq_key r) + length (rq_val r)"
      using r(3) by (metis length_append less_add_same_cancel1 length_greater_0_conv)
    let ?c = "c\<lparr>cn_in := p\<rparr>"
    have len: "unat (rh_KeyLen (rq_header r)) = length (rq_key r)" "unat (rh_ValueLen (rq_header r)) = length (rq_val r)"
      using r(1) by (simp_all add: rq_fits_def rq_header_def)
    obtain e where e: "ReadFull (length (rq_key r) + length (rq_val r)) p = Inl e" using ReadFull_short [OF short] by blast
    have parse: "ParseHeader (cn_in c) HeaderSize = Inr (rq_header r, p)"
      using assms(3) by (simp add: t rq_header_def HeaderSize_def)
    have rd: "(if 0 < length (rq_key r) + length (rq_val r) then conn_ReadFull (length (rq_key r) + length (rq_val r)) ?c
        else (Inr [], ?c)) = (Inl e, ?c\<lparr>cn_in := []\<rparr>)" using short up e by (auto simp: conn_ReadFull_def)
    have le: "\<not> 4 * 1024 * 1024 < length (rq_key r) + length (rq_val r)" using r(1) by (simp add: rq_fits_def)
    have "HandleRequest ?c (rq_header r) (4 * 1024 * 1024) (st' 0) em s =
        Some ((Some (Wrapped ''failed to read payload from connection'' e), ?c\<lparr>cn_in := []\<rparr>, em_Inc TCPRequestsErrors em), s)"
      by (simp only: HandleRequest_def Let_def len rd le if_False prod.case sum.case)
    then show ?thesis using parse up False by (subst handleConnection.simps) (auto simp: conn_Close_def)
  qed
qed

lemma session_map:
  assumes "rel s M" and "\<forall>r \<in> set rs. rq_fits (4 * 1024 * 1024) r \<and> (rq_writes r \<longrightarrow> key_ok (rq_key r))"
    and "conn_up c" and "cn_in c = concat (map rq_bytes rs) @ t" and "torn t"
  shows "\<exists>err c' em' s'. handleConnection st dt c em s = Some (err, c', em', s') \<and> cn_closed c' \<and>
    cn_out c' = cn_out c @ responses rs M \<and> rel s' (fold rq_effect rs M) \<and> \<not> is_panic err \<and>
    (t = [] \<longrightarrow> err = EOF \<and> (\<forall>i. em_Value em' i = em_Value em i + rq_count rs i))"
proof -
  obtain s' em1 dt' where h: "handleConnection (\<lambda>i. st (0 + i)) dt c em s =
      handleConnection (\<lambda>i. st (0 + length rs + i)) dt' (c\<lparr>cn_in := t, cn_out := cn_out c @ responses rs M\<rparr>) em1 s'"
    "rel s' (fold rq_effect rs M)" "\<forall>i. em_Value em1 i = em_Value em i + rq_count rs i"
    using handleConnection_requests [OF assms(1-4), of 0 dt em] by blast
  obtain err c' em' where "handleConnection (\<lambda>i. st (0 + length rs + i)) dt' (c\<lparr>cn_in := t, cn_out := cn_out c @ responses rs M\<rparr>) em1 s' =
      Some (err, c', em', s')" "cn_closed c'" "cn_out c' = cn_out c @ responses rs M" "\<not> is_panic err" "t = [] \<longrightarrow> err = EOF \<and> em' = em1"
    using handleConnection_torn [OF assms(5), of "c\<lparr>cn_in := t, cn_out := cn_out c @ responses rs M\<rparr>"
        "\<lambda>i. st (0 + length rs + i)" dt' em1 s'] assms(3) by auto
  then show ?thesis using h by auto
qed

end

section \<open>Starting and stopping\<close>



definition unit_storage :: "unit Storage" where
  "unit_storage = \<lparr>st_Put = (\<lambda>k v s. Some (None, s)), st_Get = (\<lambda>k s. Some (Inr None, s)),
     st_Delete = (\<lambda>k s. Some (None, s)), st_Scan = (\<lambda>a b s. Some (Inr [], s))\<rparr>"

definition open_listener :: listener where
  "open_listener = \<lparr>ln_closed = False, ln_closeErr = None\<rparr>"



text \<open>C36. A \<open>Stop\<close> that comes before \<open>Start\<close> (a signal during start-up) uses up the stop flag: the server
  started afterwards listens, and no later \<open>Stop\<close> closes its listener, though it returns nil.\<close>

theorem stop_before_start_unstoppable:
  assumes "server_Stop s0 = (e0, s1)" and "sv_udpAddr s0 = []" and "listen (sv_tlsConfig s0) = Inr l"
  shows "\<exists>r s2. server_Start listen None udp accepts s1 = (r, Some l, s2) \<and> sv_listener s2 = Some l \<and>
    server_Stop s2 = (None, s2)"
proof -
  have "sv_stopped s1" "sv_udpAddr s1 = []" "listen (sv_tlsConfig s1) = Inr l"
    using assms by (auto simp: server_Stop_def Let_def split: if_splits)
  moreover obtain r conns where "accept_loop accepts [] = (r, conns)" by fastforce
  ultimately have "server_Start listen None udp accepts s1 = ((r, conns, False), Some l, s1\<lparr>sv_listener := Some l\<rparr>)"
    and "server_Stop (s1\<lparr>sv_listener := Some l\<rparr>) = (None, s1\<lparr>sv_listener := Some l\<rparr>)"
    by (simp_all add: server_Start_def server_Stop_def)
  then show ?thesis by (intro exI [of _ "(r, conns, False)"] exI [of _ "s1\<lparr>sv_listener := Some l\<rparr>"]) simp
qed

theorem stop_before_start_unstoppable_witness:
  "\<exists>r s2. server_Start (\<lambda>_. Inr open_listener) None (Inl EOF) []
      (snd (server_Stop (NewServer NewEngineMetrics ''h:1'' unit_storage [] :: (unit, unit) Server))) = (r, Some open_listener, s2) \<and>
    sv_listener s2 = Some open_listener \<and> server_Stop s2 = (None, s2)"
  using stop_before_start_unstoppable [OF prod.collapse [symmetric], of "NewServer NewEngineMetrics ''h:1'' unit_storage []" "\<lambda>_. Inr open_listener" open_listener]
  by (simp add: NewServer_def)

end
