(* ===== verification/Client.thy ===== *)
theory Client
  imports Server
begin

text \<open>
  \<open>pkg/client/client.go\<close>: the client. Between the last write of a request and the first read of its
  response the network and the peer act: \<open>xchg\<close>, a parameter, takes the connection with the bytes
  written and the peer's state to the connection with the bytes that came back. A deadline that
  expires shows as an error of a read or a write.
\<close>

section \<open>State\<close>

record udp_sock =
  us_sent :: "bytes list"
  us_err :: "go_error option"
  us_closed :: bool

record 'p Client =
  cl_tcpAddr :: string
  cl_udpAddr :: string
  cl_tlsConfig :: "tls_Config option"
  cl_timeout :: int
  cl_tcpConn :: "conn option"
  cl_udpConn :: "udp_sock option"
  cl_closed :: bool
  cl_peer :: 'p

datatype Option = CWithTLS "tls_Config option" | CWithUDP string | CWithTimeout int

fun apply_client_option :: "Option \<Rightarrow> 'p Client \<Rightarrow> 'p Client" where
  "apply_client_option (CWithTLS tlsConfig) c = c\<lparr>cl_tlsConfig := tlsConfig\<rparr>"
| "apply_client_option (CWithUDP udpAddr) c = c\<lparr>cl_udpAddr := udpAddr\<rparr>"
| "apply_client_option (CWithTimeout timeout) c = c\<lparr>cl_timeout := timeout\<rparr>"

text \<open>\<open>connectTCP\<close>, given the outcome of dialing (in the clear or with TLS).\<close>

definition connectTCP :: "conn result \<Rightarrow> 'p Client \<Rightarrow> go_error option \<times> 'p Client" where
  "connectTCP dialed c = (case dialed of Inl e \<Rightarrow> (Some e, c) | Inr cn \<Rightarrow> (None, c\<lparr>cl_tcpConn := Some cn\<rparr>))"

text \<open>\<open>New\<close>; \<open>dial\<close> is \<open>tls.DialWithDialer\<close> for a configuration and \<open>net.DialTimeout\<close> without one. A client that could not open its UDP
  socket is returned with the TCP connection it has closed.\<close>

definition client_New ::
  "(tls_Config option \<Rightarrow> conn result) \<Rightarrow> udp_sock result \<Rightarrow> string \<Rightarrow> Option list \<Rightarrow> 'p \<Rightarrow> (go_error \<times> conn option) + 'p Client" where
  "client_New dial udpDialed tcpAddr opts p =
     (let c = fold apply_client_option opts
            \<lparr>cl_tcpAddr = tcpAddr, cl_udpAddr = [], cl_tlsConfig = None, cl_timeout = 5 * 1000000000,
             cl_tcpConn = None, cl_udpConn = None, cl_closed = False, cl_peer = p\<rparr>
      in case connectTCP (dial (cl_tlsConfig c)) c of
           (Some e, c') \<Rightarrow> Inl (Wrapped ''failed to establish TCP connection'' e, None)
         | (None, c') \<Rightarrow>
             if cl_udpAddr c' \<noteq> [] then
               (case udpDialed of
                  Inl e \<Rightarrow> Inl (Wrapped ''failed to establish UDP connection'' e,
                               map_option (\<lambda>cn. snd (conn_Close cn)) (cl_tcpConn c'))
                | Inr u \<Rightarrow> Inr (c'\<lparr>cl_udpConn := Some u\<rparr>))
             else Inr c')"

section \<open>Requests\<close>

definition c_write :: "string \<Rightarrow> bytes \<Rightarrow> 'p Client \<Rightarrow> unit result \<times> 'p Client" where
  "c_write msg p c =
     (case cl_tcpConn c of
        None \<Rightarrow> (Inl (Panic NilDereference), c)
      | Some cn \<Rightarrow>
          (case conn_Write cn p of
             (Some e, cn') \<Rightarrow> (Inl (Wrapped msg e), c\<lparr>cl_tcpConn := Some cn'\<rparr>)
           | (None, cn') \<Rightarrow> (Inr (), c\<lparr>cl_tcpConn := Some cn'\<rparr>)))"

definition c_read :: "string \<Rightarrow> nat \<Rightarrow> 'p Client \<Rightarrow> bytes result \<times> 'p Client" where
  "c_read msg n c =
     (case cl_tcpConn c of
        None \<Rightarrow> (Inl (Panic NilDereference), c)
      | Some cn \<Rightarrow>
          (case conn_ReadFull n cn of
             (Inl e, cn') \<Rightarrow> (Inl (Wrapped msg e), c\<lparr>cl_tcpConn := Some cn'\<rparr>)
           | (Inr x, cn') \<Rightarrow> (Inr x, c\<lparr>cl_tcpConn := Some cn'\<rparr>)))"

definition c_xchg :: "(conn \<Rightarrow> 'p \<Rightarrow> conn \<times> 'p) \<Rightarrow> 'p Client \<Rightarrow> 'p Client" where
  "c_xchg xchg c =
     (case cl_tcpConn c of
        None \<Rightarrow> c
      | Some cn \<Rightarrow> let (cn', p') = xchg cn (cl_peer c) in c\<lparr>cl_tcpConn := Some cn', cl_peer := p'\<rparr>)"

text \<open>The two halves every request has: header, key and value are sent, then the 8-byte header of the
  response is read.\<close>

definition send_request :: "string \<Rightarrow> string \<Rightarrow> string \<Rightarrow> byte \<Rightarrow> bytes \<Rightarrow> bytes \<Rightarrow> 'p Client \<Rightarrow> unit result \<times> 'p Client" where
  "send_request name kname vname op key val c =
     bind_ok (c_write (''failed to write '' @ name)
       (header_bytes op (word_of_nat (length key)) (word_of_nat (length val))) c) (\<lambda>_ c.
     bind_ok (if 0 < length key then c_write (''failed to write '' @ kname) key c else (Inr (), c)) (\<lambda>_ c.
     if 0 < length val then c_write (''failed to write '' @ vname) val c else (Inr (), c)))"

definition client_Put :: "(conn \<Rightarrow> 'p \<Rightarrow> conn \<times> 'p) \<Rightarrow> 'p Client \<Rightarrow> bytes \<Rightarrow> bytes \<Rightarrow> unit result \<times> 'p Client" where
  "client_Put xchg c key val =
     (if cl_closed c then (Inl ErrConnectionClosed, c)
      else
        bind_ok (send_request ''put header'' ''put key'' ''put value'' OpPut key val c) (\<lambda>_ c.
        bind_ok (c_read ''failed to read put ack'' HeaderSize (c_xchg xchg c)) (\<lambda>ack c.
        if ack ! 0 \<noteq> MagicByte then (Inl ErrInvalidServerMagic, c) else (Inr (), c))))"

definition client_Get :: "(conn \<Rightarrow> 'p \<Rightarrow> conn \<times> 'p) \<Rightarrow> 'p Client \<Rightarrow> bytes \<Rightarrow> bytes option result \<times> 'p Client" where
  "client_Get xchg c key =
     (if cl_closed c then (Inl ErrConnectionClosed, c)
      else
        bind_ok (send_request ''get header'' ''get key'' '''' OpGet key [] c) (\<lambda>_ c.
        bind_ok (c_read ''failed to read get response header'' HeaderSize (c_xchg xchg c)) (\<lambda>resp c.
        if resp ! 0 \<noteq> MagicByte then (Inl ErrInvalidServerMagic, c)
        else
          let retKeyLen = Uint16 (slice 2 4 resp) in
          if retKeyLen = 0xFFFF then (Inr None, c)
          else
            let retValLen = Uint32 (slice 4 8 resp) in
            bind_ok (c_read ''failed to read get response key'' (unat retKeyLen) c) (\<lambda>_ c.
            bind_ok (c_read ''failed to read get response value'' (unat retValLen) c) (\<lambda>retVal c.
            (Inr (Some retVal), c))))))"

definition client_Delete :: "(conn \<Rightarrow> 'p \<Rightarrow> conn \<times> 'p) \<Rightarrow> 'p Client \<Rightarrow> bytes \<Rightarrow> unit result \<times> 'p Client" where
  "client_Delete xchg c key =
     (if cl_closed c then (Inl ErrConnectionClosed, c)
      else
        bind_ok (send_request ''delete header'' ''delete key'' '''' OpDelete key [] c) (\<lambda>_ c.
        bind_ok (c_read ''failed to read delete ack'' HeaderSize (c_xchg xchg c)) (\<lambda>ack c.
        if ack ! 0 \<noteq> MagicByte then (Inl ErrInvalidServerMagic, c) else (Inr (), c))))"

fun read_items :: "nat \<Rightarrow> (bytes \<times> bytes) list \<Rightarrow> 'p Client \<Rightarrow> (bytes \<times> bytes) list result \<times> 'p Client" where
  "read_items 0 results c = (Inr results, c)"
| "read_items (Suc n) results c =
     bind_ok (c_read ''failed to read scan item header'' 6 c) (\<lambda>itemHdr c.
     let klen = unat (Uint16 (slice 0 2 itemHdr)); vlen = unat (Uint32 (slice 2 6 itemHdr)) in
     bind_ok (c_read ''failed to read scan item key'' klen c) (\<lambda>itemKey c.
     bind_ok (if 0 < vlen then c_read ''failed to read scan item value'' vlen c else (Inr [], c)) (\<lambda>itemVal c.
     read_items n (results @ [(itemKey, itemVal)]) c)))"

definition client_Scan ::
  "(conn \<Rightarrow> 'p \<Rightarrow> conn \<times> 'p) \<Rightarrow> 'p Client \<Rightarrow> bytes \<Rightarrow> bytes \<Rightarrow> (bytes \<times> bytes) list result \<times> 'p Client" where
  "client_Scan xchg c startKey endKey =
     (if cl_closed c then (Inl ErrConnectionClosed, c)
      else
        bind_ok (send_request ''scan header'' ''scan startKey'' ''scan endKey'' OpScan startKey endKey c) (\<lambda>_ c.
        bind_ok (c_read ''failed to read scan response header'' HeaderSize (c_xchg xchg c)) (\<lambda>resp c.
        if resp ! 0 \<noteq> MagicByte \<or> resp ! 1 \<noteq> OpScan then (Inl ErrUnexpectedResponse, c)
        else read_items (unat (Uint16 (slice 2 4 resp))) [] c)))"

definition client_Echo :: "(conn \<Rightarrow> 'p \<Rightarrow> conn \<times> 'p) \<Rightarrow> 'p Client \<Rightarrow> bytes \<Rightarrow> bytes result \<times> 'p Client" where
  "client_Echo xchg c payload =
     (if cl_closed c then (Inl ErrConnectionClosed, c)
      else
        bind_ok (send_request ''echo header'' '''' ''echo payload'' OpEcho [] payload c) (\<lambda>_ c.
        bind_ok (c_read ''failed to read echo response header'' HeaderSize (c_xchg xchg c)) (\<lambda>resp c.
        c_read ''failed to read echo payload'' (unat (Uint32 (slice 4 8 resp))) c)))"

section \<open>Telemetry and closing\<close>

definition us_Write :: "bytes \<Rightarrow> udp_sock \<Rightarrow> go_error option \<times> udp_sock" where
  "us_Write p u =
     (if us_closed u then (Some ErrNetClosed, u)
      else case us_err u of Some e \<Rightarrow> (Some e, u) | None \<Rightarrow> (None, u\<lparr>us_sent := us_sent u @ [p]\<rparr>))"

definition us_Close :: "udp_sock \<Rightarrow> go_error option \<times> udp_sock" where
  "us_Close u = (if us_closed u then (Some ErrNetClosed, u) else (None, u\<lparr>us_closed := True\<rparr>))"

definition telemetry_packet :: "byte \<Rightarrow> bytes \<Rightarrow> bytes" where
  "telemetry_packet op payload = [MagicByte, op] @ PutUint16 (word_of_nat (length payload)) @ payload"

definition SendHeartbeat :: "'p Client \<Rightarrow> go_error option \<times> 'p Client" where
  "SendHeartbeat c =
     (case cl_udpConn c of
        None \<Rightarrow> (Some (Failure ''UDP channel not configured on this client''), c)
      | Some u \<Rightarrow> let (e, u') = us_Write (telemetry_packet OpHeartbeat []) u in (e, c\<lparr>cl_udpConn := Some u'\<rparr>))"


definition client_Close :: "'p Client \<Rightarrow> go_error option \<times> 'p Client" where
  "client_Close c =
     (if cl_closed c then (None, c)
      else
        let c1 = c\<lparr>cl_closed := True\<rparr>;
            (err1, tcp) = (case cl_tcpConn c1 of
               None \<Rightarrow> (None, None) | Some cn \<Rightarrow> let (e, cn') = conn_Close cn in (e, Some cn'));
            (err2, udp) = (case cl_udpConn c1 of
               None \<Rightarrow> (err1, None) | Some u \<Rightarrow> let (e, u') = us_Close u in (if e \<noteq> None \<and> err1 = None then e else err1, Some u'))
        in (err2, c1\<lparr>cl_tcpConn := tcp, cl_udpConn := udp\<rparr>))"

section \<open>Against the server\<close>

text \<open>The peer of these clients: the server's connection loop takes one request from what was sent.\<close>

definition serve_one :: "'s Storage \<Rightarrow> conn \<Rightarrow> EngineMetrics \<times> 's \<Rightarrow> conn \<times> (EngineMetrics \<times> 's)" where
  "serve_one S c p =
     (case ParseHeader (cn_out c) HeaderSize of
        Inl e \<Rightarrow> (c, p)
      | Inr (h, rest) \<Rightarrow>
          (case HandleRequest \<lparr>cn_in = rest, cn_out = [], cn_limit = None, cn_closed = False\<rparr> h (4 * 1024 * 1024) S (fst p) (snd p) of
             None \<Rightarrow> (c, p)
           | Some ((e, c', em'), s') \<Rightarrow> (c\<lparr>cn_out := cn_in c', cn_in := cn_in c @ cn_out c'\<rparr>, (em', s'))))"

text \<open>A client between requests.\<close>

definition client_idle :: "'p Client \<Rightarrow> conn \<Rightarrow> bool" where
  "client_idle c cn \<longleftrightarrow> \<not> cl_closed c \<and> cl_tcpConn c = Some cn \<and> conn_up cn \<and> cn_in cn = [] \<and> cn_out cn = []"

lemma send_request_up:
  assumes "cl_tcpConn c = Some cn" and "conn_up cn" and "cn_out cn = []"
  shows "send_request a b d op k v c =
    (Inr (), c\<lparr>cl_tcpConn := Some (cn\<lparr>cn_out := header_bytes op (word_of_nat (length k)) (word_of_nat (length v)) @ k @ v\<rparr>)\<rparr>)"
  using assms by (simp add: send_request_def c_write_def)

lemma c_read_up:
  assumes "cl_tcpConn c = Some cn" and "conn_up cn" and "cn_in cn = x @ y" and "n = length x"
  shows "c_read msg n c = (Inr x, c\<lparr>cl_tcpConn := Some (cn\<lparr>cn_in := y\<rparr>)\<rparr>)"
  using assms by (simp add: c_read_def conn_ReadFull_def conn_up_def)

lemma read_items_up:
  assumes "cl_tcpConn c = Some cn" and "conn_up cn" and "cn_in cn = concat (map item_bytes items) @ rest"
    and "\<forall>e \<in> set items. length (fst e) < 65536 \<and> length (snd e) < 4294967296" and "n \<le> length items"
  shows "read_items n res c = (Inr (res @ take n items),
    c\<lparr>cl_tcpConn := Some (cn\<lparr>cn_in := concat (map item_bytes (drop n items)) @ rest\<rparr>)\<rparr>)"
  using assms
proof (induction n arbitrary: items res c cn)
  case 0
  then have "cn\<lparr>cn_in := concat (map item_bytes items) @ rest\<rparr> = cn" by simp
  then show ?case using 0 by simp
next
  case (Suc n)
  obtain k v its where items: "items = (k, v) # its" using Suc.prems(5) by (cases items) auto
  have len: "length k < 65536" "length v < 4294967296" using Suc.prems(4) by (simp_all add: items)
  have hdr: "slice 0 2 (item_header k v) = PutUint16 (word_of_nat (length k))"
    "slice 2 6 (item_header k v) = PutUint32 (word_of_nat (length v))" "length (item_header k v) = 6"
    by (simp_all add: item_header_def slice_def)
  define tail where "tail = concat (map item_bytes its) @ rest"
  have cin: "cn_in cn = item_header k v @ k @ v @ tail"
    using Suc.prems(3) by (simp add: items item_bytes_def [of "(k, v)"] tail_def)
  let ?c = "\<lambda>x. c\<lparr>cl_tcpConn := Some (cn\<lparr>cn_in := x\<rparr>)\<rparr>"
  have r1: "c_read msg 6 c = (Inr (item_header k v), ?c (k @ v @ tail))" for msg
    by (rule c_read_up [OF Suc.prems(1,2) cin]) (simp add: hdr)
  have r2: "c_read msg (length k) (?c (k @ v @ tail)) = (Inr k, ?c (v @ tail))" for msg
    using c_read_up [of "?c (k @ v @ tail)" "cn\<lparr>cn_in := k @ v @ tail\<rparr>" k "v @ tail"] Suc.prems(2) by simp
  have r3: "(if 0 < length v then c_read msg (length v) (?c (v @ tail)) else (Inr [], ?c (v @ tail))) = (Inr v, ?c tail)" for msg
    using c_read_up [of "?c (v @ tail)" "cn\<lparr>cn_in := v @ tail\<rparr>" v tail] Suc.prems(2) by auto
  have "read_items (Suc n) res c = read_items n (res @ [(k, v)]) (?c tail)"
    by (simp only: read_items.simps r1 bind_ok_simps Let_def hdr Uint_PutUint_exact unat_len16 [OF len(1)] unat_len32 [OF len(2)] r2 r3)
  also have "\<dots> = (Inr ((res @ [(k, v)]) @ take n its),
      (?c tail)\<lparr>cl_tcpConn := Some ((cn\<lparr>cn_in := tail\<rparr>)\<lparr>cn_in := concat (map item_bytes (drop n its)) @ rest\<rparr>)\<rparr>)"
    by (rule Suc.IH) (use Suc.prems in \<open>simp_all add: items tail_def\<close>)
  finally show ?case by (simp add: items)
qed

definition served :: "(EngineMetrics \<times> 's) Client \<Rightarrow> conn \<Rightarrow> bytes \<Rightarrow> EngineMetrics \<Rightarrow> 's \<Rightarrow> (EngineMetrics \<times> 's) Client" where
  "served c cn x em s = c\<lparr>cl_tcpConn := Some (cn\<lparr>cn_in := x\<rparr>), cl_peer := (em, s)\<rparr>"

lemma served_idle:
  assumes "client_idle c cn"
  shows "client_idle (served c cn [] em s) cn" and "cl_peer (served c cn x em s) = (em, s)"
proof -
  have "cn\<lparr>cn_in := []\<rparr> = cn" using assms by (simp add: client_idle_def)
  then show "client_idle (served c cn [] em s) cn" using assms by (simp add: client_idle_def served_def)
  show "cl_peer (served c cn x em s) = (em, s)" by (simp add: served_def)
qed

lemma c_read_served:
  assumes "client_idle c cn" and "n = length x"
  shows "c_read msg n (served c cn (x @ y) em s) = (Inr x, served c cn y em s)"
  using c_read_up [of "served c cn (x @ y) em s" "cn\<lparr>cn_in := x @ y\<rparr>" x y n msg] assms
  by (simp add: served_def client_idle_def)

lemma c_read_served_all:
  assumes "client_idle c cn" and "n = length x"
  shows "c_read msg n (served c cn x em s) = (Inr x, served c cn [] em s)"
  using c_read_served [OF assms, of msg "[]"] by simp

text \<open>Sending a request to a server that answers it with \<open>resp\<close>.\<close>

definition server_end :: "request \<Rightarrow> conn" where
  "server_end r = \<lparr>cn_in = rq_key r @ rq_val r, cn_out = [], cn_limit = None, cn_closed = False\<rparr>"

lemma exchange_response:
  assumes idle: "client_idle c cn" and peer: "cl_peer c = (em, s)"
    and h: "HandleRequest (server_end r) (rq_header r) (4 * 1024 * 1024) S em s =
      Some ((e, (server_end r)\<lparr>cn_in := [], cn_out := resp\<rparr>, em'), s')"
  shows "\<exists>c1. (\<forall>a b d. send_request a b d (rq_op r) (rq_key r) (rq_val r) c = (Inr (), c1)) \<and>
    c_xchg (serve_one S) c1 = served c cn resp em' s'"
proof -
  have cn: "cl_tcpConn c = Some cn" "conn_up cn" "cn_out cn = []" "cn_in cn = []" using idle by (simp_all add: client_idle_def)
  have parse: "ParseHeader (rq_bytes r) HeaderSize = Inr (rq_header r, rq_key r @ rq_val r)"
    by (simp add: rq_bytes_def rq_header_def HeaderSize_def)
  have "cn\<lparr>cn_out := [], cn_in := x\<rparr> = cn\<lparr>cn_in := x\<rparr>" for x using cn(3) by simp
  then have "serve_one S (cn\<lparr>cn_out := rq_bytes r\<rparr>) (em, s) = (cn\<lparr>cn_in := resp\<rparr>, (em', s'))"
    using parse h cn(3,4) by (simp add: serve_one_def server_end_def)
  then have "c_xchg (serve_one S) (c\<lparr>cl_tcpConn := Some (cn\<lparr>cn_out := rq_bytes r\<rparr>)\<rparr>) = served c cn resp em' s'"
    using peer by (simp add: c_xchg_def served_def)
  then show ?thesis
    using send_request_up [OF cn(1-3)] by (auto simp: rq_bytes_def)
qed

context storage_map
begin

lemma exchange:
  assumes idle: "client_idle c cn" and peer: "cl_peer c = (em, s)" and rel: "rel s M"
    and fits: "rq_fits (4 * 1024 * 1024) r" and key: "rq_writes r \<longrightarrow> key_ok (rq_key r)"
  shows "\<exists>c1 em' s'. (\<forall>a b d. send_request a b d (rq_op r) (rq_key r) (rq_val r) c = (Inr (), c1)) \<and>
    c_xchg (serve_one S) c1 = served c cn (response r M) em' s' \<and> rel s' (rq_effect r M)"
proof -
  obtain s' where h: "HandleRequest (server_end r) (rq_header r) (4 * 1024 * 1024) S em s =
      Some ((None, (server_end r)\<lparr>cn_in := [], cn_out := response r M\<rparr>, em_Inc (rq_counter r) em), s')" "rel s' (rq_effect r M)"
    using HandleRequest_map [OF rel fits key, of "server_end r" "[]" em] by (auto simp: conn_up_def server_end_def)
  then show ?thesis using exchange_response [OF idle peer h(1)] by blast
qed

lemma client_Put_map:
  assumes idle: "client_idle c cn" and peer: "cl_peer c = (em, s)" and rel: "rel s M"
    and fits: "rq_fits (4 * 1024 * 1024) (RqPut k v)" and key: "key_ok k"
  shows "\<exists>em' s'. client_Put (serve_one S) c k v = (Inr (), served c cn [] em' s') \<and> rel s' (M(k := bind_value v))"
  using exchange [OF idle peer rel fits] key idle c_read_served_all [OF idle, of 8 "header_bytes 0 0 0"]
  by (auto simp: client_Put_def client_idle_def HeaderSize_def) blast

lemma client_Delete_map:
  assumes idle: "client_idle c cn" and peer: "cl_peer c = (em, s)" and rel: "rel s M"
    and fits: "rq_fits (4 * 1024 * 1024) (RqDelete k)" and key: "key_ok k"
  shows "\<exists>em' s'. client_Delete (serve_one S) c k = (Inr (), served c cn [] em' s') \<and> rel s' (M(k := None))"
  using exchange [OF idle peer rel fits] key idle c_read_served_all [OF idle, of 8 "header_bytes 0 0 0"]
  by (auto simp: client_Delete_def client_idle_def HeaderSize_def) blast

text \<open>\<open>Get\<close>: the answer of the map, except for keys of 65535 bytes, whose length is the \<open>not found\<close> mark.\<close>

lemma client_Get_map:
  assumes idle: "client_idle c cn" and peer: "cl_peer c = (em, s)" and rel: "rel s M"
    and fits: "rq_fits (4 * 1024 * 1024) (RqGet k)" and val: "\<And>v. M k = Some v \<Longrightarrow> length v < 4294967296"
  shows "\<exists>em' s'. client_Get (serve_one S) c k =
    (if length k = 65535 then (Inr None, served c cn (case M k of None \<Rightarrow> [] | Some v \<Rightarrow> k @ v) em' s')
     else (Inr (M k), served c cn [] em' s')) \<and> rel s' M"
proof -
  obtain c1 em' s' where x: "\<And>a b d. send_request a b d OpGet k [] c = (Inr (), c1)"
    "c_xchg (serve_one S) c1 = served c cn (response (RqGet k) M) em' s'" "rel s' M"
    using exchange [OF idle peer rel fits] by auto
  have open_c: "\<not> cl_closed c" using idle by (simp add: client_idle_def)
  have kl: "length k < 65536" using fits by (simp add: rq_fits_def)
  have sent: "(word_of_nat (length k) :: u16) = 0xFFFF \<longleftrightarrow> length k = 65535"
    using kl by (simp add: word_unat_eq_iff)
  show ?thesis
  proof (cases "M k")
    case None
    have r: "c_read msg 8 (served c cn (header_bytes 0 0xFFFF 0) em' s') = (Inr (header_bytes 0 0xFFFF 0), served c cn [] em' s')" for msg
      using c_read_served_all [OF idle, of 8 "header_bytes 0 0xFFFF 0"] by simp
    show ?thesis using x open_c None r by (auto simp: client_Get_def HeaderSize_def)
  next
    case (Some v)
    let ?h = "header_bytes OpGet (word_of_nat (length k)) (word_of_nat (length v))"
    have r1: "c_read msg 8 (served c cn (?h @ k @ v) em' s') = (Inr ?h, served c cn (k @ v) em' s')" for msg
      using c_read_served [OF idle, of 8 ?h msg "k @ v"] by simp
    have r2: "c_read msg (length k) (served c cn (k @ v) em' s') = (Inr k, served c cn v em' s')" for msg
      using c_read_served [OF idle, of "length k" k msg v] by simp
    have r3: "c_read msg (length v) (served c cn v em' s') = (Inr v, served c cn [] em' s')" for msg
      using c_read_served_all [OF idle, of "length v" v msg] by simp
    show ?thesis using x open_c Some r1 r2 r3 kl val [OF Some] by (auto simp: client_Get_def HeaderSize_def sent)
  qed
qed

text \<open>\<open>Scan\<close>: the items the map answers with, as far as the 16-bit item count goes.\<close>

lemma client_Scan_map:
  assumes idle: "client_idle c cn" and peer: "cl_peer c = (em, s)" and rel: "rel s M"
    and fits: "rq_fits (4 * 1024 * 1024) (RqScan a b)"
    and items: "\<forall>e \<in> set (spec_scan M a b). length (fst e) < 65536 \<and> length (snd e) < 4294967296"
  shows "\<exists>em' s'. client_Scan (serve_one S) c a b =
    (let n = length (spec_scan M a b) mod 65536 in
     (Inr (take n (spec_scan M a b)), served c cn (concat (map item_bytes (drop n (spec_scan M a b)))) em' s')) \<and> rel s' M"
proof -
  let ?is = "spec_scan M a b" and ?n = "length (spec_scan M a b) mod 65536"
  obtain c1 em' s' where x: "\<And>x y d. send_request x y d OpScan a b c = (Inr (), c1)"
    "c_xchg (serve_one S) c1 = served c cn (response (RqScan a b) M) em' s'" "rel s' M"
    using exchange [OF idle peer rel fits] by auto
  have open_c: "\<not> cl_closed c" using idle by (simp add: client_idle_def)
  let ?h = "header_bytes OpScan (word_of_nat (length ?is)) (total_bytes ?is)"
  have r1: "c_read msg 8 (served c cn (?h @ concat (map item_bytes ?is)) em' s') =
      (Inr ?h, served c cn (concat (map item_bytes ?is)) em' s')" for msg
    using c_read_served [OF idle, of 8 ?h msg] by simp
  have n: "unat (word_of_nat (length ?is) :: u16) = ?n" by (simp add: unat_of_nat)
  have r2: "read_items ?n [] (served c cn (concat (map item_bytes ?is)) em' s') =
      (Inr (take ?n ?is), served c cn (concat (map item_bytes (drop ?n ?is))) em' s')"
    using read_items_up [of "served c cn (concat (map item_bytes ?is)) em' s'" "cn\<lparr>cn_in := concat (map item_bytes ?is)\<rparr>" ?is "[]" ?n "[]"]
      idle items by (simp add: served_def client_idle_def)
  show ?thesis using x open_c r1 r2 n by (auto simp: client_Scan_def HeaderSize_def Let_def)
qed

lemma client_Echo_map:
  assumes idle: "client_idle c cn" and peer: "cl_peer c = (em, s)" and rel: "rel s M" and fits: "rq_fits (4 * 1024 * 1024) (RqEcho [] p)"
  shows "\<exists>em' s'. client_Echo (serve_one S) c p = (Inr p, served c cn [] em' s') \<and> rel s' M"
proof -
  obtain c1 em' s' where x: "\<And>a b d. send_request a b d OpEcho [] p c = (Inr (), c1)"
    "c_xchg (serve_one S) c1 = served c cn (response (RqEcho [] p) M) em' s'" "rel s' M"
    using exchange [OF idle peer rel fits] by auto
  have open_c: "\<not> cl_closed c" using idle by (simp add: client_idle_def)
  have pl: "length p < 4294967296" using fits by (simp add: rq_fits_def)
  let ?h = "header_bytes OpEcho 0 (word_of_nat (length p))"
  have r1: "c_read msg 8 (served c cn (?h @ p) em' s') = (Inr ?h, served c cn p em' s')" for msg
    using c_read_served [OF idle, of 8 ?h msg p] by simp
  have r2: "c_read msg (length p) (served c cn p em' s') = (Inr p, served c cn [] em' s')" for msg
    using c_read_served_all [OF idle, of "length p" p msg] by simp
  show ?thesis using x open_c r1 r2 pl by (auto simp: client_Echo_def HeaderSize_def rq_bytes_def)
qed

end

section \<open>Properties\<close>

text \<open>C34. \<open>Get\<close> of a key of 65535 bytes that the storage holds: the server answers with the value and the
  true key length, which is the client's mark for \<open>not found\<close>; the client reports the key as absent
  and leaves the key and value bytes unread, so that the next call on the connection reads them as its
  response.\<close>

theorem get_hides_longest_key:
  assumes "client_idle c cn" and "cl_peer c = (em, s)" and "st_Get S k s = Some (Inr (Some v), s')" and "length k = 65535"
  shows "client_Get (serve_one S) c k = (Inr None, served c cn (k @ v) (em_Inc TCPRequestsGetOk em) s')"
proof -
  let ?r = "RqGet k" and ?h = "header_bytes OpGet (0xFFFF) (word_of_nat (length v))"
  have fits: "rq_fits (4 * 1024 * 1024) ?r" and up: "conn_up (server_end ?r)" "cn_in (server_end ?r) = rq_key ?r @ rq_val ?r @ []"
    using assms(4) by (simp_all add: rq_fits_def server_end_def conn_up_def)
  have "HandleRequest (server_end ?r) (rq_header ?r) (4 * 1024 * 1024) S em s =
      Some ((None, (server_end ?r)\<lparr>cn_in := [], cn_out := ?h @ k @ v\<rparr>, em_Inc TCPRequestsGetOk em), s')"
    using HandleRequest_dispatch [OF fits up, of S em s] assms(3,4) up(1)
    by (simp add: opcodes handle_found_up rq_header_def) (simp add: server_end_def)
  from exchange_response [OF assms(1,2) this] obtain c1 where
    x: "\<And>a b d. send_request a b d OpGet k [] c = (Inr (), c1)"
      "c_xchg (serve_one S) c1 = served c cn (?h @ k @ v) (em_Inc TCPRequestsGetOk em) s'" by auto
  have "c_read msg 8 (served c cn (?h @ k @ v) e t) = (Inr ?h, served c cn (k @ v) e t)" for msg e t
    using c_read_served [OF assms(1), of 8 ?h msg "k @ v"] by simp
  then show ?thesis using x assms(1) by (simp add: client_Get_def HeaderSize_def client_idle_def)
qed

text \<open>C35. \<open>Scan\<close> with 65536 results or more: the server sends all items but a 16-bit count, so the client
  returns only the first \<open>n mod 65536\<close> of them, without an error, and leaves the others unread in the
  connection.\<close>

theorem scan_count_wraps:
  assumes "client_idle c cn" and "cl_peer c = (em, s)" and "st_Scan S a b s = Some (Inr items, s')"
    and "length a < 65536" and "length a + length b \<le> 4 * 1024 * 1024" and "65536 \<le> length items"
    and "\<forall>e \<in> set items. length (fst e) < 65536 \<and> length (snd e) < 4294967296"
  shows "\<exists>em' rest. client_Scan (serve_one S) c a b = (Inr (take (length items mod 65536) items), served c cn rest em' s') \<and>
    length (take (length items mod 65536) items) < length items \<and> rest \<noteq> []"
proof -
  let ?r = "RqScan a b" and ?n = "length items mod 65536"
  let ?h = "header_bytes OpScan (word_of_nat (length items)) (total_bytes items)" and ?b = "concat (map item_bytes items)"
  let ?rest = "concat (map item_bytes (drop ?n items))" and ?em = "em_Inc TCPRequestsScanOk em"
  have fits: "rq_fits (4 * 1024 * 1024) ?r" and up: "conn_up (server_end ?r)" "cn_in (server_end ?r) = rq_key ?r @ rq_val ?r @ []"
    using assms(4,5) by (simp_all add: rq_fits_def server_end_def conn_up_def)
  have "HandleRequest (server_end ?r) (rq_header ?r) (4 * 1024 * 1024) S em s =
      Some ((None, (server_end ?r)\<lparr>cn_in := [], cn_out := ?h @ ?b\<rparr>, ?em), s')"
    using HandleRequest_dispatch [OF fits up, of S em s] assms(3) up(1)
    by (simp add: opcodes handle_items_up) (simp add: server_end_def)
  from exchange_response [OF assms(1,2) this] obtain c1 where
    x: "\<And>x y d. send_request x y d OpScan a b c = (Inr (), c1)" "c_xchg (serve_one S) c1 = served c cn (?h @ ?b) ?em s'" by auto
  have r1: "c_read msg 8 (served c cn (?h @ ?b) ?em s') = (Inr ?h, served c cn ?b ?em s')" for msg
    using c_read_served [OF assms(1), of 8 ?h msg] by simp
  have r2: "read_items ?n [] (served c cn ?b ?em s') = (Inr (take ?n items), served c cn ?rest ?em s')"
    using read_items_up [of "served c cn ?b ?em s'" "cn\<lparr>cn_in := ?b\<rparr>" items "[]" ?n "[]"] assms(1,7)
    by (simp add: served_def client_idle_def)
  have n: "unat (word_of_nat (length items) :: u16) = ?n" by (simp add: unat_of_nat)
  have lt: "?n < length items" using assms(6) mod_less_divisor [of 65536 "length items"] by linarith
  then obtain e es where "drop ?n items = e # es" by (cases "drop ?n items") auto
  then have "?rest \<noteq> []" by (simp add: item_bytes_def item_header_def PutUint16_def)
  moreover have "client_Scan (serve_one S) c a b = (Inr (take ?n items), served c cn ?rest ?em s')"
    using x assms(1) r1 r2 n by (simp add: client_Scan_def HeaderSize_def client_idle_def)
  ultimately show ?thesis using lt by (intro exI [of _ ?em] exI [of _ ?rest]) simp
qed

definition idle_client :: "'p \<Rightarrow> 'p Client" where
  "idle_client p = \<lparr>cl_tcpAddr = ''h:1'', cl_udpAddr = [], cl_tlsConfig = None, cl_timeout = 0,
     cl_tcpConn = Some \<lparr>cn_in = [], cn_out = [], cn_limit = None, cn_closed = False\<rparr>, cl_udpConn = None,
     cl_closed = False, cl_peer = p\<rparr>"

lemma idle_client: "client_idle (idle_client p) \<lparr>cn_in = [], cn_out = [], cn_limit = None, cn_closed = False\<rparr>"
    "cl_peer (idle_client p) = p"
  by (simp_all add: idle_client_def client_idle_def conn_up_def)

text \<open>A storage that holds 65536 entries, the keys being the two-byte strings.\<close>

definition full_items :: "(bytes \<times> bytes) list" where
  "full_items = map (\<lambda>i. (PutUint16 (word_of_nat i), [1])) [0..<65536]"

definition full_storage :: "unit Storage" where
  "full_storage = \<lparr>st_Put = (\<lambda>k v s. Some (None, s)), st_Get = (\<lambda>k s. Some (Inr None, s)),
     st_Delete = (\<lambda>k s. Some (None, s)), st_Scan = (\<lambda>a b s. Some (Inr full_items, s))\<rparr>"

theorem scan_count_wraps_witness:
  "\<exists>em' rest. client_Scan (serve_one full_storage) (idle_client (NewEngineMetrics, ())) [] [] =
    (Inr [], served (idle_client (NewEngineMetrics, ())) \<lparr>cn_in = [], cn_out = [], cn_limit = None, cn_closed = False\<rparr> rest em' ()) \<and>
    rest \<noteq> []"
proof -
  have len: "length full_items = 65536" by (simp add: full_items_def del: upt_rec_numeral)
  have "\<forall>e \<in> set full_items. length (fst e) < 65536 \<and> length (snd e) < 4294967296"
    by (auto simp: full_items_def simp del: upt_rec_numeral)
  moreover have "st_Scan full_storage [] [] () = Some (Inr full_items, ())" by (simp add: full_storage_def)
  ultimately show ?thesis
    using scan_count_wraps [OF idle_client(1) idle_client(2), of full_storage "[]" "[]" "()" full_items "()" NewEngineMetrics] len
    by auto
qed

section \<open>Telemetry\<close>








end
