(* ===== verification/MemTable.thy ===== *)
theory MemTable
  imports Go_Std Store_Interface
begin

text \<open>
  \<open>internal/engine/memtable.go\<close>: the skip list. Nodes live in an explicit store (a list indexed
  by address; an allocation appends), forward pointers are addresses, \<open>Put\<close>, \<open>Get\<close> and
  \<open>Scan\<close> chase them level by level exactly as the source does. A loop over pointers may not
  end on a malformed list, so the traversals return \<open>None\<close> when they do not; the theorems show
  that on every table built by \<open>NewMemTable\<close> and \<open>Put\<close> they end.

  The random draws of \<open>randomLevel\<close> are an argument: \<open>rnd n\<close> is the outcome of the \<open>n\<close>-th
  test \<open>rand.Float32() < 0.25\<close> of the call. Every theorem holds for all of them.

  The invariant \<open>skip_inv\<close> names the nodes in list order and their linked heights; every level is
  the sublist of the nodes that reach it. Refinement: \<open>mt_rel m es\<close> says that \<open>m\<close> represents
  the sorted association list \<open>es\<close>; a tombstone is an entry with the empty value.
\<close>

section \<open>State\<close>

definition maxLevel :: nat where
  "maxLevel = 16"

type_synonym addr = nat

record node =
  nd_key :: bytes
  nd_val :: "bytes option"
  nd_nexts :: "addr option list"

record memtable =
  mt_nodes :: "node list"
  mt_head :: addr
  mt_size :: u64
  mt_frozen :: bool

definition new_node :: "bytes \<Rightarrow> bytes option \<Rightarrow> node" where
  "new_node k v = \<lparr>nd_key = k, nd_val = v, nd_nexts = replicate maxLevel None\<rparr>"

definition NewMemTable :: memtable where
  "NewMemTable = \<lparr>mt_nodes = [new_node [] None], mt_head = 0, mt_size = 0, mt_frozen = False\<rparr>"

text \<open>The atomic loads and stores on a node.\<close>

definition nxt :: "memtable \<Rightarrow> nat \<Rightarrow> addr \<Rightarrow> addr option" where
  "nxt m i a = nd_nexts (mt_nodes m ! a) ! i"

definition key_of :: "memtable \<Rightarrow> addr \<Rightarrow> bytes" where
  "key_of m a = nd_key (mt_nodes m ! a)"

definition val_of :: "memtable \<Rightarrow> addr \<Rightarrow> bytes option" where
  "val_of m a = nd_val (mt_nodes m ! a)"

definition set_next :: "memtable \<Rightarrow> addr \<Rightarrow> nat \<Rightarrow> addr option \<Rightarrow> memtable" where
  "set_next m a i p =
     m\<lparr>mt_nodes := (mt_nodes m)
        [a := (mt_nodes m ! a)\<lparr>nd_nexts := (nd_nexts (mt_nodes m ! a))[i := p]\<rparr>]\<rparr>"

definition set_val :: "memtable \<Rightarrow> addr \<Rightarrow> bytes \<Rightarrow> memtable" where
  "set_val m a v = m\<lparr>mt_nodes := (mt_nodes m)[a := (mt_nodes m ! a)\<lparr>nd_val := Some v\<rparr>]\<rparr>"

section \<open>Operations\<close>

function random_loop :: "(nat \<Rightarrow> bool) \<Rightarrow> nat \<Rightarrow> nat" where
  "random_loop rnd level =
     (if level < maxLevel \<and> rnd level then random_loop rnd (Suc level) else level)"
  by pat_completeness auto
termination
  by (relation "measure (\<lambda>(rnd, level). maxLevel - level)") auto

declare random_loop.simps [simp del]

definition randomLevel :: "(nat \<Rightarrow> bool) \<Rightarrow> nat" where
  "randomLevel rnd = random_loop rnd 1"

text \<open>The inner loop of the searches: move right on level \<open>i\<close> while the next key is smaller.\<close>

partial_function (option) walk :: "memtable \<Rightarrow> bytes \<Rightarrow> nat \<Rightarrow> addr \<Rightarrow> addr option" where
  "walk m key i cur =
     (case nxt m i cur of
        None \<Rightarrow> Some cur
      | Some n \<Rightarrow> if bytes_Compare (key_of m n) key < 0 then walk m key i n else Some cur)"

text \<open>The outer loop of \<open>Put\<close>, from the top level down; the predecessors found, level 0 first.\<close>

fun find_preds :: "memtable \<Rightarrow> bytes \<Rightarrow> nat \<Rightarrow> addr \<Rightarrow> addr list \<Rightarrow> addr list option" where
  "find_preds m key 0 cur preds = Some preds"
| "find_preds m key (Suc i) cur preds =
     (case walk m key i cur of
        None \<Rightarrow> None
      | Some c \<Rightarrow> find_preds m key i c (c # preds))"

text \<open>Allocating the node, wiring it (invisible to readers), and publishing it bottom-up.\<close>

definition alloc_node :: "memtable \<Rightarrow> bytes \<Rightarrow> bytes \<Rightarrow> memtable" where
  "alloc_node m key val =
     m\<lparr>mt_nodes := mt_nodes m @ [new_node key (Some val)],
       mt_size := mt_size m + word_of_nat (length key + length val)\<rparr>"

definition wire :: "memtable \<Rightarrow> addr list \<Rightarrow> addr \<Rightarrow> nat \<Rightarrow> memtable" where
  "wire m preds new level = foldl (\<lambda>m i. set_next m new i (nxt m i (preds ! i))) m [0..<level]"

definition publish :: "memtable \<Rightarrow> addr list \<Rightarrow> addr \<Rightarrow> nat \<Rightarrow> memtable" where
  "publish m preds new level = foldl (\<lambda>m i. set_next m (preds ! i) i (Some new)) m [0..<level]"

definition mt_insert :: "(nat \<Rightarrow> bool) \<Rightarrow> memtable \<Rightarrow> addr list \<Rightarrow> bytes \<Rightarrow> bytes \<Rightarrow> memtable" where
  "mt_insert rnd m preds key val =
     (let level = randomLevel rnd;
          new = length (mt_nodes m);
          m1 = alloc_node m key val;
          m2 = wire m1 preds new level
      in publish m2 preds new level)"

definition mt_Put ::
  "(nat \<Rightarrow> bool) \<Rightarrow> memtable \<Rightarrow> bytes \<Rightarrow> bytes \<Rightarrow> (go_error option \<times> memtable) option" where
  "mt_Put rnd m key val =
     (if mt_frozen m then Some (Some (Failure ''memtable is frozen''), m)
      else case find_preds m key maxLevel (mt_head m) [] of
        None \<Rightarrow> None
      | Some preds \<Rightarrow>
          (case nxt m 0 (preds ! 0) of
             Some n \<Rightarrow>
               if bytes_Equal (key_of m n) key then Some (None, set_val m n val)
               else Some (None, mt_insert rnd m preds key val)
           | None \<Rightarrow> Some (None, mt_insert rnd m preds key val)))"

text \<open>
  \<open>Get\<close>: \<open>Inr r\<close> is an early return with result \<open>r\<close>, \<open>Inl c\<close> drops to the next level
  with \<open>curr = c\<close>. The result \<open>Some v\<close> is \<open>(v, true)\<close>, \<open>None\<close> is \<open>(nil, false)\<close>.
\<close>

partial_function (option) get_walk ::
  "memtable \<Rightarrow> bytes \<Rightarrow> nat \<Rightarrow> addr \<Rightarrow> (addr + bytes option) option" where
  "get_walk m key i cur =
     (case nxt m i cur of
        None \<Rightarrow> Some (Inl cur)
      | Some n \<Rightarrow>
          (let cmp = bytes_Compare (key_of m n) key in
           if cmp < 0 then get_walk m key i n
           else if cmp = 0 then Some (Inr (val_of m n))
           else Some (Inl cur)))"

fun get_levels :: "memtable \<Rightarrow> bytes \<Rightarrow> nat \<Rightarrow> addr \<Rightarrow> bytes option option" where
  "get_levels m key 0 cur =
     (case nxt m 0 cur of
        None \<Rightarrow> Some None
      | Some n \<Rightarrow> if bytes_Equal (key_of m n) key then Some (val_of m n) else Some None)"
| "get_levels m key (Suc i) cur =
     (case get_walk m key i cur of
        None \<Rightarrow> None
      | Some (Inr r) \<Rightarrow> Some r
      | Some (Inl c) \<Rightarrow> get_levels m key i c)"

definition mt_Get :: "memtable \<Rightarrow> bytes \<Rightarrow> bytes option option" where
  "mt_Get m key = get_levels m key maxLevel (mt_head m)"

definition mt_Size :: "memtable \<Rightarrow> int" where
  "mt_Size m = sint (mt_size m)"

definition mt_Freeze :: "memtable \<Rightarrow> memtable" where
  "mt_Freeze m = m\<lparr>mt_frozen := True\<rparr>"

text \<open>\<open>Scan\<close>: descend to the last node before \<open>startKey\<close>, then follow level 0.\<close>

fun seek :: "memtable \<Rightarrow> bytes \<Rightarrow> nat \<Rightarrow> addr \<Rightarrow> addr option" where
  "seek m key 0 cur = Some cur"
| "seek m key (Suc i) cur =
     (case walk m key i cur of None \<Rightarrow> None | Some c \<Rightarrow> seek m key i c)"

partial_function (option) scan_loop ::
  "memtable \<Rightarrow> bytes \<Rightarrow> bytes \<Rightarrow> addr \<Rightarrow> (bytes \<times> bytes) list \<Rightarrow> (bytes \<times> bytes) list option" where
  "scan_loop m startKey endKey cur results =
     (case nxt m 0 cur of
        None \<Rightarrow> Some results
      | Some n \<Rightarrow>
          if 0 < length endKey \<and> 0 < bytes_Compare (key_of m n) endKey then Some results
          else scan_loop m startKey endKey n
            (if length startKey = 0 \<or> 0 \<le> bytes_Compare (key_of m n) startKey
             then (case val_of m n of None \<Rightarrow> results | Some v \<Rightarrow> results @ [(key_of m n, v)])
             else results))"

definition mt_Scan :: "memtable \<Rightarrow> bytes \<Rightarrow> bytes \<Rightarrow> (bytes \<times> bytes) list option" where
  "mt_Scan m startKey endKey =
     (case (if 0 < length startKey then seek m startKey maxLevel (mt_head m) else Some (mt_head m)) of
        None \<Rightarrow> None
      | Some cur \<Rightarrow> scan_loop m startKey endKey cur [])"

declare walk.simps [code] get_walk.simps [code] scan_loop.simps [code]

section \<open>Invariant and abstraction\<close>

text \<open>\<open>chain m i p as\<close>: following level \<open>i\<close> from the pointer \<open>p\<close> visits exactly \<open>as\<close>.\<close>

primrec chain :: "memtable \<Rightarrow> nat \<Rightarrow> addr option \<Rightarrow> addr list \<Rightarrow> bool" where
  "chain m i p [] \<longleftrightarrow> p = None"
| "chain m i p (a # as) \<longleftrightarrow> p = Some a \<and> chain m i (nxt m i a) as"

definition skip_inv :: "memtable \<Rightarrow> addr list \<Rightarrow> (addr \<Rightarrow> nat) \<Rightarrow> bool" where
  "skip_inv m xs ht \<longleftrightarrow>
     mt_head m < length (mt_nodes m) \<and> mt_head m \<notin> set xs \<and>
     (\<forall>a \<in> set xs. a < length (mt_nodes m) \<and> 0 < ht a \<and> ht a \<le> maxLevel \<and> val_of m a \<noteq> None) \<and>
     (\<forall>n \<in> set (mt_nodes m). length (nd_nexts n) = maxLevel) \<and>
     sorted_wrt (<) (map (key_of m) xs) \<and>
     (\<forall>i < maxLevel. chain m i (nxt m i (mt_head m)) (filter (\<lambda>a. i < ht a) xs))"

definition entry_of :: "memtable \<Rightarrow> addr \<Rightarrow> bytes \<times> bytes" where
  "entry_of m a = (key_of m a, the (val_of m a))"

definition mt_rel :: "memtable \<Rightarrow> (bytes \<times> bytes) list \<Rightarrow> bool" where
  "mt_rel m es \<longleftrightarrow> (\<exists>xs ht. skip_inv m xs ht \<and> es = map (entry_of m) xs)"

lemma random_loop_bounds: "level \<le> maxLevel \<Longrightarrow> level \<le> random_loop rnd level \<and> random_loop rnd level \<le> maxLevel"
proof (induction rnd level rule: random_loop.induct)
  case (1 rnd level)
  then show ?case by (subst (1 2) random_loop.simps) auto
qed

lemma randomLevel_bounds: "1 \<le> randomLevel rnd \<and> randomLevel rnd \<le> maxLevel"
  unfolding randomLevel_def by (rule random_loop_bounds) (simp add: maxLevel_def)

lemma mt_rel_New: "mt_rel NewMemTable []"
  unfolding mt_rel_def
  by (rule exI [of _ "[]"])
    (simp add: skip_inv_def NewMemTable_def new_node_def nxt_def maxLevel_def)

lemma mt_rel_sorted: "mt_rel m es \<Longrightarrow> ksorted es"
  by (auto simp: mt_rel_def skip_inv_def entry_of_def comp_def)

subsection \<open>Chains\<close>

lemma chain_unique: "chain m i p as \<Longrightarrow> chain m i p bs \<Longrightarrow> as = bs"
proof (induction as arbitrary: p bs)
  case Nil then show ?case by (cases bs) auto
next
  case (Cons a as) then show ?case by (cases bs) auto
qed

lemma chain_append:
  "chain m i p (as @ b # bs) \<Longrightarrow> chain m i (nxt m i b) bs"
  by (induction as arbitrary: p) auto

lemma chain_cong:
  "(\<And>a. a \<in> set as \<Longrightarrow> nxt m' i a = nxt m i a) \<Longrightarrow> chain m' i p as = chain m i p as"
  by (induction as arbitrary: p) auto

text \<open>From any node of level \<open>i\<close> (or the head) the rest of the level is the rest of the list.\<close>

lemma skip_inv_chain:
  assumes inv: "skip_inv m xs ht" and i: "i < maxLevel"
    and pos: "us @ c # vs = mt_head m # xs" and c: "c = mt_head m \<or> i < ht c"
  shows "chain m i (nxt m i c) (filter (\<lambda>a. i < ht a) vs)"
proof (cases us)
  case Nil
  then show ?thesis using inv i pos by (auto simp: skip_inv_def)
next
  case (Cons h us')
  then have xs: "xs = us' @ c # vs" and "c \<noteq> mt_head m"
    using pos inv by (auto simp: skip_inv_def)
  have "chain m i (nxt m i (mt_head m)) (filter (\<lambda>a. i < ht a) xs)"
    using inv i by (simp add: skip_inv_def)
  then have "chain m i (nxt m i (mt_head m)) (filter (\<lambda>a. i < ht a) us' @ c # filter (\<lambda>a. i < ht a) vs)"
    using c \<open>c \<noteq> mt_head m\<close> by (simp add: xs)
  then show ?thesis by (rule chain_append)
qed

subsection \<open>Searching\<close>

lemma walk_chain:
  assumes "chain m i (nxt m i c) (ys @ zs)"
    and "\<forall>y \<in> set ys. key_of m y < key" and "zs = [] \<or> \<not> key_of m (hd zs) < key"
  shows "walk m key i c = Some (last (c # ys))"
  using assms
proof (induction ys arbitrary: c)
  case Nil
  then show ?case by (cases zs) (auto simp: walk.simps go_cmp)
next
  case (Cons y ys)
  then have "walk m key i y = Some (last (y # ys))" by simp
  then show ?case using Cons.prems by (simp add: walk.simps [of _ _ _ c] go_cmp)
qed

text \<open>In a sorted list the smaller keys come first, also after filtering.\<close>

lemma sorted_split:
  assumes "sorted_wrt (<) (map f xs)"
  shows "filter P xs = filter (\<lambda>a. P a \<and> f a < (k :: 'k::linorder)) xs @ filter (\<lambda>a. P a \<and> k \<le> f a) xs"
  using assms
proof (induction xs)
  case (Cons x xs)
  show ?case
  proof (cases "f x < k")
    case False
    then have "filter (\<lambda>a. P a \<and> f a < k) xs = []"
      using Cons.prems by (auto simp: filter_empty_conv not_less)
    then show ?thesis using Cons False by auto
  qed (use Cons in auto)
qed simp

lemma sorted_suffix:
  assumes "skip_inv m xs ht" and "us @ c # vs = mt_head m # xs"
  shows "sorted_wrt (<) (map (key_of m) vs)" and "c = mt_head m \<or> (\<forall>a \<in> set vs. key_of m c < key_of m a)"
    and "set vs \<subseteq> set xs" and "c = mt_head m \<longleftrightarrow> us = []"
  using assms by (cases us; auto simp: skip_inv_def sorted_wrt_append)+

lemma walk_from:
  assumes inv: "skip_inv m xs ht" and i: "i < maxLevel"
    and pos: "us @ c # vs = mt_head m # xs" and c: "c = mt_head m \<or> i < ht c"
  shows "walk m key i c = Some (last (c # filter (\<lambda>a. i < ht a \<and> key_of m a < key) vs))"
proof (rule walk_chain)
  let ?zs = "filter (\<lambda>a. i < ht a \<and> key \<le> key_of m a) vs"
  have "filter (\<lambda>a. i < ht a) vs = filter (\<lambda>a. i < ht a \<and> key_of m a < key) vs @ ?zs"
    by (rule sorted_split [OF sorted_suffix(1) [OF inv pos]])
  then show "chain m i (nxt m i c) (filter (\<lambda>a. i < ht a \<and> key_of m a < key) vs @ ?zs)"
    using skip_inv_chain [OF inv i pos c] by simp
  show "?zs = [] \<or> \<not> key_of m (hd ?zs) < key"
  proof (cases "?zs = []")
    case False
    then have "hd ?zs \<in> set ?zs" by (rule hd_in_set)
    then show ?thesis by auto
  qed simp
qed auto

text \<open>
  The predecessor of \<open>key\<close> on level \<open>i\<close>: the last node of the level with a smaller key, or the
  head. One \<open>walk\<close> takes the predecessor of level \<open>i + 1\<close> to that of level \<open>i\<close>.
\<close>

definition pred_at :: "memtable \<Rightarrow> addr list \<Rightarrow> (addr \<Rightarrow> nat) \<Rightarrow> bytes \<Rightarrow> nat \<Rightarrow> addr" where
  "pred_at m xs ht key i = last (mt_head m # filter (\<lambda>a. i < ht a \<and> key_of m a < key) xs)"

lemma pred_at_split:
  assumes inv: "skip_inv m xs ht"
  obtains us vs where "us @ pred_at m xs ht key i # vs = mt_head m # xs"
    and "filter (\<lambda>a. i < ht a \<and> key_of m a < key) vs = []"
    and "pred_at m xs ht key i = mt_head m \<or>
         i < ht (pred_at m xs ht key i) \<and> key_of m (pred_at m xs ht key i) < key"
proof (cases "filter (\<lambda>a. i < ht a \<and> key_of m a < key) xs = []")
  case True
  then show ?thesis using that [of "[]" xs] by (simp add: pred_at_def)
next
  case False
  then have "\<exists>a \<in> set xs. i < ht a \<and> key_of m a < key" by (auto simp: filter_empty_conv)
  from split_list_last_prop [OF this] obtain us p vs where
    xs: "xs = us @ p # vs" and p: "i < ht p \<and> key_of m p < key"
    and vs: "\<forall>a \<in> set vs. \<not> (i < ht a \<and> key_of m a < key)" by blast
  then have "filter (\<lambda>a. i < ht a \<and> key_of m a < key) vs = []" by (auto simp: filter_empty_conv)
  moreover from this have "pred_at m xs ht key i = p" using xs p by (simp add: pred_at_def)
  ultimately show ?thesis using that [of "mt_head m # us" vs] xs p by simp
qed

lemma walk_pred:
  assumes inv: "skip_inv m xs ht" and i: "i < maxLevel"
  shows "walk m key i (pred_at m xs ht key (Suc i)) = Some (pred_at m xs ht key i)"
proof -
  let ?Q = "\<lambda>a. i < ht a \<and> key_of m a < key"
  obtain us vs where pos: "us @ pred_at m xs ht key (Suc i) # vs = mt_head m # xs"
    and p: "pred_at m xs ht key (Suc i) = mt_head m \<or>
      Suc i < ht (pred_at m xs ht key (Suc i)) \<and> key_of m (pred_at m xs ht key (Suc i)) < key"
    by (rule pred_at_split [OF inv])
  have "last (pred_at m xs ht key (Suc i) # filter ?Q vs) = pred_at m xs ht key i"
  proof (cases us)
    case Nil
    then show ?thesis using pos by (simp add: pred_at_def)
  next
    case (Cons h us')
    then have xs: "xs = us' @ pred_at m xs ht key (Suc i) # vs" using pos by simp
    then have "pred_at m xs ht key (Suc i) \<noteq> mt_head m" using inv by (metis skip_inv_def in_set_conv_decomp)
    then have "?Q (pred_at m xs ht key (Suc i))" using p by simp
    then show ?thesis unfolding pred_at_def [of _ _ _ _ i] by (subst xs) simp
  qed
  then show ?thesis using walk_from [OF inv i pos, of key] p by auto
qed

lemma pred_at_top: "skip_inv m xs ht \<Longrightarrow> pred_at m xs ht key maxLevel = mt_head m"
  by (simp add: pred_at_def skip_inv_def filter_empty_conv not_less)

lemma find_preds_eq:
  assumes inv: "skip_inv m xs ht" and n: "n \<le> maxLevel"
  shows "find_preds m key n (pred_at m xs ht key n) acc = Some (map (pred_at m xs ht key) [0..<n] @ acc)"
  using n by (induction n arbitrary: acc) (simp_all add: walk_pred [OF inv])

lemma find_preds_top:
  "skip_inv m xs ht \<Longrightarrow>
     find_preds m key maxLevel (mt_head m) [] = Some (map (pred_at m xs ht key) [0..<maxLevel])"
  using find_preds_eq [of m xs ht maxLevel key "[]"] by (simp add: pred_at_top)

lemma seek_eq:
  assumes inv: "skip_inv m xs ht" and n: "n \<le> maxLevel"
  shows "seek m key n (pred_at m xs ht key n) = Some (pred_at m xs ht key 0)"
  using n by (induction n) (simp_all add: walk_pred [OF inv])

lemma next_pred0:
  assumes inv: "skip_inv m xs ht"
  shows "chain m 0 (nxt m 0 (pred_at m xs ht key 0)) (filter (\<lambda>a. key \<le> key_of m a) xs)"
proof -
  obtain us vs where pos: "us @ pred_at m xs ht key 0 # vs = mt_head m # xs"
    and vs: "filter (\<lambda>a. 0 < ht a \<and> key_of m a < key) vs = []"
    and p: "pred_at m xs ht key 0 = mt_head m \<or>
      0 < ht (pred_at m xs ht key 0) \<and> key_of m (pred_at m xs ht key 0) < key"
    by (rule pred_at_split [OF inv])
  have ch: "chain m 0 (nxt m 0 (pred_at m xs ht key 0)) (filter (\<lambda>a. 0 < ht a) vs)"
    by (rule skip_inv_chain [OF inv _ pos]) (use p in \<open>auto simp: maxLevel_def\<close>)
  have ht: "\<forall>a \<in> set xs. 0 < ht a" using inv by (simp add: skip_inv_def)
  have sub: "set vs \<subseteq> set xs" by (rule sorted_suffix(3) [OF inv pos])
  have vsge: "\<forall>a \<in> set vs. key \<le> key_of m a"
  proof
    fix a assume a: "a \<in> set vs"
    then have "0 < ht a" using ht sub by blast
    then show "key \<le> key_of m a" using vs a by (auto simp: filter_empty_conv not_less)
  qed
  have "filter (\<lambda>a. key \<le> key_of m a) xs = vs"
  proof (cases us)
    case Nil
    then show ?thesis using pos vsge by simp
  next
    case (Cons h us')
    then have xs: "xs = us' @ pred_at m xs ht key 0 # vs" using pos by simp
    have "pred_at m xs ht key 0 \<noteq> mt_head m" using sorted_suffix(4) [OF inv pos] Cons by simp
    then have lt: "key_of m (pred_at m xs ht key 0) < key" using p by simp
    have "sorted_wrt (<) (map (key_of m) (us' @ pred_at m xs ht key 0 # vs))"
      using inv xs by (simp add: skip_inv_def)
    then have "\<forall>a \<in> set us'. key_of m a < key"
      using lt by (auto simp: sorted_wrt_append intro: order.strict_trans)
    then have "filter (\<lambda>a. key \<le> key_of m a) us' = []" by (auto simp: filter_empty_conv)
    then show ?thesis using lt vsge by (subst xs) simp
  qed
  moreover have "filter (\<lambda>a. 0 < ht a) vs = vs" using ht sub by (auto simp: filter_id_conv)
  ultimately show ?thesis using ch by simp
qed

subsection \<open>Lookup\<close>

lemma skip_inv_lookup:
  assumes "skip_inv m xs ht" and "a \<in> set xs"
  shows "map_of (map (entry_of m) xs) (key_of m a) = val_of m a"
proof -
  have "distinct (map fst (map (entry_of m) xs))"
    using assms(1) by (intro ksorted_distinct) (auto simp: skip_inv_def entry_of_def comp_def)
  moreover have "(key_of m a, the (val_of m a)) \<in> set (map (entry_of m) xs)"
    using assms(2) by (force simp: entry_of_def)
  moreover have "val_of m a \<noteq> None" using assms by (simp add: skip_inv_def)
  ultimately show ?thesis by (auto dest: map_of_is_SomeI)
qed

lemma skip_inv_lookup_None:
  "\<forall>a \<in> set xs. key_of m a \<noteq> key \<Longrightarrow> map_of (map (entry_of m) xs) key = None"
  by (auto simp: map_of_eq_None_iff entry_of_def)

text \<open>Where \<open>Put\<close> would stop on a level, \<open>Get\<close> looks whether the next node is the key.\<close>

lemma get_walk_walk:
  assumes "walk m key i c = Some d"
  shows "get_walk m key i c =
    Some (case nxt m i d of
            None \<Rightarrow> Inl d
          | Some n \<Rightarrow> if key_of m n = key then Inr (val_of m n) else Inl d)"
proof (rule walk.raw_induct [where P = "\<lambda>m key i c d. get_walk m key i c =
    Some (case nxt m i d of
            None \<Rightarrow> Inl d
          | Some n \<Rightarrow> if key_of m n = key then Inr (val_of m n) else Inl d)", OF _ assms])
  fix f m key i c d
  assume IH: "\<And>m key i c d. f m key i c = Some d \<Longrightarrow> get_walk m key i c =
      Some (case nxt m i d of
              None \<Rightarrow> Inl d
            | Some n \<Rightarrow> if key_of m n = key then Inr (val_of m n) else Inl d)"
    and eq: "(case nxt m i c of
        None \<Rightarrow> Some c
      | Some n \<Rightarrow> if bytes_Compare (key_of m n) key < 0 then f m key i n else Some c) = Some d"
  show "get_walk m key i c =
      Some (case nxt m i d of
              None \<Rightarrow> Inl d
            | Some n \<Rightarrow> if key_of m n = key then Inr (val_of m n) else Inl d)"
  proof (cases "nxt m i c")
    case None
    then show ?thesis using eq by (simp add: get_walk.simps)
  next
    case (Some n)
    show ?thesis
    proof (cases "key_of m n < key")
      case True
      then show ?thesis using eq Some IH [of m key i n d] by (simp add: get_walk.simps [of m key i c] go_cmp)
    next
      case False
      then show ?thesis using eq Some by (simp add: get_walk.simps go_cmp)
    qed
  qed
qed

text \<open>The node after a predecessor is a node of the table.\<close>

lemma next_pred_in:
  assumes inv: "skip_inv m xs ht" and i: "i < maxLevel" and n: "nxt m i (pred_at m xs ht key i) = Some n"
  shows "n \<in> set xs"
proof -
  obtain us vs where pos: "us @ pred_at m xs ht key i # vs = mt_head m # xs"
    and "filter (\<lambda>a. i < ht a \<and> key_of m a < key) vs = []"
    and p: "pred_at m xs ht key i = mt_head m \<or>
      i < ht (pred_at m xs ht key i) \<and> key_of m (pred_at m xs ht key i) < key"
    by (rule pred_at_split [OF inv])
  have "chain m i (nxt m i (pred_at m xs ht key i)) (filter (\<lambda>a. i < ht a) vs)"
    by (rule skip_inv_chain [OF inv i pos]) (use p in auto)
  then have "n \<in> set vs" using n by (cases "filter (\<lambda>a. i < ht a) vs") (auto dest: filter_eq_ConsD)
  then show ?thesis using sorted_suffix(3) [OF inv pos] by blast
qed

lemma get_levels_eq:
  assumes inv: "skip_inv m xs ht" and n: "n \<le> maxLevel"
  shows "get_levels m key n (pred_at m xs ht key n) = Some (map_of (map (entry_of m) xs) key)"
  using n
proof (induction n)
  case 0
  have ch: "chain m 0 (nxt m 0 (pred_at m xs ht key 0)) (filter (\<lambda>a. key \<le> key_of m a) xs)"
    by (rule next_pred0 [OF inv])
  show ?case
  proof (cases "nxt m 0 (pred_at m xs ht key 0)")
    case None
    then have "filter (\<lambda>a. key \<le> key_of m a) xs = []"
      using ch by (cases "filter (\<lambda>a. key \<le> key_of m a) xs") auto
    then have "\<forall>a \<in> set xs. key_of m a \<noteq> key" by (auto simp: filter_empty_conv)
    then show ?thesis using None by (simp add: skip_inv_lookup_None)
  next
    case (Some a)
    then obtain as where as: "filter (\<lambda>a. key \<le> key_of m a) xs = a # as"
      using ch by (cases "filter (\<lambda>a. key \<le> key_of m a) xs") auto
    then have a: "a \<in> set xs" by (auto dest!: filter_eq_ConsD)
    have srt: "sorted_wrt (<) (map (key_of m) (a # as))"
      using inv sorted_wrt_filter unfolding as [symmetric] skip_inv_def
      by (metis (no_types, lifting) sorted_wrt_map)
    have "\<forall>b \<in> set xs. key_of m b \<noteq> key" if "key_of m a \<noteq> key"
    proof
      fix b assume b: "b \<in> set xs"
      show "key_of m b \<noteq> key"
      proof
        assume "key_of m b = key"
        then have "b \<in> set (a # as)" using b unfolding as [symmetric] by simp
        moreover have "key \<le> key_of m a" using as by (auto dest!: filter_eq_ConsD)
        ultimately show False using srt that \<open>key_of m b = key\<close> by auto
      qed
    qed
    then show ?thesis
      using Some skip_inv_lookup [OF inv a] by (auto simp: go_cmp skip_inv_lookup_None)
  qed
next
  case (Suc n)
  then have n: "n < maxLevel" by simp
  have gw: "get_walk m key n (pred_at m xs ht key (Suc n)) =
    Some (case nxt m n (pred_at m xs ht key n) of
            None \<Rightarrow> Inl (pred_at m xs ht key n)
          | Some a \<Rightarrow> if key_of m a = key then Inr (val_of m a) else Inl (pred_at m xs ht key n))"
    by (rule get_walk_walk [OF walk_pred [OF inv n]])
  show ?case
    using Suc n skip_inv_lookup [OF inv next_pred_in [OF inv n]]
    by (auto simp: gw split: option.splits)
qed

lemma mt_Get_rel: "mt_rel m es \<Longrightarrow> mt_Get m key = Some (map_of es key)"
  using get_levels_eq [of m _ _ maxLevel key] by (auto simp: mt_rel_def mt_Get_def pred_at_top)

subsection \<open>Range scan\<close>

lemma scan_loop_eq:
  assumes "chain m 0 (nxt m 0 c) ys" and "sorted_wrt (<) (map (key_of m) ys)"
    and "\<forall>a \<in> set ys. val_of m a \<noteq> None"
  shows "scan_loop m s e c acc =
    Some (acc @ filter (\<lambda>(k, v). in_range s e k) (map (entry_of m) ys))"
  using assms
proof (induction ys arbitrary: c acc)
  case Nil
  then show ?case by (simp add: scan_loop.simps)
next
  case (Cons y ys)
  then have nx: "nxt m 0 c = Some y" by simp
  obtain v where v: "val_of m y = Some v" using Cons.prems by auto
  show ?case
  proof (cases "e \<noteq> [] \<and> e < key_of m y")
    case True
    have gt: "\<forall>a \<in> set (y # ys). \<not> key_of m a \<le> e"
      using True Cons.prems(2) by (auto simp: not_le intro: order.strict_trans)
    then have "filter (\<lambda>(k, v). in_range s e k) (map (entry_of m) (y # ys)) = []"
      using True by (simp add: filter_empty_conv in_range_def entry_of_def)
    then show ?thesis using True nx by (simp add: scan_loop.simps [of m s e c] go_cmp)
  next
    case False
    have le: "in_range s e (key_of m y) \<longleftrightarrow> s = [] \<or> s \<le> key_of m y"
      using False by (auto simp: in_range_def)
    have IH: "scan_loop m s e y acc' =
        Some (acc' @ filter (\<lambda>(k, v). in_range s e k) (map (entry_of m) ys))" for acc'
      using Cons by simp
    have ent: "entry_of m y = (key_of m y, v)" using v by (simp add: entry_of_def)
    show ?thesis
      using False nx v le
      by (auto simp: scan_loop.simps [of m s e c] go_cmp IH ent)
  qed
qed

lemma mt_Scan_rel:
  assumes "mt_rel m es"
  shows "mt_Scan m s e = Some (filter (\<lambda>(k, v). in_range s e k) es)"
proof -
  obtain xs ht where inv: "skip_inv m xs ht" and es: "es = map (entry_of m) xs"
    using assms by (auto simp: mt_rel_def)
  have srt: "sorted_wrt (<) (map (key_of m) xs)" and vals: "\<forall>a \<in> set xs. val_of m a \<noteq> None"
    using inv by (simp_all add: skip_inv_def)
  show ?thesis
  proof (cases "s = []")
    case True
    have "chain m 0 (nxt m 0 (mt_head m)) (filter (\<lambda>a. 0 < ht a) xs)"
      using inv unfolding skip_inv_def by (metis maxLevel_def zero_less_numeral)
    moreover have "filter (\<lambda>a. 0 < ht a) xs = xs" using inv by (simp add: skip_inv_def)
    ultimately show ?thesis
      using scan_loop_eq [of m "mt_head m" xs s e "[]"] srt vals True by (simp add: mt_Scan_def es)
  next
    case False
    let ?ys = "filter (\<lambda>a. s \<le> key_of m a) xs"
    have "sorted_wrt (<) (map (key_of m) ?ys)"
      using srt by (simp add: sorted_wrt_map sorted_wrt_filter)
    then have "scan_loop m s e (pred_at m xs ht s 0) [] =
        Some ([] @ filter (\<lambda>(k, v). in_range s e k) (map (entry_of m) ?ys))"
      using next_pred0 [OF inv] vals by (intro scan_loop_eq) auto
    moreover have "filter (\<lambda>(k, v). in_range s e k) (map (entry_of m) ?ys) =
        filter (\<lambda>(k, v). in_range s e k) es"
      using False by (auto simp: es filter_map comp_def entry_of_def in_range_def intro: filter_cong)
    moreover have "seek m s maxLevel (mt_head m) = Some (pred_at m xs ht s 0)"
      using seek_eq [OF inv, of maxLevel s] by (simp add: pred_at_top [OF inv])
    ultimately show ?thesis using False by (simp add: mt_Scan_def)
  qed
qed

subsection \<open>Insertion\<close>

lemma set_next_simps [simp]:
  "mt_head (set_next m a i p) = mt_head m" "mt_frozen (set_next m a i p) = mt_frozen m"
  "mt_size (set_next m a i p) = mt_size m"
  "length (mt_nodes (set_next m a i p)) = length (mt_nodes m)"
  "key_of (set_next m a i p) b = key_of m b" "val_of (set_next m a i p) b = val_of m b"
  by (cases "a < length (mt_nodes m)";
      cases "a = b"; simp add: set_next_def key_of_def val_of_def list_update_beyond)+

lemma set_next_fun [simp]:
  "key_of (set_next m a i p) = key_of m" "val_of (set_next m a i p) = val_of m"
  "entry_of (set_next m a i p) = entry_of m"
  by (simp_all add: fun_eq_iff entry_of_def)

definition arrays_ok :: "memtable \<Rightarrow> bool" where
  "arrays_ok m \<longleftrightarrow> (\<forall>n \<in> set (mt_nodes m). length (nd_nexts n) = maxLevel)"

lemma arrays_ok_nth:
  "arrays_ok m \<longleftrightarrow> (\<forall>a < length (mt_nodes m). length (nd_nexts (mt_nodes m ! a)) = maxLevel)"
  by (simp add: arrays_ok_def all_set_conv_all_nth)

lemma skip_inv_arrays: "skip_inv m xs ht \<Longrightarrow> arrays_ok m"
  by (simp add: skip_inv_def arrays_ok_def)

lemma arrays_ok_set_next [simp]: "arrays_ok m \<Longrightarrow> arrays_ok (set_next m a i p)"
  unfolding arrays_ok_nth set_next_def
  by (cases "a < length (mt_nodes m)") (auto simp: nth_list_update list_update_beyond)

lemma nxt_set_next:
  assumes "arrays_ok m" and "a < length (mt_nodes m)" and "i < maxLevel"
  shows "nxt (set_next m a i p) j b = (if a = b \<and> i = j then p else nxt m j b)"
  using assms by (auto simp: nxt_def set_next_def arrays_ok_def nth_list_update)

lemma wire_Suc:
  "wire m preds new (Suc n) =
     (let m' = wire m preds new n in set_next m' new n (nxt m' n (preds ! n)))"
  by (simp add: wire_def Let_def)

lemma publish_Suc:
  "publish m preds new (Suc n) = set_next (publish m preds new n) (preds ! n) n (Some new)"
  by (simp add: publish_def)

lemma wire_0 [simp]: "wire m preds new 0 = m"
  by (simp add: wire_def)

lemma publish_0 [simp]: "publish m preds new 0 = m"
  by (simp add: publish_def)

lemma wire_frame [simp]:
  "mt_head (wire m preds new n) = mt_head m" "mt_frozen (wire m preds new n) = mt_frozen m"
  "mt_size (wire m preds new n) = mt_size m"
  "length (mt_nodes (wire m preds new n)) = length (mt_nodes m)"
  "key_of (wire m preds new n) b = key_of m b" "val_of (wire m preds new n) b = val_of m b"
  "arrays_ok m \<Longrightarrow> arrays_ok (wire m preds new n)"
  by (induction n) (simp_all add: wire_Suc Let_def)

lemma publish_frame [simp]:
  "mt_head (publish m preds new n) = mt_head m" "mt_frozen (publish m preds new n) = mt_frozen m"
  "mt_size (publish m preds new n) = mt_size m"
  "length (mt_nodes (publish m preds new n)) = length (mt_nodes m)"
  "key_of (publish m preds new n) b = key_of m b" "val_of (publish m preds new n) b = val_of m b"
  "arrays_ok m \<Longrightarrow> arrays_ok (publish m preds new n)"
  by (induction n) (simp_all add: publish_Suc)

lemma nxt_wire:
  assumes "arrays_ok m" and "new < length (mt_nodes m)" and "n \<le> maxLevel"
    and "\<forall>i < n. preds ! i \<noteq> new"
  shows "nxt (wire m preds new n) j b =
    (if b = new \<and> j < n then nxt m j (preds ! j) else nxt m j b)"
  using assms(3,4)
proof (induction n arbitrary: j b)
  case (Suc n)
  let ?w = "wire m preds new n"
  have IH: "nxt ?w j b = (if b = new \<and> j < n then nxt m j (preds ! j) else nxt m j b)" for j b
    using Suc by simp
  have "nxt (wire m preds new (Suc n)) j b =
      (if new = b \<and> n = j then nxt ?w n (preds ! n) else nxt ?w j b)"
    using assms(1,2) Suc.prems by (simp add: wire_Suc Let_def nxt_set_next)
  moreover have "nxt ?w n (preds ! n) = nxt m n (preds ! n)"
    using Suc.prems by (simp add: IH)
  ultimately have "nxt (wire m preds new (Suc n)) j b =
      (if new = b \<and> n = j then nxt m n (preds ! n)
       else if b = new \<and> j < n then nxt m j (preds ! j) else nxt m j b)"
    by (simp only: IH)
  then show ?case by (auto simp: less_Suc_eq)
qed simp

lemma nxt_publish_above:
  assumes "arrays_ok m" and "n \<le> maxLevel" and "\<forall>i < n. preds ! i < length (mt_nodes m)" and "n \<le> j"
  shows "nxt (publish m preds new n) j b = nxt m j b"
  using assms(2-4) by (induction n) (simp_all add: publish_Suc nxt_set_next assms(1))

text \<open>Splicing one address into one level.\<close>

lemma chain_insert:
  assumes "chain m i (nxt m i h) (us @ vs)" and "distinct (h # us)" and "new \<notin> set (h # us @ vs)"
    and "set (h # us) \<inter> set vs = {}"
    and "nxt m i new = nxt m i (last (h # us))"
    and upd: "\<And>b. nxt m' i b = (if b = last (h # us) then Some new else nxt m i b)"
  shows "chain m' i (nxt m' i h) (us @ new # vs)"
  using assms(1-5) upd
proof (induction us arbitrary: h)
  case Nil
  have "chain m' i p vs = chain m i p vs" for p
    by (rule chain_cong) (use Nil in auto)
  then show ?case using Nil by simp
next
  case (Cons u us)
  have "h \<noteq> last (u # us)" using Cons.prems(2) last_in_set [of "u # us"] by auto
  then have h: "nxt m' i h = Some u" using Cons.prems(1,6) by simp
  have "chain m' i (nxt m' i u) (us @ new # vs)"
    by (rule Cons.IH) (use Cons.prems in auto)
  then show ?case using h by simp
qed

text \<open>
  Publishing one more level of a new node keeps the invariant: after \<open>j\<close> stores the node has
  height \<open>j\<close>. This is what a lock-free reader relies on between two stores of \<open>Put\<close>.
\<close>

lemma link_level:
  assumes inv: "skip_inv m (if j = 0 then A @ B else A @ new # B) ht" and htn: "ht new = j"
    and j: "j < maxLevel" and A: "\<forall>a \<in> set A. key_of m a < key_of m new"
    and B: "\<forall>b \<in> set B. key_of m new < key_of m b"
    and fresh: "new \<notin> set A" "new \<notin> set B" "new \<noteq> mt_head m"
    and new: "new < length (mt_nodes m)" "val_of m new \<noteq> None"
    and p: "p = last (mt_head m # filter (\<lambda>a. j < ht a) A)"
    and wired: "nxt m j new = nxt m j p"
  shows "skip_inv (set_next m p j (Some new)) (A @ new # B) (ht(new := Suc j))"
proof -
  let ?m = "set_next m p j (Some new)" and ?ht = "ht(new := Suc j)"
  let ?L = "if j = 0 then A @ B else A @ new # B"
  have arr: "arrays_ok m" by (rule skip_inv_arrays [OF inv])
  have head: "mt_head m < length (mt_nodes m)" "mt_head m \<notin> set A" "mt_head m \<notin> set B"
    using inv by (auto simp: skip_inv_def split: if_splits)
  have nodes: "\<forall>a \<in> set A \<union> set B. a < length (mt_nodes m) \<and> 0 < ht a \<and> ht a \<le> maxLevel \<and> val_of m a \<noteq> None"
    using inv by (auto simp: skip_inv_def split: if_splits)
  have srt: "sorted_wrt (<) (map (key_of m) A)" "sorted_wrt (<) (map (key_of m) B)"
    using inv by (auto simp: skip_inv_def sorted_wrt_append split: if_splits)
  have "p \<in> set (mt_head m # filter (\<lambda>a. j < ht a) A)" unfolding p by (rule last_in_set) simp
  then have plen: "p < length (mt_nodes m)" using head nodes by auto
  have nx: "nxt ?m i b = (if b = p \<and> i = j then Some new else nxt m i b)" for i b
    using arr plen j by (auto simp: nxt_set_next)
  have old: "chain m i (nxt m i (mt_head m)) (filter (\<lambda>a. i < ht a) ?L)" if "i < maxLevel" for i
    using inv that by (simp add: skip_inv_def)
  have same: "filter (\<lambda>a. i < ?ht a) A = filter (\<lambda>a. i < ht a) A"
    "filter (\<lambda>a. i < ?ht a) B = filter (\<lambda>a. i < ht a) B" for i
    using fresh by (auto intro!: filter_cong)
  have chains: "chain ?m i (nxt ?m i (mt_head m)) (filter (\<lambda>a. i < ?ht a) (A @ new # B))"
    if i: "i < maxLevel" for i
  proof (cases "i = j")
    case False
    have "filter (\<lambda>a. i < ?ht a) (A @ new # B) = filter (\<lambda>a. i < ht a) ?L"
      unfolding filter_append filter.simps same using False htn by auto
    moreover have "chain ?m i q as = chain m i q as" for q as
      by (rule chain_cong) (use False in \<open>simp add: nx\<close>)
    ultimately show ?thesis using old [OF i] False by (simp add: nx)
  next
    case True
    let ?us = "filter (\<lambda>a. j < ht a) A" and ?vs = "filter (\<lambda>a. j < ht a) B"
    have before: "chain m j (nxt m j (mt_head m)) (?us @ ?vs)"
      using old [OF j] htn by (simp split: if_splits)
    have dist: "distinct A" using srt(1) by (metis distinct_map strict_sorted_iff)
    have "chain ?m j (nxt ?m j (mt_head m)) (?us @ new # ?vs)"
    proof (rule chain_insert [OF before])
      show "distinct (mt_head m # ?us)" using head dist by simp
      show "new \<notin> set (mt_head m # ?us @ ?vs)" using fresh by auto
      show "set (mt_head m # ?us) \<inter> set ?vs = {}" using head A B by (auto dest: order.asym)
      show "nxt m j new = nxt m j (last (mt_head m # ?us))" using wired p by simp
      show "nxt ?m j b = (if b = last (mt_head m # ?us) then Some new else nxt m j b)" for b
        unfolding p [symmetric] nx by simp
    qed
    moreover have "filter (\<lambda>a. j < ?ht a) (A @ new # B) = ?us @ new # ?vs"
      unfolding filter_append filter.simps same by simp
    ultimately show ?thesis using True by simp
  qed
  have sorted: "sorted_wrt (<) (map (key_of m) (A @ new # B))"
    using srt A B by (auto simp: sorted_wrt_append intro: order.strict_trans)
  show ?thesis
    unfolding skip_inv_def
    using head nodes fresh new j sorted chains arrays_ok_set_next [OF arr, of p j "Some new"]
    by (auto simp: arrays_ok_def)
qed

text \<open>Frame: a table whose nodes and head agree with \<open>m\<close> where \<open>m\<close> has them.\<close>

lemma skip_inv_frame:
  assumes inv: "skip_inv m xs ht" and arr: "arrays_ok m'"
    and head: "mt_head m' = mt_head m" and len: "length (mt_nodes m) \<le> length (mt_nodes m')"
    and same: "\<And>a i. a < length (mt_nodes m) \<Longrightarrow> nxt m' i a = nxt m i a"
    and keys: "\<And>a. a < length (mt_nodes m) \<Longrightarrow> key_of m' a = key_of m a"
    and vals: "\<And>a. a \<in> set xs \<Longrightarrow> val_of m' a \<noteq> None"
    and hts: "\<And>a. a \<in> set xs \<Longrightarrow> ht' a = ht a"
  shows "skip_inv m' xs ht'"
proof -
  have nodes: "\<forall>a \<in> set xs. a < length (mt_nodes m)" and h: "mt_head m < length (mt_nodes m)"
    using inv by (simp_all add: skip_inv_def)
  have fil: "filter (\<lambda>a. i < ht' a) xs = filter (\<lambda>a. i < ht a) xs" for i
    by (rule filter_cong) (simp_all add: hts)
  have "chain m' i (nxt m' i (mt_head m)) (filter (\<lambda>a. i < ht' a) xs)" if "i < maxLevel" for i
  proof -
    have "chain m' i p (filter (\<lambda>a. i < ht a) xs) = chain m i p (filter (\<lambda>a. i < ht a) xs)" for p
      by (rule chain_cong) (use nodes same in auto)
    then show ?thesis using inv that h same by (simp add: fil skip_inv_def)
  qed
  moreover have eq: "map (key_of m') xs = map (key_of m) xs" using nodes keys by simp
  moreover have "a < length (mt_nodes m') \<and> 0 < ht' a \<and> ht' a \<le> maxLevel \<and> val_of m' a \<noteq> None"
    if "a \<in> set xs" for a
    using inv len vals [OF that] hts [OF that] that unfolding skip_inv_def by fastforce
  moreover have "mt_head m < length (mt_nodes m')" "mt_head m \<notin> set xs" "sorted_wrt (<) (map (key_of m') xs)"
    unfolding eq using inv len by (simp_all add: skip_inv_def)
  ultimately show ?thesis
    using arr unfolding skip_inv_def head arrays_ok_def by simp
qed

text \<open>
  The states of an insertion: allocated and wired but not linked (\<open>n = 0\<close>), then linked on the
  levels below \<open>n\<close>.
\<close>

definition insert_stage ::
  "memtable \<Rightarrow> addr list \<Rightarrow> bytes \<Rightarrow> bytes \<Rightarrow> nat \<Rightarrow> nat \<Rightarrow> memtable" where
  "insert_stage m preds key val level n =
     publish (wire (alloc_node m key val) preds (length (mt_nodes m)) level) preds (length (mt_nodes m)) n"

lemma alloc_node_simps [simp]:
  "mt_head (alloc_node m key val) = mt_head m" "mt_frozen (alloc_node m key val) = mt_frozen m"
  "mt_size (alloc_node m key val) = mt_size m + word_of_nat (length key + length val)"
  "length (mt_nodes (alloc_node m key val)) = Suc (length (mt_nodes m))"
  "key_of (alloc_node m key val) (length (mt_nodes m)) = key"
  "val_of (alloc_node m key val) (length (mt_nodes m)) = Some val"
  "a < length (mt_nodes m) \<Longrightarrow> key_of (alloc_node m key val) a = key_of m a"
  "a < length (mt_nodes m) \<Longrightarrow> val_of (alloc_node m key val) a = val_of m a"
  "a < length (mt_nodes m) \<Longrightarrow> nxt (alloc_node m key val) i a = nxt m i a"
  "arrays_ok m \<Longrightarrow> arrays_ok (alloc_node m key val)"
  by (simp_all add: alloc_node_def key_of_def val_of_def nxt_def nth_append new_node_def
      arrays_ok_nth less_Suc_eq)

lemma pred_at_lt:
  assumes "skip_inv m xs ht"
  shows "pred_at m xs ht key i < length (mt_nodes m)"
proof -
  have "pred_at m xs ht key i \<in> set (mt_head m # filter (\<lambda>a. i < ht a \<and> key_of m a < key) xs)"
    unfolding pred_at_def by (rule last_in_set) simp
  then show ?thesis using assms by (auto simp: skip_inv_def)
qed

lemma insert_stage_inv:
  fixes m xs ht key val
  defines "new \<equiv> length (mt_nodes m)"
    and "preds \<equiv> map (pred_at m xs ht key) [0..<maxLevel]"
    and "A \<equiv> filter (\<lambda>a. key_of m a < key) xs" and "B \<equiv> filter (\<lambda>a. key < key_of m a) xs"
  assumes inv: "skip_inv m xs ht" and absent: "\<forall>a \<in> set xs. key_of m a \<noteq> key"
    and level: "level \<le> maxLevel" and n: "n \<le> level"
  shows "skip_inv (insert_stage m preds key val level n)
    (if n = 0 then A @ B else A @ new # B) (ht(new := n))"
proof -
  let ?w = "wire (alloc_node m key val) preds new level"
  have nodes: "\<forall>a \<in> set xs. a < new" and head: "mt_head m < new"
    using inv by (auto simp: skip_inv_def new_def)
  have arr: "arrays_ok (alloc_node m key val)" using skip_inv_arrays [OF inv] by simp
  have preds: "preds ! i = pred_at m xs ht key i" "preds ! i < new" if "i < maxLevel" for i
    using that pred_at_lt [OF inv] by (simp_all add: preds_def new_def)
  have xs: "xs = A @ B"
    using sorted_split [of "key_of m" xs "\<lambda>_. True" key] inv absent
    by (simp add: A_def B_def skip_inv_def) (metis (mono_tags, lifting) filter_cong order.order_iff_strict)
  have pn: "\<forall>i < level. preds ! i \<noteq> new"
    using level preds(2) by (metis less_irrefl order_less_le_trans)
  have nxw: "nxt ?w j b = (if b = new \<and> j < level then nxt (alloc_node m key val) j (preds ! j)
      else nxt (alloc_node m key val) j b)" for j b
    by (rule nxt_wire [OF arr _ level pn]) (simp add: new_def)
  have arrw: "arrays_ok ?w" using arr by simp
  have predA: "last (mt_head m # filter (\<lambda>a. i < (ht(new := k)) a) A) = pred_at m xs ht key i" for i k
  proof -
    have "filter (\<lambda>a. i < (ht(new := k)) a) A = filter (\<lambda>a. i < ht a \<and> key_of m a < key) xs"
      unfolding A_def filter_filter by (rule filter_cong) (use nodes in auto)
    then show ?thesis by (simp add: pred_at_def)
  qed
  show ?thesis
    using n
  proof (induction n)
    case 0
    have "skip_inv ?w xs (ht(new := 0))"
    proof (rule skip_inv_frame [OF inv arrw])
      show "nxt ?w i a = nxt m i a" if "a < length (mt_nodes m)" for a i
        using that unfolding nxw by (simp add: new_def)
    qed (use nodes inv in \<open>auto simp: new_def skip_inv_def\<close>)
    then show ?case using xs by (simp add: insert_stage_def new_def fun_upd_def)
  next
    case (Suc n)
    let ?m = "insert_stage m preds key val level n"
    have lt: "n < maxLevel" "n < level" using Suc.prems level by simp_all
    have "\<forall>i < n. preds ! i < length (mt_nodes ?w)"
      using preds(2) lt(1) by (auto simp: new_def less_Suc_eq)
    then have above: "nxt ?m n b = nxt ?w n b" for b
      unfolding insert_stage_def new_def [symmetric]
      using lt(1) by (intro nxt_publish_above [OF arrw]) simp_all
    have frame: "mt_head ?m = mt_head m" "length (mt_nodes ?m) = Suc new"
      "key_of ?m new = key" "val_of ?m new = Some val"
      by (simp_all add: insert_stage_def new_def)
    have keys: "key_of ?m a = key_of m a" if "a \<in> set xs" for a
      using that nodes by (simp add: insert_stage_def new_def)
    have "skip_inv (set_next ?m (preds ! n) n (Some new)) (A @ new # B) ((ht(new := n))(new := Suc n))"
    proof (rule link_level)
      show "skip_inv ?m (if n = 0 then A @ B else A @ new # B) (ht(new := n))"
        by (rule Suc.IH) (use Suc.prems in simp)
      show "\<forall>a \<in> set A. key_of ?m a < key_of ?m new" "\<forall>b \<in> set B. key_of ?m new < key_of ?m b"
        using keys frame by (auto simp: A_def B_def)
      show "new \<notin> set A" "new \<notin> set B" "new \<noteq> mt_head ?m"
        using nodes head frame by (auto simp: A_def B_def)
      show "preds ! n = last (mt_head ?m # filter (\<lambda>a. n < (ht(new := n)) a) A)"
        unfolding frame predA by (rule preds(1) [OF lt(1)])
      show "nxt ?m n new = nxt ?m n (preds ! n)"
        unfolding above nxw using lt preds(2) [OF lt(1)] by simp
    qed (use lt frame in auto)
    moreover have "(ht(new := n))(new := Suc n) = ht(new := Suc n)" by simp
    ultimately have "skip_inv (insert_stage m preds key val level (Suc n)) (A @ new # B) (ht(new := Suc n))"
      by (simp only: insert_stage_def publish_Suc new_def)
    then show ?case by (simp add: fun_upd_def)
  qed
qed

lemma map_entry_stage:
  assumes inv: "skip_inv m xs ht" and "A @ B = xs" and "\<forall>a \<in> set A. key_of m a < key"
    and "\<forall>b \<in> set B. key < key_of m b"
  shows "map (entry_of (insert_stage m preds key val level n)) xs = map (entry_of m) xs"
    and "map (entry_of (insert_stage m preds key val level n)) (A @ length (mt_nodes m) # B) =
      upd key val (map (entry_of m) xs)"
proof -
  let ?m = "insert_stage m preds key val level n"
  have old: "entry_of ?m a = entry_of m a" if "a \<in> set xs" for a
    using that inv by (simp add: entry_of_def insert_stage_def skip_inv_def)
  then show "map (entry_of ?m) xs = map (entry_of m) xs" by simp
  have new: "entry_of ?m (length (mt_nodes m)) = (key, val)"
    by (simp add: entry_of_def insert_stage_def)
  have "upd key val (map (entry_of m) B) = (key, val) # map (entry_of m) B"
    using assms(4) by (cases B) (auto simp: entry_of_def)
  moreover have "\<forall>x \<in> fst ` set (map (entry_of m) A). x < key"
    using assms(3) by (auto simp: entry_of_def)
  ultimately have "upd key val (map (entry_of m) (A @ B)) =
      map (entry_of m) A @ (key, val) # map (entry_of m) B"
    by (simp add: upd_append_less)
  moreover have "map (entry_of ?m) A = map (entry_of m) A" "map (entry_of ?m) B = map (entry_of m) B"
    using old assms(2) by auto
  ultimately show "map (entry_of ?m) (A @ length (mt_nodes m) # B) = upd key val (map (entry_of m) xs)"
    using new assms(2) by simp
qed

text \<open>
  What a reader sees during an insertion: the old contents before the first store, the new contents
  from then on, and a well-formed table after every single store.
\<close>

lemma insert_stage_rel:
  assumes inv: "skip_inv m xs ht" and absent: "\<forall>a \<in> set xs. key_of m a \<noteq> key"
    and level: "level \<le> maxLevel" and n: "n \<le> level"
  shows "mt_rel (insert_stage m (map (pred_at m xs ht key) [0..<maxLevel]) key val level n)
    (if n = 0 then map (entry_of m) xs else upd key val (map (entry_of m) xs))"
proof -
  let ?A = "filter (\<lambda>a. key_of m a < key) xs" and ?B = "filter (\<lambda>a. key < key_of m a) xs"
  have xs: "?A @ ?B = xs"
    using sorted_split [of "key_of m" xs "\<lambda>_. True" key] inv absent
    by (simp add: skip_inv_def) (metis (mono_tags, lifting) filter_cong order.order_iff_strict)
  show ?thesis
    using insert_stage_inv [OF inv absent level n, of val] map_entry_stage [OF inv xs]
    unfolding mt_rel_def by (cases "n = 0") (auto simp: xs)
qed

lemma mt_insert_stage:
  "mt_insert rnd m preds key val = insert_stage m preds key val (randomLevel rnd) (randomLevel rnd)"
  by (simp add: mt_insert_def insert_stage_def Let_def)

lemma mt_insert_rel:
  assumes "skip_inv m xs ht" and "\<forall>a \<in> set xs. key_of m a \<noteq> key"
  shows "mt_rel (mt_insert rnd m (map (pred_at m xs ht key) [0..<maxLevel]) key val)
    (upd key val (map (entry_of m) xs))"
  using insert_stage_rel [OF assms, of "randomLevel rnd" "randomLevel rnd" val] randomLevel_bounds [of rnd]
  by (simp add: mt_insert_stage)

lemma mt_insert_frame:
  "mt_frozen (mt_insert rnd m preds key val) = mt_frozen m"
  "mt_size (mt_insert rnd m preds key val) = mt_size m + word_of_nat (length key + length val)"
  by (simp_all add: mt_insert_stage insert_stage_def)

lemma set_val_simps:
  "mt_head (set_val m a v) = mt_head m" "mt_frozen (set_val m a v) = mt_frozen m"
  "mt_size (set_val m a v) = mt_size m"
  "length (mt_nodes (set_val m a v)) = length (mt_nodes m)"
  "arrays_ok m \<Longrightarrow> arrays_ok (set_val m a v)"
  "key_of (set_val m a v) b = key_of m b" "nxt (set_val m a v) i b = nxt m i b"
  "a < length (mt_nodes m) \<Longrightarrow> val_of (set_val m a v) b = (if b = a then Some v else val_of m b)"
  by (cases "a < length (mt_nodes m)";
      auto simp: set_val_def arrays_ok_nth key_of_def nxt_def val_of_def nth_list_update list_update_beyond)+

lemma upd_update:
  "ksorted es \<Longrightarrow> k \<in> fst ` set es \<Longrightarrow> upd k v es = map (\<lambda>(a, b). if a = k then (k, v) else (a, b)) es"
proof (induction k v es rule: upd.induct)
  case (2 k v a b es)
  have "map (\<lambda>(a, b). if a = k then (k, v) else (a, b)) es = es" if "k = a"
    using 2(2) that by (auto intro!: map_idI)
  then show ?case using 2 by (auto dest: order.asym)
qed simp

lemma set_val_rel:
  assumes inv: "skip_inv m xs ht" and n: "n \<in> set xs"
  shows "mt_rel (set_val m n val) (upd (key_of m n) val (map (entry_of m) xs))"
proof -
  let ?m = "set_val m n val"
  have nlt: "n < length (mt_nodes m)" using inv n by (simp add: skip_inv_def)
  have "skip_inv ?m xs ht"
    by (rule skip_inv_frame [OF inv])
      (use inv nlt skip_inv_arrays [OF inv] in \<open>auto simp: set_val_simps skip_inv_def\<close>)
  moreover have "upd (key_of m n) val (map (entry_of m) xs) = map (entry_of ?m) xs"
  proof -
    have "ksorted (map (entry_of m) xs)"
      using inv by (auto simp: skip_inv_def entry_of_def comp_def)
    moreover have "key_of m n \<in> fst ` set (map (entry_of m) xs)"
      using n by (force simp: entry_of_def)
    ultimately have "upd (key_of m n) val (map (entry_of m) xs) =
        map (\<lambda>(a, b). if a = key_of m n then (key_of m n, val) else (a, b)) (map (entry_of m) xs)"
      by (rule upd_update)
    also have "\<dots> = map (entry_of ?m) xs"
    proof -
      have "inj_on (key_of m) (set xs)"
        using inv by (metis distinct_map strict_sorted_iff skip_inv_def)
      then show ?thesis
        using n nlt by (auto simp: entry_of_def set_val_simps dest: inj_onD)
    qed
    finally show ?thesis .
  qed
  ultimately show ?thesis by (auto simp: mt_rel_def)
qed

lemma mt_Put_rel:
  assumes rel: "mt_rel m es" and open_mt: "\<not> mt_frozen m"
  obtains m' where "mt_Put rnd m key val = Some (None, m')" and "mt_rel m' (upd key val es)"
    and "\<not> mt_frozen m'"
    and "mt_size m' = (if key \<in> dom (map_of es) then mt_size m
           else mt_size m + word_of_nat (length key + length val))"
proof -
  obtain xs ht where inv: "skip_inv m xs ht" and es: "es = map (entry_of m) xs"
    using rel by (auto simp: mt_rel_def)
  let ?preds = "map (pred_at m xs ht key) [0..<maxLevel]"
  have p0: "?preds ! 0 = pred_at m xs ht key 0" by (simp add: maxLevel_def)
  have keys: "dom (map_of es) = key_of m ` set xs"
    by (force simp: es dom_map_of_conv_image_fst entry_of_def)
  show ?thesis
  proof (cases "\<exists>a \<in> set xs. key_of m a = key")
    case True
    then obtain a where a: "a \<in> set xs" "key_of m a = key" by blast
    have kd: "key \<in> dom (map_of es)" using a keys by blast
    have ch: "chain m 0 (nxt m 0 (pred_at m xs ht key 0)) (filter (\<lambda>a. key \<le> key_of m a) xs)"
      by (rule next_pred0 [OF inv])
    obtain n as where fil: "filter (\<lambda>a. key \<le> key_of m a) xs = n # as"
      using a by (cases "filter (\<lambda>a. key \<le> key_of m a) xs") (auto simp: filter_empty_conv)
    then have nx: "nxt m 0 (pred_at m xs ht key 0) = Some n" using ch by simp
    have "sorted_wrt (<) (map (key_of m) (n # as))"
      using inv unfolding fil [symmetric] skip_inv_def by (simp add: sorted_wrt_map sorted_wrt_filter)
    moreover have "a \<in> set (n # as)" unfolding fil [symmetric] using a by simp
    moreover have n: "n \<in> set xs" "key \<le> key_of m n" using fil by (auto dest!: filter_eq_ConsD)
    ultimately have kn: "key_of m n = key" using a by auto
    have put: "mt_Put rnd m key val = Some (None, set_val m n val)"
      using open_mt find_preds_top [OF inv, of key] nx kn by (simp add: mt_Put_def p0 go_cmp)
    show ?thesis
      by (rule that [OF put])
        (use set_val_rel [OF inv n(1), of val] kn es open_mt kd in \<open>auto simp: set_val_simps\<close>)
  next
    case False
    have "key_of m n \<noteq> key" if "nxt m 0 (pred_at m xs ht key 0) = Some n" for n
      using next_pred_in [OF inv _ that] False by (simp add: maxLevel_def)
    then have put: "mt_Put rnd m key val = Some (None, mt_insert rnd m ?preds key val)"
      using open_mt find_preds_top [OF inv, of key]
      by (simp add: mt_Put_def p0 go_cmp split: option.splits)
    show ?thesis
      by (rule that [OF put])
        (use mt_insert_rel [OF inv, of key rnd val] False es open_mt keys in \<open>auto simp: mt_insert_frame\<close>)
  qed
qed

lemma mt_Put_frozen:
  "mt_frozen m \<Longrightarrow> mt_Put rnd m key val = Some (Some (Failure ''memtable is frozen''), m)"
  by (simp add: mt_Put_def)

lemma mt_Freeze_rel: "mt_rel m es \<Longrightarrow> mt_rel (mt_Freeze m) es"
proof -
  assume "mt_rel m es"
  then obtain xs ht where inv: "skip_inv m xs ht" and es: "es = map (entry_of m) xs"
    by (auto simp: mt_rel_def)
  have same: "nxt (mt_Freeze m) = nxt m" "key_of (mt_Freeze m) = key_of m" "val_of (mt_Freeze m) = val_of m"
    by (simp_all add: fun_eq_iff nxt_def key_of_def val_of_def mt_Freeze_def)
  have ch: "chain (mt_Freeze m) i p as = chain m i p as" for i p as
    by (rule chain_cong) (simp add: same)
  have "entry_of (mt_Freeze m) = entry_of m" by (simp add: fun_eq_iff entry_of_def same)
  moreover have "skip_inv (mt_Freeze m) xs ht"
    using inv ch unfolding skip_inv_def same by (simp add: mt_Freeze_def)
  ultimately show ?thesis using es by (auto simp: mt_rel_def)
qed

section \<open>The table's contract\<close>

interpretation mt: sorted_store mt_rel "\<lambda>m. \<not> mt_frozen m" mt_Put mt_Get mt_Scan
proof unfold_locales
  fix m es rnd k v
  assume "mt_rel m es" and "\<not> mt_frozen m"
  then show "\<exists>m'. mt_Put rnd m k v = Some (None, m') \<and> mt_rel m' (upd k v es) \<and> \<not> mt_frozen m'"
    by (rule mt_Put_rel) blast
qed (simp_all add: mt_rel_sorted mt_Get_rel mt_Scan_rel)

lemma New_not_frozen [simp]: "\<not> mt_frozen NewMemTable"
  by (simp add: NewMemTable_def)

section \<open>Properties\<close>

text \<open>C8. Any sequence of \<open>Put\<close> calls on a new table returns without error, whatever the random
  levels are; afterwards \<open>Get\<close> returns for every key the value of its last \<open>Put\<close> (found), or
  not found, and \<open>Scan\<close> returns exactly the entries of the range in ascending key order.\<close>

theorem memtable_refines_map:
  "\<exists>m. put_seq mt_Put rnd NewMemTable ops = Some m \<and>
     (\<forall>k. mt_Get m k = Some (map_of (rev ops) k)) \<and>
     (\<forall>a b. mt_Scan m a b = Some (filter (\<lambda>(k, v). in_range a b k) (apply_ops [] ops))) \<and>
     ksorted (apply_ops [] ops)"
  using mt.put_seq_get [OF mt_rel_New New_not_frozen, of rnd ops]
  by (auto simp: ksorted_apply_ops)

text \<open>C9. The lock-free reader's view of an insertion. Take any table built by \<open>Put\<close> calls and a
  new key; \<open>Put\<close> finds the predecessors, wires the new node of height \<open>level\<close> and then
  publishes it with one atomic store per level, bottom-up. After any number \<open>n\<close> of these stores a
  \<open>Get\<close> of any key ends and returns the old contents if \<open>n = 0\<close> and the new contents
  otherwise: the new entry becomes visible with the first store, and no key is ever lost.\<close>

theorem memtable_publish_atomic:
  assumes "put_seq mt_Put rnd NewMemTable ops = Some m" and "k \<notin> fst ` set ops"
    and "find_preds m k maxLevel (mt_head m) [] = Some preds"
    and "level \<le> maxLevel" and "n \<le> level"
  shows "mt_Get (insert_stage m preds k v level n) k' =
      Some ((if n = 0 then map_of (rev ops) else (map_of (rev ops))(k \<mapsto> v)) k')"
proof -
  have rel: "mt_rel m (apply_ops [] ops)"
    using mt.put_seq_rel [OF mt_rel_New New_not_frozen, of rnd ops] assms(1) by auto
  then obtain xs ht where inv: "skip_inv m xs ht" and es: "apply_ops [] ops = map (entry_of m) xs"
    by (auto simp: mt_rel_def)
  have "map_of (apply_ops [] ops) k = None"
    using assms(2) by (simp add: map_of_apply_ops map_of_eq_None_iff)
  then have absent: "\<forall>a \<in> set xs. key_of m a \<noteq> k"
    by (auto simp: es map_of_eq_None_iff entry_of_def image_image)
  have "preds = map (pred_at m xs ht k) [0..<maxLevel]"
    using assms(3) find_preds_top [OF inv, of k] by simp
  then have "mt_rel (insert_stage m preds k v level n)
      (if n = 0 then apply_ops [] ops else upd k v (apply_ops [] ops))"
    using insert_stage_rel [OF inv absent assms(4,5), of v] unfolding es by (simp only:)
  from mt.get_rel [OF this, of k'] show ?thesis by (simp add: map_of_apply_ops)
qed

text \<open>A table with one entry, for the witnesses.\<close>

definition one_entry_table :: memtable where
  "one_entry_table = the (put_seq mt_Put (\<lambda>_ _. False) NewMemTable [([1], [2])])"

theorem memtable_publish_atomic_witness:
  "put_seq mt_Put (\<lambda>_ _. False) NewMemTable [([1], [2])] = Some one_entry_table \<and>
   find_preds one_entry_table [3] maxLevel (mt_head one_entry_table) [] = Some (1 # replicate 15 0) \<and>
   mt_Get (insert_stage one_entry_table (1 # replicate 15 0) [3] [4] 2 1) [3] = Some (Some [4])"
proof -
  have put: "put_seq mt_Put (\<lambda>_ _. False) NewMemTable [([1], [2])] = Some one_entry_table"
    by code_simp
  have preds: "find_preds one_entry_table [3] maxLevel (mt_head one_entry_table) [] =
      Some (1 # replicate 15 0)"
    by code_simp
  show ?thesis
    using put preds memtable_publish_atomic [OF put _ preds, of 2 1 "[4]" "[3]"]
    by (simp add: maxLevel_def)
qed

end
