(* ===== verification/WAL.thy ===== *)
theory WAL
  imports Protocol Metrics MemTable
begin

text \<open>
  \<open>internal/engine/wal.go\<close>: the write-ahead log. \<open>Append\<close> serialises a record into the
  \<open>bufio.Writer\<close>, the sync loop flushes it to the file and calls \<open>fsync\<close>, \<open>Recover\<close> replays
  a file into a MemTable. What a crash leaves is a prefix of what was written: the file content when
  the process dies, at least the synced part when the machine does.
\<close>

section \<open>State and operations\<close>

definition WALHeaderSize :: nat where
  "WALHeaderSize = 12"

record wal =
  wal_writer :: bufio_writer
  wal_stopped :: bool

text \<open>\<open>NewWAL\<close>, given the outcome of \<open>os.OpenFile\<close>.\<close>

definition NewWAL :: "os_file result \<Rightarrow> wal result" where
  "NewWAL opened =
     (case opened of
        Inl err \<Rightarrow> Inl (Wrapped ''failed to open WAL file'' err)
      | Inr file \<Rightarrow>
          Inr \<lparr>wal_writer = NewWriterSize file (4 * 1024 * 1024), wal_stopped = False\<rparr>)"

text \<open>Bytes 5 to 11 of the header (the fields under the checksum), the checksum, the header.\<close>

definition wal_fields :: "byte \<Rightarrow> bytes \<Rightarrow> bytes \<Rightarrow> bytes" where
  "wal_fields op key val =
     op # PutUint16 (word_of_nat (length key)) @ PutUint32 (word_of_nat (length val))"

definition wal_crc :: "bytes \<Rightarrow> bytes \<Rightarrow> bytes \<Rightarrow> u32" where
  "wal_crc flds key val = crc_Write (crc_Write (crc_Write crc_NewIEEE flds) key) val"

definition wal_header :: "byte \<Rightarrow> bytes \<Rightarrow> bytes \<Rightarrow> bytes" where
  "wal_header op key val =
     MagicByte # PutUint32 (wal_crc (wal_fields op key val) key val) @ wal_fields op key val"

definition wal_Append :: "wal \<Rightarrow> byte \<Rightarrow> bytes \<Rightarrow> bytes \<Rightarrow> go_error option \<times> wal" where
  "wal_Append w op key val =
     (let (_, e1, b1) = bw_Write (wal_writer w) (wal_header op key val) in
      case e1 of
        Some err \<Rightarrow> (Some (Wrapped ''failed to write WAL header'' err), w\<lparr>wal_writer := b1\<rparr>)
      | None \<Rightarrow>
          let (_, e2, b2) = bw_Write b1 key in
          case e2 of
            Some err \<Rightarrow> (Some (Wrapped ''failed to write WAL key'' err), w\<lparr>wal_writer := b2\<rparr>)
          | None \<Rightarrow>
              let (_, e3, b3) = bw_Write b2 val in
              case e3 of
                Some err \<Rightarrow> (Some (Wrapped ''failed to write WAL value'' err), w\<lparr>wal_writer := b3\<rparr>)
              | None \<Rightarrow> (None, w\<lparr>wal_writer := b3\<rparr>))"

text \<open>\<open>flush\<close>; \<open>dt\<close> is the measured duration of the \<open>fsync\<close>.\<close>

definition wal_flush :: "wal \<Rightarrow> EngineMetrics \<Rightarrow> real \<Rightarrow> wal \<times> EngineMetrics" where
  "wal_flush w em dt =
     (let (err, b) = bw_Flush (wal_writer w) in
      case err of
        Some _ \<Rightarrow> (w\<lparr>wal_writer := b\<rparr>, em)
      | None \<Rightarrow>
          let (syncErr, f) = file_Sync (bw_file b); w' = w\<lparr>wal_writer := b\<lparr>bw_file := f\<rparr>\<rparr> in
          case syncErr of
            Some _ \<Rightarrow> (w', em)
          | None \<Rightarrow> (w', em_Inc WALFsyncTotal (em_Observe WALFsyncDuration dt em)))"

text \<open>\<open>syncLoop\<close> over the events of its \<open>select\<close>: ticks, and the stop signal that ends it.\<close>

datatype sync_event = Tick real | Stop real

fun wal_syncLoop :: "wal \<Rightarrow> EngineMetrics \<Rightarrow> sync_event list \<Rightarrow> wal \<times> EngineMetrics" where
  "wal_syncLoop w em [] = (w, em)"
| "wal_syncLoop w em (Tick dt # evs) = (let (w', em') = wal_flush w em dt in wal_syncLoop w' em' evs)"
| "wal_syncLoop w em (Stop dt # evs) = wal_flush w em dt"

definition wal_Close :: "wal \<Rightarrow> EngineMetrics \<Rightarrow> real \<Rightarrow> go_error option \<times> wal \<times> EngineMetrics" where
  "wal_Close w em dt =
     (if wal_stopped w then (Some (Panic CloseOfClosedChannel), w, em)
      else
        let (w1, em1) = wal_syncLoop (w\<lparr>wal_stopped := True\<rparr>) em [Stop dt];
            (err, f) = file_Close (bw_file (wal_writer w1));
            w2 = w1\<lparr>wal_writer := (wal_writer w1)\<lparr>bw_file := f\<rparr>\<rparr>
        in case err of
             Some e \<Rightarrow> (Some (Wrapped ''failed to close WAL file'' e), w2, em1)
           | None \<Rightarrow> (None, w2, em1))"

section \<open>Recovery\<close>

text \<open>
  One turn of the loop of \<open>Recover\<close> up to the checksum test: the loop returns nil (a clean or torn
  end, or a checksum mismatch), returns an error, or has a record to apply and the bytes after it.
\<close>

datatype wal_read =
    ReadEnd
  | ReadErr go_error
  | ReadRec byte bytes bytes bytes

definition wal_read_record :: "bytes \<Rightarrow> wal_read" where
  "wal_read_record file =
     (case ReadFull WALHeaderSize file of
        Inl err \<Rightarrow>
          if errors_Is err EOF \<or> errors_Is err ErrUnexpectedEOF then ReadEnd
          else ReadErr (Wrapped ''failed reading WAL header'' err)
      | Inr (header, r1) \<Rightarrow>
          if header ! 0 \<noteq> MagicByte then ReadErr (Failure ''corrupted WAL: expected magic byte'')
          else
            let expectedCRC = Uint32 (slice 1 5 header);
                op = header ! 5;
                keyLen = Uint16 (slice 6 8 header);
                valLen = Uint32 (slice 8 12 header)
            in case ReadFull (unat keyLen) r1 of
                 Inl _ \<Rightarrow> ReadEnd
               | Inr (key, r2) \<Rightarrow>
                   (case ReadFull (unat valLen) r2 of
                      Inl _ \<Rightarrow> ReadEnd
                    | Inr (val, r3) \<Rightarrow>
                        if wal_crc (slice 5 12 header) key val \<noteq> expectedCRC then ReadEnd
                        else ReadRec op key val r3))"

lemma wal_read_record_shorter:
  "wal_read_record file = ReadRec op key val rest \<Longrightarrow> length rest < length file"
  by (auto simp: wal_read_record_def Let_def WALHeaderSize_def split: sum.splits if_splits
      dest!: ReadFull_InrD)

function recover_loop ::
  "(nat \<Rightarrow> nat \<Rightarrow> bool) \<Rightarrow> bytes \<Rightarrow> memtable \<Rightarrow> (go_error option \<times> memtable) option" where
  "recover_loop rnd file m =
     (case wal_read_record file of
        ReadEnd \<Rightarrow> Some (None, m)
      | ReadErr err \<Rightarrow> Some (Some err, m)
      | ReadRec op key val rest \<Rightarrow>
          if op = OpDelete then
            (case mt_Put (rnd 0) m key [] of
               None \<Rightarrow> None
             | Some (Some err, m') \<Rightarrow>
                 Some (Some (Wrapped ''failed to put tombstone during recovery'' err), m')
             | Some (None, m') \<Rightarrow> recover_loop (\<lambda>i. rnd (Suc i)) rest m')
          else
            (case mt_Put (rnd 0) m key val of
               None \<Rightarrow> None
             | Some (Some err, m') \<Rightarrow>
                 Some (Some (Wrapped ''failed to put value during recovery'' err), m')
             | Some (None, m') \<Rightarrow> recover_loop (\<lambda>i. rnd (Suc i)) rest m'))"
  by pat_completeness auto
termination
  by (relation "measure (\<lambda>(rnd, file, m). length file)") (auto dest: wal_read_record_shorter)

declare recover_loop.simps [simp del]

text \<open>\<open>Recover\<close>, given the outcome of \<open>os.Open\<close>: the file's content, or an error.\<close>

definition Recover ::
  "(nat \<Rightarrow> nat \<Rightarrow> bool) \<Rightarrow> bytes result \<Rightarrow> memtable \<Rightarrow> (go_error option \<times> memtable) option" where
  "Recover rnd opened m =
     (case opened of
        Inl err \<Rightarrow>
          if errors_Is err ErrNotExist then Some (None, m)
          else Some (Some (Wrapped ''failed to open WAL for recovery'' err), m)
      | Inr file \<Rightarrow> recover_loop rnd file m)"

section \<open>Records\<close>

type_synonym wal_rec = "byte \<times> bytes \<times> bytes"

definition wal_encode :: "wal_rec \<Rightarrow> bytes" where
  "wal_encode r = (case r of (op, key, val) \<Rightarrow> wal_header op key val @ key @ val)"

definition rec_ok :: "wal_rec \<Rightarrow> bool" where
  "rec_ok r \<longleftrightarrow> (case r of (op, key, val) \<Rightarrow> length key < 2 ^ 16 \<and> length val < 2 ^ 32)"

text \<open>The write a record stands for; a deletion writes the tombstone.\<close>

definition rec_entry :: "wal_rec \<Rightarrow> bytes \<times> bytes" where
  "rec_entry r = (case r of (op, key, val) \<Rightarrow> (key, if op = OpDelete then [] else val))"

definition wal_log :: "wal_rec list \<Rightarrow> bytes" where
  "wal_log rs = concat (map wal_encode rs)"

lemma length_wal_fields [simp, codec]: "length (wal_fields op key val) = 7"
  by (simp add: wal_fields_def)

lemma length_wal_header [simp, codec]: "length (wal_header op key val) = 12"
  by (simp add: wal_header_def)

lemma length_wal_encode [codec]: "length (wal_encode (op, key, val)) = 12 + length key + length val"
  by (simp add: wal_encode_def)

lemma wal_log_simps [simp]:
  "wal_log [] = []" "wal_log (r # rs) = wal_encode r @ wal_log rs"
  "wal_log (rs @ rs') = wal_log rs @ wal_log rs'"
  by (simp_all add: wal_log_def)

lemma wal_crc_append: "wal_crc flds key val = crc_Write 0 (flds @ key @ val)"
  by (simp add: wal_crc_def crc_Write_append crc_NewIEEE_def)

text \<open>What the reader makes of a frame with consistent length fields and any checksum.\<close>

lemma wal_read_record_frame:
  assumes "length key = unat kl" and "length val = unat vl"
  shows "wal_read_record
      (MagicByte # PutUint32 c @ (op # PutUint16 kl @ PutUint32 vl) @ key @ val @ rest) =
    (if wal_crc (op # PutUint16 kl @ PutUint32 vl) key val = c then ReadRec op key val rest else ReadEnd)"
proof -
  let ?f = "op # PutUint16 kl @ PutUint32 vl"
  define h where "h = MagicByte # PutUint32 c @ ?f"
  have whole: "MagicByte # PutUint32 c @ ?f @ key @ val @ rest = h @ key @ val @ rest"
    by (simp add: h_def)
  have len: "length h = 12" by (simp add: h_def)
  have flds: "h ! 0 = MagicByte" "h ! 5 = op" "slice 1 5 h = PutUint32 c"
    "slice 5 12 h = ?f" "slice 6 8 h = PutUint16 kl" "slice 8 12 h = PutUint32 vl"
    by (simp_all add: h_def slice_def nth_append)
  show ?thesis
    unfolding wal_read_record_def WALHeaderSize_def whole
    using assms by (simp add: len flds Let_def del: One_nat_def)
qed

lemma wal_encode_frame:
  "wal_encode (op, key, val) =
     MagicByte # PutUint32 (wal_crc (wal_fields op key val) key val) @
     (op # PutUint16 (word_of_nat (length key)) @ PutUint32 (word_of_nat (length val))) @ key @ val"
  by (simp add: wal_encode_def wal_header_def wal_fields_def)

lemma wal_read_record_encode:
  assumes "rec_ok (op, key, val)"
  shows "wal_read_record (wal_encode (op, key, val) @ rest) = ReadRec op key val rest"
proof -
  have "length key = unat (word_of_nat (length key) :: u16)"
    "length val = unat (word_of_nat (length val) :: u32)"
    using assms by (simp_all add: rec_ok_def)
  from wal_read_record_frame [OF this, of "wal_crc (wal_fields op key val) key val" op rest]
  show ?thesis by (simp add: wal_encode_frame wal_fields_def)
qed

text \<open>A strict prefix of a record (a torn write) ends the recovery without error.\<close>

lemma wal_read_record_torn:
  assumes ok: "rec_ok (op, key, val)" and n: "n < length (wal_encode (op, key, val))"
  shows "wal_read_record (take n (wal_encode (op, key, val))) = ReadEnd"
proof (cases "n < 12")
  case True
  then have "\<exists>e. ReadFull 12 (take n (wal_encode (op, key, val))) = Inl e \<and>
      (e = EOF \<or> e = ErrUnexpectedEOF)"
    by (intro ReadFull_short) (simp add: length_wal_encode)
  then show ?thesis by (auto simp: wal_read_record_def WALHeaderSize_def)
next
  case False
  let ?h = "wal_header op key val"
  have tk: "take n (wal_encode (op, key, val)) = ?h @ take (n - 12) (key @ val)"
    using False by (simp add: wal_encode_def)
  have flds: "?h ! 0 = MagicByte" "slice 6 8 ?h = PutUint16 (word_of_nat (length key))"
    "slice 8 12 ?h = PutUint32 (word_of_nat (length val))"
    by (simp_all add: wal_header_def wal_fields_def slice_def)
  have len: "length key < 65536" "length val < 4294967296" using ok by (simp_all add: rec_ok_def)
  have short: "n - 12 < length key + length val" using n False by (simp add: length_wal_encode)
  have rf: "ReadFull 12 (?h @ take (n - 12) (key @ val)) = Inr (?h, take (n - 12) (key @ val))"
    by (rule ReadFull_append) simp
  show ?thesis
    unfolding wal_read_record_def WALHeaderSize_def tk rf
    using len short by (auto simp: flds Let_def ReadFull_def split: sum.splits)
qed

lemma wal_read_record_Nil [simp]: "wal_read_record [] = ReadEnd"
  by (simp add: wal_read_record_def ReadFull_def WALHeaderSize_def)

section \<open>Replay\<close>

lemma recover_loop_stop [simp]: "wal_read_record file = ReadEnd \<Longrightarrow> recover_loop rnd file m = Some (None, m)"
  by (subst recover_loop.simps) simp

lemma recover_loop_rec:
  assumes "wal_read_record file = ReadRec op key val rest" and rel: "mt_rel m es" and w: "\<not> mt_frozen m"
  obtains m' where "recover_loop rnd file m = recover_loop (\<lambda>i. rnd (Suc i)) rest m'"
    and "mt_rel m' (apply_ops es [rec_entry (op, key, val)])" and "\<not> mt_frozen m'"
proof -
  let ?v = "if op = OpDelete then [] else val"
  obtain m' where m': "mt_Put (rnd 0) m key ?v = Some (None, m')" "mt_rel m' (upd key ?v es)" "\<not> mt_frozen m'"
    using mt.put_rel [OF rel w] by blast
  have "recover_loop rnd file m = recover_loop (\<lambda>i. rnd (Suc i)) rest m'"
    using assms(1) m'(1) by (subst recover_loop.simps) (auto split: if_splits)
  then show ?thesis using that m' by (simp add: rec_entry_def)
qed

lemma recover_loop_log:
  assumes "\<forall>r \<in> set rs. rec_ok r" and "mt_rel m es" and "\<not> mt_frozen m"
  obtains m' rnd' where "recover_loop rnd (wal_log rs @ rest) m = recover_loop rnd' rest m'"
    and "mt_rel m' (apply_ops es (map rec_entry rs))" and "\<not> mt_frozen m'"
  using assms
proof (induction rs arbitrary: rnd m es thesis)
  case Nil
  then show ?case by (simp add: Nil.prems(1))
next
  case (Cons r rs)
  obtain op key val where r: "r = (op, key, val)" by (cases r)
  have "wal_read_record (wal_log (r # rs) @ rest) = ReadRec op key val (wal_log rs @ rest)"
    using Cons.prems(2) by (simp add: r wal_read_record_encode)
  then obtain m1 where m1: "recover_loop rnd (wal_log (r # rs) @ rest) m =
      recover_loop (\<lambda>i. rnd (Suc i)) (wal_log rs @ rest) m1"
    "mt_rel m1 (apply_ops es [rec_entry r])" "\<not> mt_frozen m1"
    by (rule recover_loop_rec [OF _ Cons.prems(3,4)]) (auto simp: r)
  obtain m2 rnd' where m2: "recover_loop (\<lambda>i. rnd (Suc i)) (wal_log rs @ rest) m1 = recover_loop rnd' rest m2"
    "mt_rel m2 (apply_ops (apply_ops es [rec_entry r]) (map rec_entry rs))" "\<not> mt_frozen m2"
    using Cons.IH [OF _ _ m1(2,3)] Cons.prems(2) by (metis list.set_intros(2))
  have "apply_ops es (map rec_entry (r # rs)) = apply_ops (apply_ops es [rec_entry r]) (map rec_entry rs)"
    by (metis append_Cons append_Nil apply_ops_simps(3) list.map(2))
  then show ?case using Cons.prems(1) m1(1) m2 by metis
qed

text \<open>The records of a log that lie completely within its first \<open>n\<close> bytes.\<close>

fun complete_records :: "nat \<Rightarrow> wal_rec list \<Rightarrow> nat" where
  "complete_records n [] = 0"
| "complete_records n (r # rs) =
     (if length (wal_encode r) \<le> n then Suc (complete_records (n - length (wal_encode r)) rs) else 0)"

lemma complete_records_bounds:
  "complete_records n rs \<le> length rs"
  "length (wal_log (take (complete_records n rs) rs)) \<le> n"
  "complete_records n rs = length rs \<or> n < length (wal_log (take (Suc (complete_records n rs)) rs))"
  by (induction n rs rule: complete_records.induct) auto

lemma complete_records_all: "length (wal_log rs) \<le> n \<Longrightarrow> complete_records n rs = length rs"
  by (induction n rs rule: complete_records.induct) auto

lemma complete_records_ge:
  "j \<le> length rs \<Longrightarrow> length (wal_log (take j rs)) \<le> n \<Longrightarrow> j \<le> complete_records n rs"
proof (induction n rs arbitrary: j rule: complete_records.induct)
  case (2 n r rs)
  then show ?case by (cases j) auto
qed simp

lemma take_wal_log:
  "take n (wal_log rs) =
     wal_log (take (complete_records n rs) rs) @
     take (n - length (wal_log (take (complete_records n rs) rs)))
       (wal_log (drop (complete_records n rs) rs))"
  by (induction n rs rule: complete_records.induct) auto

lemma recover_prefix:
  assumes ok: "\<forall>r \<in> set rs. rec_ok r" and rel: "mt_rel m es" and w: "\<not> mt_frozen m"
  shows "\<exists>m'. recover_loop rnd (take n (wal_log rs)) m = Some (None, m') \<and> \<not> mt_frozen m' \<and>
    mt_rel m' (apply_ops es (map rec_entry (take (complete_records n rs) rs)))"
proof -
  let ?j = "complete_records n rs"
  let ?t = "take (n - length (wal_log (take ?j rs))) (wal_log (drop ?j rs))"
  have okj: "\<forall>r \<in> set (take ?j rs). rec_ok r" using ok by (auto dest: in_set_takeD)
  obtain m' rnd' where m': "recover_loop rnd (wal_log (take ?j rs) @ ?t) m = recover_loop rnd' ?t m'"
    "mt_rel m' (apply_ops es (map rec_entry (take ?j rs)))" "\<not> mt_frozen m'"
    by (rule recover_loop_log [OF okj rel w])
  have "wal_read_record ?t = ReadEnd"
  proof (cases "drop ?j rs")
    case (Cons r rs')
    obtain op key val where r: "r = (op, key, val)" by (cases r)
    have take_eq: "take (Suc ?j) rs = take ?j rs @ [r]"
      using Cons by (metis append_eq_conv_conj append_take_drop_id take_Suc_conv_app_nth
          nth_via_drop not_less_eq take_all_iff drop_all linorder_not_less list.distinct(1))
    have "?j \<noteq> length rs" using Cons by auto
    then have "n < length (wal_log (take (Suc ?j) rs))" using complete_records_bounds(3) [of n rs] by simp
    then have lt: "n - length (wal_log (take ?j rs)) < length (wal_encode r)"
      using complete_records_bounds(2) [of n rs] by (simp add: take_eq)
    have "r \<in> set rs" using Cons by (metis in_set_dropD list.set_intros(1))
    then have "rec_ok (op, key, val)" using ok r by auto
    from wal_read_record_torn [OF this] show ?thesis using lt Cons by (simp add: r)
  qed simp
  then show ?thesis using m' take_wal_log [of n rs] by simp
qed

section \<open>Appending and syncing\<close>

definition wal_total :: "wal \<Rightarrow> bytes" where
  "wal_total w = bw_total (wal_writer w)"

abbreviation wal_file :: "wal \<Rightarrow> os_file" where
  "wal_file w \<equiv> bw_file (wal_writer w)"

lemma wal_Append_healthy:
  assumes "bw_healthy (wal_writer w)"
  obtains w' where "wal_Append w op key val = (None, w')" and "bw_healthy (wal_writer w')"
    and "wal_total w' = wal_total w @ wal_encode (op, key, val)"
    and "f_durable (wal_file w') = f_durable (wal_file w)"
    and "\<exists>z. f_data (wal_file w') = f_data (wal_file w) @ z"
    and "wal_stopped w' = wal_stopped w"
proof -
  obtain b1 where b1: "bw_Write (wal_writer w) (wal_header op key val) = (12, None, b1)" "bw_healthy b1"
    "bw_total b1 = bw_total (wal_writer w) @ wal_header op key val"
    "f_durable (bw_file b1) = f_durable (wal_file w)"
    using bw_Write_healthy [OF assms, of "wal_header op key val"] by auto
  obtain b2 where b2: "bw_Write b1 key = (length key, None, b2)" "bw_healthy b2"
    "bw_total b2 = bw_total b1 @ key" "f_durable (bw_file b2) = f_durable (bw_file b1)"
    using bw_Write_healthy [OF b1(2), of key] by auto
  obtain b3 where b3: "bw_Write b2 val = (length val, None, b3)" "bw_healthy b3"
    "bw_total b3 = bw_total b2 @ val" "f_durable (bw_file b3) = f_durable (bw_file b2)"
    using bw_Write_healthy [OF b2(2), of val] by auto
  have app: "wal_Append w op key val = (None, w\<lparr>wal_writer := b3\<rparr>)"
    using b1(1) b2(1) b3(1) by (simp add: wal_Append_def)
  have "\<exists>z. f_data (bw_file b3) = f_data (wal_file w) @ z"
    using bw_Write_grows [OF b1(1)] bw_Write_grows [OF b2(1)] bw_Write_grows [OF b3(1)] by auto
  then show ?thesis
    using that [OF app] b1 b2 b3 by (simp add: wal_total_def wal_encode_def)
qed

lemma wal_Append_fits:
  assumes "bw_err (wal_writer w) = None"
    and "length (wal_encode (op, key, val)) \<le> bw_Available (wal_writer w)"
  shows "wal_Append w op key val =
    (None, w\<lparr>wal_writer := (wal_writer w)\<lparr>bw_buf := bw_buf (wal_writer w) @ wal_encode (op, key, val)\<rparr>\<rparr>)"
proof -
  have len: "12 + length key + length val \<le> bw_cap (wal_writer w) - length (bw_buf (wal_writer w))"
    using assms(2) by (simp add: length_wal_encode bw_Available_def)
  let ?b1 = "(wal_writer w)\<lparr>bw_buf := bw_buf (wal_writer w) @ wal_header op key val\<rparr>"
  let ?b2 = "?b1\<lparr>bw_buf := bw_buf ?b1 @ key\<rparr>"
  have "bw_Write (wal_writer w) (wal_header op key val) = (12, None, ?b1)"
    using bw_Write_fits [of "wal_writer w" "wal_header op key val"] len assms(1) by (simp add: bw_Available_def)
  moreover have "bw_Write ?b1 key = (length key, None, ?b2)"
    using bw_Write_fits [of ?b1 key] len assms(1) by (simp add: bw_Available_def)
  moreover have "bw_Write ?b2 val = (length val, None, ?b2\<lparr>bw_buf := bw_buf ?b2 @ val\<rparr>)"
    using bw_Write_fits [of ?b2 val] len assms(1) by (simp add: bw_Available_def)
  ultimately show ?thesis by (simp add: wal_Append_def wal_encode_def)
qed

lemma wal_flush_healthy:
  assumes "bw_healthy (wal_writer w)"
  obtains w' where "wal_flush w em dt = (w', em_Inc WALFsyncTotal (em_Observe WALFsyncDuration dt em))"
    and "bw_healthy (wal_writer w')" and "wal_total w' = wal_total w"
    and "f_durable (wal_file w') = wal_total w" and "f_data (wal_file w') = wal_total w"
    and "wal_stopped w' = wal_stopped w"
  using assms
  by (simp add: wal_flush_def bw_Flush_healthy file_Sync_def healthy_def bw_healthy_def
      wal_total_def bw_total_def)

text \<open>A history of the log: appends by request handlers, ticks of the sync loop.\<close>

datatype wal_event = EvAppend wal_rec | EvTick real

fun wal_run :: "wal \<Rightarrow> EngineMetrics \<Rightarrow> wal_event list \<Rightarrow> go_error option list \<times> wal \<times> EngineMetrics" where
  "wal_run w em [] = ([], w, em)"
| "wal_run w em (EvAppend (op, key, val) # evs) =
     (let (e, w1) = wal_Append w op key val; (es, w2, em2) = wal_run w1 em evs in (e # es, w2, em2))"
| "wal_run w em (EvTick dt # evs) =
     (let (w1, em1) = wal_syncLoop w em [Tick dt] in wal_run w1 em1 evs)"

fun appended :: "wal_event list \<Rightarrow> wal_rec list" where
  "appended [] = []"
| "appended (EvAppend r # evs) = r # appended evs"
| "appended (EvTick dt # evs) = appended evs"

lemma appended_append [simp]: "appended (evs @ evs') = appended evs @ appended evs'"
  by (induction evs rule: appended.induct) auto

lemma wal_run_healthy:
  assumes "bw_healthy (wal_writer w)" and "\<exists>z. f_data (wal_file w) = f_durable (wal_file w) @ z"
    and "wal_run w em evs = (errs, w', em')"
  shows "bw_healthy (wal_writer w') \<and> (\<forall>e \<in> set errs. e = None) \<and>
    wal_total w' = wal_total w @ wal_log (appended evs) \<and>
    (\<exists>z. f_data (wal_file w') = f_durable (wal_file w') @ z) \<and>
    length (f_durable (wal_file w)) \<le> length (f_durable (wal_file w'))"
  using assms
proof (induction w em evs arbitrary: errs w' em' rule: wal_run.induct)
  case (2 w em op key val evs)
  obtain w1 where w1: "wal_Append w op key val = (None, w1)" "bw_healthy (wal_writer w1)"
    "wal_total w1 = wal_total w @ wal_encode (op, key, val)"
    "f_durable (wal_file w1) = f_durable (wal_file w)"
    "\<exists>z. f_data (wal_file w1) = f_data (wal_file w) @ z"
    using wal_Append_healthy [OF 2(2)] by metis
  obtain es where es: "wal_run w1 em evs = (es, w', em')" "errs = None # es"
    using 2(4) w1(1) by (auto split: prod.splits)
  have "\<exists>z. f_data (wal_file w1) = f_durable (wal_file w1) @ z" using w1(4,5) 2(3) by auto
  with 2(1) [OF _ _ w1(2) _ es(1), where x = "(None, w1)"] w1 es show ?case by simp
next
  case (3 w em dt evs)
  obtain w1 where w1: "wal_flush w em dt = (w1, em_Inc WALFsyncTotal (em_Observe WALFsyncDuration dt em))"
    "bw_healthy (wal_writer w1)" "wal_total w1 = wal_total w"
    "f_durable (wal_file w1) = wal_total w" "f_data (wal_file w1) = wal_total w"
    using wal_flush_healthy [OF 3(2)] by metis
  have loop: "wal_syncLoop w em [Tick dt] = (w1, em_Inc WALFsyncTotal (em_Observe WALFsyncDuration dt em))"
    using w1(1) by simp
  have run: "wal_run w1 (em_Inc WALFsyncTotal (em_Observe WALFsyncDuration dt em)) evs = (errs, w', em')"
    using 3(4) w1(1) by simp
  have "\<exists>z. f_data (wal_file w1) = f_durable (wal_file w1) @ z" using w1(4,5) by simp
  from 3(1) [OF loop [symmetric] refl w1(2) this run] w1 3(3) show ?case
    by (auto simp: wal_total_def bw_total_def)
qed (simp add: wal_total_def)

section \<open>Corrupted frames\<close>

text \<open>A frame whose checksummed bytes differ in one place from those the checksum was taken of.\<close>

lemma wal_read_record_corrupt:
  assumes ok: "rec_ok (op, key, val)" and msg: "msg = wal_fields op key val @ key @ val"
    and i: "i < length msg" and nolen: "i = 0 \<or> 7 \<le> i" and b: "b \<noteq> msg ! i"
  shows "wal_read_record (MagicByte # PutUint32 (wal_crc (wal_fields op key val) key val) @ msg[i := b] @ rest) = ReadEnd"
proof -
  let ?kl = "word_of_nat (length key) :: u16" and ?vl = "word_of_nat (length val) :: u32"
  let ?c = "wal_crc (wal_fields op key val) key val"
  have len: "length key = unat ?kl" "length val = unat ?vl"
    using ok by (simp_all add: rec_ok_def)
  obtain op' key' val' where msg': "msg[i := b] = (op' # PutUint16 ?kl @ PutUint32 ?vl) @ key' @ val'"
    and len': "length key' = length key" "length val' = length val"
  proof (cases "i = 0")
    case True
    then show thesis using that [of b key val] by (simp add: msg wal_fields_def)
  next
    case False
    let ?r = "(key @ val)[i - 7 := b]"
    have "msg[i := b] = wal_fields op key val @ ?r"
      using nolen False by (simp add: msg list_update_append)
    moreover have "?r = take (length key) ?r @ drop (length key) ?r" by simp
    ultimately show thesis
      using that [of op "take (length key) ?r" "drop (length key) ?r"] by (simp add: wal_fields_def)
  qed
  have "msg = take i msg @ msg ! i # drop (Suc i) msg" using i by (rule id_take_nth_drop)
  moreover have "msg[i := b] = take i msg @ b # drop (Suc i) msg" using i by (rule upd_conv_take_nth_drop)
  ultimately have "crc_Write 0 (msg[i := b]) \<noteq> crc_Write 0 msg"
    using crc_detects_byte [OF b, of 0 "take i msg" "drop (Suc i) msg"] by simp
  then have "wal_crc (op' # PutUint16 ?kl @ PutUint32 ?vl) key' val' \<noteq> ?c"
    by (simp add: wal_crc_append msg' [symmetric] msg [symmetric] del: append_Cons)
  moreover have "wal_read_record (MagicByte # PutUint32 ?c @ (op' # PutUint16 ?kl @ PutUint32 ?vl) @ key' @ val' @ rest) =
      (if wal_crc (op' # PutUint16 ?kl @ PutUint32 ?vl) key' val' = ?c then ReadRec op' key' val' rest else ReadEnd)"
    by (rule wal_read_record_frame) (use len len' in simp_all)
  ultimately show ?thesis by (simp add: msg')
qed

text \<open>The checksummed bytes of a record.\<close>

definition wal_message :: "wal_rec \<Rightarrow> bytes" where
  "wal_message r = (case r of (op, key, val) \<Rightarrow> wal_fields op key val @ key @ val)"

lemma wal_encode_message:
  "wal_encode (op, key, val) =
     MagicByte # PutUint32 (wal_crc (wal_fields op key val) key val) @ wal_message (op, key, val)"
  by (simp add: wal_encode_def wal_header_def wal_message_def)


lemma recover_log_then_end:
  assumes "\<forall>r \<in> set rs. rec_ok r" and "wal_read_record rest = ReadEnd"
  shows "\<exists>m. Recover rnd (Inr (wal_log rs @ rest)) NewMemTable = Some (None, m) \<and>
    (\<forall>k. mt_Get m k = Some (map_of (rev (map rec_entry rs)) k))"
proof -
  obtain m rnd' where m: "recover_loop rnd (wal_log rs @ rest) NewMemTable = recover_loop rnd' rest m"
    "mt_rel m (apply_ops [] (map rec_entry rs))"
    by (rule recover_loop_log [OF assms(1) mt_rel_New New_not_frozen])
  then show ?thesis
    using assms(2) mt.get_rel [OF m(2)] by (auto simp: Recover_def map_of_apply_ops)
qed

section \<open>Properties\<close>

definition empty_file :: os_file where
  "empty_file = \<lparr>f_data = [], f_durable = [], f_quota = None, f_syncfail = False, f_closed = False\<rparr>"

text \<open>C10. Recovery of a log cut at any byte: \<open>Recover\<close> returns no error and rebuilds exactly the
  state of the records that are complete before the cut, last write of a key first, deletions as
  tombstones; a torn record changes nothing.\<close>

theorem recover_torn_log:
  assumes "\<forall>r \<in> set rs. rec_ok r"
  shows "\<exists>m. Recover rnd (Inr (take n (wal_log rs))) NewMemTable = Some (None, m) \<and>
    (\<forall>k. mt_Get m k = Some (map_of (rev (map rec_entry (take (complete_records n rs) rs))) k))"
  using recover_prefix [OF assms mt_rel_New New_not_frozen, of rnd n]
  by (auto simp: Recover_def mt.get_rel map_of_apply_ops)

theorem recover_torn_log_witness:
  "\<exists>m. Recover (\<lambda>_ _. False) (Inr (take 20 (wal_log [(OpPut, [1], [2]), (OpDelete, [1], [])]))) NewMemTable
     = Some (None, m) \<and> (\<forall>k. mt_Get m k = Some (map_of (rev (map rec_entry
        (take (complete_records 20 [(OpPut, [1], [2]), (OpDelete, [1], [])])
          [(OpPut, [1], [2]), (OpDelete, [1], [])]))) k))"
  by (rule recover_torn_log) (simp add: rec_ok_def)

text \<open>C11. Durability of synced writes. On a disk that works, from an empty log, every \<open>Append\<close> of
  a history of appends and sync ticks returns nil; and whatever a crash leaves of the file, as long as
  it keeps the synced bytes, recovery returns without error and replays a prefix of the appended
  records that contains every record appended before the last tick.\<close>

theorem wal_synced_writes_survive:
  assumes "NewWAL (Inr empty_file) = Inr w0"
    and "wal_run w0 em (before @ EvTick dt # after) = (errs, w, em')"
    and "\<forall>r \<in> set (appended (before @ after)). rec_ok r"
    and "length (f_durable (wal_file w)) \<le> n"
  shows "(\<forall>e \<in> set errs. e = None) \<and>
    (\<exists>j m. length (appended before) \<le> j \<and>
       Recover rnd (Inr (take n (f_data (wal_file w)))) NewMemTable = Some (None, m) \<and>
       (\<forall>k. mt_Get m k = Some (map_of (rev (map rec_entry (take j (appended (before @ after))))) k)))"
proof -
  define rs where "rs = appended (before @ after)"
  have w0: "bw_healthy (wal_writer w0)" "wal_total w0 = []" "f_durable (wal_file w0) = []"
    "f_data (wal_file w0) = []"
    using assms(1) by (auto simp: NewWAL_def NewWriterSize_def bw_healthy_def healthy_def
        wal_total_def bw_total_def empty_file_def)
  have split: "\<exists>w1 em1 es1 es2. wal_run w em (evs @ evs') = (es1 @ es2, fst (snd (wal_run w1 em1 evs')),
      snd (snd (wal_run w1 em1 evs'))) \<and> wal_run w em evs = (es1, w1, em1) \<and> es2 = fst (wal_run w1 em1 evs')"
    for w em evs evs'
    by (induction w em evs rule: wal_run.induct) (auto split: prod.splits)
  obtain w1 em1 es1 es2 where r1: "wal_run w0 em before = (es1, w1, em1)"
    and r2: "wal_run w1 em1 (EvTick dt # after) = (es2, w, em')" and errs: "errs = es1 @ es2"
    using split [of w0 em before "EvTick dt # after"] assms(2)
    by (metis prod.collapse prod.inject)
  have s1: "bw_healthy (wal_writer w1)" "\<forall>e \<in> set es1. e = None" "wal_total w1 = wal_log (appended before)"
    using wal_run_healthy [OF w0(1) _ r1] w0 by auto
  obtain w2 em2 where w2: "wal_flush w1 em1 dt = (w2, em2)" "bw_healthy (wal_writer w2)"
    "wal_total w2 = wal_total w1" "f_durable (wal_file w2) = wal_total w1" "f_data (wal_file w2) = wal_total w1"
    using wal_flush_healthy [OF s1(1)] by metis
  have r3: "wal_run w2 em2 after = (es2, w, em')" using r2 w2(1) by simp
  have s3: "bw_healthy (wal_writer w)" "\<forall>e \<in> set es2. e = None"
    "wal_total w = wal_log rs" "\<exists>z. f_data (wal_file w) = f_durable (wal_file w) @ z"
    "length (wal_log (appended before)) \<le> length (f_durable (wal_file w))"
    using wal_run_healthy [OF w2(2) _ r3] w2 s1(3) by (auto simp: rs_def)
  let ?n = "min n (length (f_data (wal_file w)))"
  have file_eq: "take n (f_data (wal_file w)) = take ?n (wal_log rs)"
    using s3(3) [symmetric] by (simp add: wal_total_def bw_total_def min_def)
  have "length (wal_log (take (length (appended before)) rs)) \<le> ?n"
    using s3(4,5) assms(4) by (auto simp: rs_def)
  then have "length (appended before) \<le> complete_records ?n rs"
    by (intro complete_records_ge) (simp_all add: rs_def)
  moreover obtain m where m: "recover_loop rnd (take ?n (wal_log rs)) NewMemTable = Some (None, m)"
    "mt_rel m (apply_ops [] (map rec_entry (take (complete_records ?n rs) rs)))"
    using recover_prefix [OF assms(3) [folded rs_def] mt_rel_New New_not_frozen] by blast
  moreover from mt.get_rel [OF m(2)]
  have "\<forall>k. mt_Get m k = Some (map_of (rev (map rec_entry (take (complete_records ?n rs) rs))) k)"
    by (simp add: map_of_apply_ops)
  ultimately show ?thesis
    unfolding rs_def [symmetric] Recover_def file_eq using s1(2) s3(2) errs by auto
qed

theorem wal_synced_writes_survive_witness:
  "\<exists>w0 errs w em' j m.
     NewWAL (Inr empty_file) = Inr w0 \<and>
     wal_run w0 NewEngineMetrics ([EvAppend (OpPut, [1], [2])] @ EvTick 0 # [EvAppend (OpPut, [3], [4])]) =
       (errs, w, em') \<and> (\<forall>e \<in> set errs. e = None) \<and> 1 \<le> j \<and>
     Recover (\<lambda>_ _. False) (Inr (take (length (f_durable (wal_file w))) (f_data (wal_file w)))) NewMemTable =
       Some (None, m) \<and>
     (\<forall>k. mt_Get m k = Some (map_of (rev (map rec_entry (take j [(OpPut, [1], [2]), (OpPut, [3], [4])]))) k))"
proof -
  obtain w0 where w0: "NewWAL (Inr empty_file) = Inr w0" by (simp add: NewWAL_def)
  obtain errs w em' where run: "wal_run w0 NewEngineMetrics
      ([EvAppend (OpPut, [1], [2])] @ EvTick 0 # [EvAppend (OpPut, [3], [4])]) = (errs, w, em')"
    by (metis prod_cases3)
  show ?thesis
    using w0 run wal_synced_writes_survive [OF w0 run _ order.refl, of "\<lambda>_ _. False"]
    by (fastforce simp: rec_ok_def)
qed

text \<open>C12. The checksum detects a corrupted record: flip one byte of the opcode, key or value of a
  record on disk to any other value, whatever follows it, and recovery stops there cleanly with
  exactly the records before it.\<close>

theorem recover_detects_corruption:
  assumes "\<forall>r \<in> set rs. rec_ok r" and "rec_ok (op, key, val)"
    and "i < length (wal_message (op, key, val))" and "i = 0 \<or> 7 \<le> i"
    and "b \<noteq> wal_message (op, key, val) ! i"
  shows "\<exists>m. Recover rnd (Inr (wal_log rs @ (wal_encode (op, key, val))[5 + i := b] @ rest)) NewMemTable =
      Some (None, m) \<and> (\<forall>k. mt_Get m k = Some (map_of (rev (map rec_entry rs)) k))"
proof -
  have "(wal_encode (op, key, val))[5 + i := b] =
      MagicByte # PutUint32 (wal_crc (wal_fields op key val) key val) @ (wal_message (op, key, val))[i := b]"
    by (simp add: wal_encode_message list_update_append)
  then have "wal_read_record ((wal_encode (op, key, val))[5 + i := b] @ rest) = ReadEnd"
    using wal_read_record_corrupt [OF assms(2) _ assms(3-5)] by (simp add: wal_message_def)
  then show ?thesis by (rule recover_log_then_end [OF assms(1)])
qed

theorem recover_detects_corruption_witness:
  "\<exists>m. Recover (\<lambda>_ _. False) (Inr (wal_log [(OpPut, [7], [8])] @ (wal_encode (OpPut, [1], [2]))[5 + 8 := 9] @ [])) NewMemTable =
      Some (None, m) \<and> (\<forall>k. mt_Get m k = Some (map_of (rev (map rec_entry [(OpPut, [7], [8])])) k))"
  by (rule recover_detects_corruption)
    (simp_all add: rec_ok_def wal_message_def wal_fields_def PutUint16_def PutUint32_def)

text \<open>C13. An acknowledged write need not survive the death of the process: as long as the record fits
  the 4 MB buffer, \<open>Append\<close> returns nil (and the request is acknowledged) without touching the
  file, so that recovery from the file alone finds nothing until the sync loop has run.\<close>

theorem acked_write_not_in_file:
  assumes "NewWAL (Inr empty_file) = Inr w0" and "length (wal_encode (op, key, val)) \<le> 4 * 1024 * 1024"
  shows "\<exists>w. wal_Append w0 op key val = (None, w) \<and>
     Recover rnd (Inr (f_data (wal_file w))) NewMemTable = Some (None, NewMemTable)"
proof -
  have w0: "bw_err (wal_writer w0) = None" "bw_Available (wal_writer w0) = 4 * 1024 * 1024"
    "f_data (wal_file w0) = []"
    using assms(1) by (auto simp: NewWAL_def NewWriterSize_def bw_Available_def empty_file_def)
  show ?thesis
    using wal_Append_fits [OF w0(1), of op key val] assms(2) w0 by (simp add: Recover_def)
qed

theorem acked_write_not_in_file_witness:
  "\<exists>w0 w. NewWAL (Inr empty_file) = Inr w0 \<and> wal_Append w0 OpPut [1] [2] = (None, w) \<and>
     Recover (\<lambda>_ _. False) (Inr (f_data (wal_file w))) NewMemTable = Some (None, NewMemTable)"
proof -
  obtain w0 where w0: "NewWAL (Inr empty_file) = Inr w0" by (simp add: NewWAL_def)
  show ?thesis
    using w0 acked_write_not_in_file [OF w0, of OpPut "[1]" "[2]" "\<lambda>_ _. False"]
    by (simp add: length_wal_encode)
qed



text \<open>C15. A closed log still accepts appends: after \<open>Close\<close> has returned nil, \<open>Append\<close> returns
  nil for every record that fits the buffer, and the record never reaches the file.\<close>

theorem append_after_close_acked:
  assumes "bw_healthy (wal_writer w)" and "\<not> wal_stopped w"
    and "length (wal_encode (op, key, val)) \<le> bw_cap (wal_writer w)"
  shows "\<exists>w1 em1 w2. wal_Close w em dt = (None, w1, em1) \<and> wal_Append w1 op key val = (None, w2) \<and>
     f_data (wal_file w2) = wal_total w \<and> f_durable (wal_file w2) = wal_total w"
proof -
  let ?w = "w\<lparr>wal_stopped := True\<rparr>"
  let ?b = "(wal_writer w)\<lparr>bw_file := (wal_file w)\<lparr>f_data := wal_total w, f_durable := wal_total w, f_closed := True\<rparr>, bw_buf := []\<rparr>"
  have fl: "bw_Flush (wal_writer w) =
      (None, (wal_writer w)\<lparr>bw_file := (wal_file w)\<lparr>f_data := wal_total w\<rparr>, bw_buf := []\<rparr>)"
    using bw_Flush_healthy [OF assms(1)] by (simp add: wal_total_def)
  have cl: "wal_Close w em dt =
      (None, ?w\<lparr>wal_writer := ?b\<rparr>, em_Inc WALFsyncTotal (em_Observe WALFsyncDuration dt em))"
    using assms(1,2) by (simp add: wal_Close_def wal_flush_def fl file_Sync_def file_Close_def
        bw_healthy_def healthy_def)
  have "wal_Append (?w\<lparr>wal_writer := ?b\<rparr>) op key val =
      (None, ?w\<lparr>wal_writer := ?b\<lparr>bw_buf := wal_encode (op, key, val)\<rparr>\<rparr>)"
    using wal_Append_fits [of "?w\<lparr>wal_writer := ?b\<rparr>" op key val] assms(1,3)
    by (simp add: bw_healthy_def bw_Available_def)
  then show ?thesis using cl by simp
qed

theorem append_after_close_acked_witness:
  "\<exists>w0 w1 em1 w2. NewWAL (Inr empty_file) = Inr w0 \<and> wal_Close w0 NewEngineMetrics 0 = (None, w1, em1) \<and>
     wal_Append w1 OpPut [1] [2] = (None, w2) \<and> f_data (wal_file w2) = []"
proof -
  obtain w0 where w0: "NewWAL (Inr empty_file) = Inr w0" by (simp add: NewWAL_def)
  then have "bw_healthy (wal_writer w0)" "\<not> wal_stopped w0" "wal_total w0 = []"
    "bw_cap (wal_writer w0) = 4 * 1024 * 1024"
    by (auto simp: NewWAL_def NewWriterSize_def bw_healthy_def healthy_def empty_file_def wal_total_def bw_total_def)
  then show ?thesis
    using w0 append_after_close_acked [of w0 OpPut "[1]" "[2]" NewEngineMetrics 0]
    by (auto simp: length_wal_encode)
qed

end
