(* ===== verification/Bloom.thy ===== *)
theory Bloom
  imports Go_Std Complex_Main
begin

text \<open>
  \<open>internal/engine/bloom.go\<close>: the Bloom filter of an SSTable, its hash, its serialised form.
  The bit array is a list of 64-bit words and all index arithmetic is 64-bit. A zero modulus or an
  index outside the array is a panic. The sizing formulas of \<open>NewBloomFilter\<close> use real
  arithmetic in place of \<open>float64\<close>.
\<close>

unbundle bit_operations_syntax

record BloomFilter =
  bf_bits :: "u64 list"
  bf_k :: u8
  bf_m :: u64

definition NewBloomFilter :: "int \<Rightarrow> real \<Rightarrow> BloomFilter" where
  "NewBloomFilter n0 p0 =
     (let n = (if n0 \<le> 0 then 1 else n0);
          p = (if p0 \<le> 0 \<or> p0 \<ge> 1 then 1 / 100 else p0);
          mFloat = \<lceil>(real_of_int n * ln p) / ln (1 / (2 powr ln 2))\<rceil>;
          m0 = word_of_int mFloat :: u64;
          m = (if m0 = 0 then 64 else m0);
          kFloat = round ((real (unat m) / real_of_int n) * ln 2);
          k0 = word_of_int kFloat :: u8;
          k = (if k0 = 0 then 1 else k0);
          numUint64s = (m + 63) div 64
      in \<lparr>bf_bits = replicate (unat numUint64s) 0, bf_k = k, bf_m = m\<rparr>)"

definition bloom_hash :: "bytes \<Rightarrow> u32 \<times> u32" where
  "bloom_hash key = (let h = fnv64a key in (ucast h, ucast (drop_bit 32 h)))"

definition bloom_idx :: "BloomFilter \<Rightarrow> u32 \<times> u32 \<Rightarrow> nat \<Rightarrow> u64" where
  "bloom_idx bf h i = (ucast (fst h) + word_of_nat i * ucast (snd h)) mod bf_m bf"

text \<open>The loop of \<open>Add\<close> from counter \<open>i\<close> on, with \<open>r\<close> turns left.\<close>

fun bloom_add_loop :: "BloomFilter \<Rightarrow> u32 \<times> u32 \<Rightarrow> nat \<Rightarrow> nat \<Rightarrow> BloomFilter result" where
  "bloom_add_loop bf h i 0 = Inr bf"
| "bloom_add_loop bf h i (Suc r) =
     (if bf_m bf = 0 then Inl (Panic DivideByZero)
      else let idx = bloom_idx bf h i; wordIdx = unat (idx div 64); bitIdx = unat (idx mod 64) in
        if length (bf_bits bf) \<le> wordIdx then Inl (Panic IndexOutOfRange)
        else bloom_add_loop
          (bf\<lparr>bf_bits := (bf_bits bf)[wordIdx := bf_bits bf ! wordIdx OR push_bit bitIdx 1]\<rparr>)
          h (Suc i) r)"

definition bloom_Add :: "BloomFilter \<Rightarrow> bytes \<Rightarrow> BloomFilter result" where
  "bloom_Add bf key = bloom_add_loop bf (bloom_hash key) 0 (unat (bf_k bf))"

fun bloom_contains_loop :: "BloomFilter \<Rightarrow> u32 \<times> u32 \<Rightarrow> nat \<Rightarrow> nat \<Rightarrow> bool result" where
  "bloom_contains_loop bf h i 0 = Inr True"
| "bloom_contains_loop bf h i (Suc r) =
     (if bf_m bf = 0 then Inl (Panic DivideByZero)
      else let idx = bloom_idx bf h i; wordIdx = unat (idx div 64); bitIdx = unat (idx mod 64) in
        if length (bf_bits bf) \<le> wordIdx then Inl (Panic IndexOutOfRange)
        else if bf_bits bf ! wordIdx AND push_bit bitIdx 1 = 0 then Inr False
        else bloom_contains_loop bf h (Suc i) r)"

definition bloom_Contains :: "BloomFilter \<Rightarrow> bytes \<Rightarrow> bool result" where
  "bloom_Contains bf key = bloom_contains_loop bf (bloom_hash key) 0 (unat (bf_k bf))"

definition bloom_Encode :: "BloomFilter \<Rightarrow> bytes" where
  "bloom_Encode bf = bf_k bf # PutUint64 (bf_m bf) @ concat (map PutUint64 (bf_bits bf))"

text \<open>The word loop of \<open>DecodeBloomFilter\<close>, on the bytes from \<open>offset\<close> on.\<close>

fun decode_words :: "nat \<Rightarrow> bytes \<Rightarrow> u64 list result" where
  "decode_words 0 d = Inr []"
| "decode_words (Suc n) d =
     (if length d < 8 then Inl (Failure ''bloom filter data truncated: missing bytes'')
      else case decode_words n (drop 8 d) of
        Inl e \<Rightarrow> Inl e
      | Inr ws \<Rightarrow> Inr (Uint64 (take 8 d) # ws))"

text \<open>\<open>make([]uint64, n)\<close> panics beyond the allocation limit of 2^48 bytes.\<close>

definition DecodeBloomFilter :: "bytes \<Rightarrow> BloomFilter result" where
  "DecodeBloomFilter d =
     (if length d < 9 then Inl (Failure ''bloom filter data too short'')
      else
        let k = d ! 0; m = Uint64 (slice 1 9 d); numUint64s = (m + 63) div 64 in
        if 2 ^ 45 < unat numUint64s then Inl (Panic MakeSliceLen)
        else case decode_words (unat numUint64s) (drop 9 d) of
          Inl e \<Rightarrow> Inl e
        | Inr bits \<Rightarrow> Inr \<lparr>bf_bits = bits, bf_k = k, bf_m = m\<rparr>)"

section \<open>Well-formed filters\<close>

definition bloom_wf :: "BloomFilter \<Rightarrow> bool" where
  "bloom_wf bf \<longleftrightarrow> bf_m bf \<noteq> 0 \<and> unat (bf_m bf) \<le> 2 ^ 50 \<and>
     length (bf_bits bf) = (unat (bf_m bf) + 63) div 64"

definition bit_at :: "BloomFilter \<Rightarrow> nat \<Rightarrow> bool" where
  "bit_at bf j \<longleftrightarrow> bit (bf_bits bf ! (j div 64)) (j mod 64)"

definition probe :: "BloomFilter \<Rightarrow> bytes \<Rightarrow> nat \<Rightarrow> nat" where
  "probe bf key i = unat (bloom_idx bf (bloom_hash key) i)"

text \<open>All probes of a key hit set bits.\<close>

definition bloom_has :: "BloomFilter \<Rightarrow> bytes \<Rightarrow> bool" where
  "bloom_has bf key \<longleftrightarrow> (\<forall>i < unat (bf_k bf). bit_at bf (probe bf key i))"

lemma unat_words64:
  "bloom_wf bf \<Longrightarrow> unat ((bf_m bf + 63) div 64) = (unat (bf_m bf) + 63) div 64"
  by (simp add: bloom_wf_def unat_div unat_add_lem [THEN iffD1])

lemma bloom_idx_lt: "bf_m bf \<noteq> 0 \<Longrightarrow> unat (bloom_idx bf h i) < unat (bf_m bf)"
  unfolding bloom_idx_def unat_mod
  by (rule mod_less_divisor) (simp add: unat_gt_0)

lemma word_index_ok:
  assumes "bloom_wf bf"
  shows "unat (bloom_idx bf h i) div 64 < length (bf_bits bf)"
proof -
  have "unat (bloom_idx bf h i) < unat (bf_m bf)"
    using assms by (intro bloom_idx_lt) (simp add: bloom_wf_def)
  then have "unat (bloom_idx bf h i) div 64 < (unat (bf_m bf) + 63) div 64" by linarith
  then show ?thesis using assms by (simp add: bloom_wf_def)
qed

lemma unat_idx_parts:
  "unat (idx div 64 :: u64) = unat idx div 64" "unat (idx mod 64 :: u64) = unat idx mod 64"
  by (simp_all add: unat_div unat_mod)

lemma and_exp_eq_0: "(w :: u64) AND 2 ^ b = 0 \<longleftrightarrow> \<not> bit w b"
proof -
  have "bit (w AND 2 ^ b) n \<longleftrightarrow> n = b \<and> bit w b" for n
    by (auto simp: bit_simps dest: bit_imp_le_length)
  then have "(\<forall>n. \<not> bit (w AND 2 ^ b) n) \<longleftrightarrow> \<not> bit w b" by blast
  moreover have "w AND 2 ^ b = 0 \<longleftrightarrow> (\<forall>n. \<not> bit (w AND 2 ^ b) n)"
    by (metis bit_0_eq bit_eqI bot_apply bot_bool_def)
  ultimately show ?thesis by simp
qed

lemma bloom_contains_loop_eq:
  assumes "bloom_wf bf"
  shows "bloom_contains_loop bf h i r =
    Inr (\<forall>j. i \<le> j \<and> j < i + r \<longrightarrow> bit_at bf (unat (bloom_idx bf h j)))"
proof (induction r arbitrary: i)
  case (Suc r)
  have split: "(\<forall>j. i \<le> j \<and> j < i + Suc r \<longrightarrow> P j) \<longleftrightarrow> P i \<and> (\<forall>j. Suc i \<le> j \<and> j < Suc i + r \<longrightarrow> P j)" for P
    by (metis Suc_leD add_Suc add_Suc_right less_add_Suc1 not_less_eq_eq le_antisym order_refl)
  show ?case
    unfolding split
    using Suc word_index_ok [OF assms, of h i] assms
    by (simp add: Let_def unat_idx_parts and_exp_eq_0 bit_at_def bloom_wf_def not_le)
qed auto

lemma bloom_Contains_eq: "bloom_wf bf \<Longrightarrow> bloom_Contains bf key = Inr (bloom_has bf key)"
  by (simp add: bloom_Contains_def bloom_contains_loop_eq bloom_has_def probe_def)

text \<open>\<open>Add\<close> sets exactly the probed bits.\<close>

lemma bit_at_set:
  assumes "w < length (bf_bits bf)" and "b < 64" and "j div 64 < length (bf_bits bf)"
  shows "bit_at (bf\<lparr>bf_bits := (bf_bits bf)[w := bf_bits bf ! w OR 2 ^ b]\<rparr>) j
    \<longleftrightarrow> bit_at bf j \<or> j = 64 * w + b"
proof -
  have "j = 64 * w + b \<longleftrightarrow> w = j div 64 \<and> b = j mod 64" using assms(2) by auto
  then show ?thesis
    using assms by (auto simp: bit_at_def nth_list_update bit_or_iff bit_exp_iff)
qed

lemma bloom_add_loop_spec:
  assumes "bloom_wf bf"
  shows "\<exists>bf'. bloom_add_loop bf h i r = Inr bf' \<and> bloom_wf bf' \<and> bf_m bf' = bf_m bf \<and> bf_k bf' = bf_k bf \<and>
    (\<forall>j. j div 64 < length (bf_bits bf) \<longrightarrow> (bit_at bf' j \<longleftrightarrow>
       bit_at bf j \<or> (\<exists>t. i \<le> t \<and> t < i + r \<and> j = unat (bloom_idx bf h t))))"
  using assms
proof (induction r arbitrary: bf i)
  case (Suc r)
  let ?idx = "unat (bloom_idx bf h i)"
  let ?bf = "bf\<lparr>bf_bits := (bf_bits bf)[?idx div 64 := bf_bits bf ! (?idx div 64) OR 2 ^ (?idx mod 64)]\<rparr>"
  have lt: "?idx div 64 < length (bf_bits bf)" by (rule word_index_ok [OF Suc.prems])
  have step: "bloom_add_loop bf h i (Suc r) = bloom_add_loop ?bf h (Suc i) r"
    using lt Suc.prems by (simp add: Let_def unat_idx_parts bloom_wf_def not_le)
  have wf: "bloom_wf ?bf" using Suc.prems by (simp add: bloom_wf_def)
  have idx: "bloom_idx ?bf h = bloom_idx bf h" by (simp add: fun_eq_iff bloom_idx_def)
  have one: "bit_at ?bf j \<longleftrightarrow> bit_at bf j \<or> j = ?idx" if "j div 64 < length (bf_bits bf)" for j
    using bit_at_set [OF lt _ that, of "?idx mod 64"] by simp
  have range: "(\<exists>t. i \<le> t \<and> t < i + Suc r \<and> P t) \<longleftrightarrow> P i \<or> (\<exists>t. Suc i \<le> t \<and> t < Suc i + r \<and> P t)" for P
    by (metis Suc_leD add_Suc add_Suc_right less_add_Suc1 not_less_eq_eq le_antisym order_refl)
  show ?case
    unfolding step range using Suc.IH [OF wf, of "Suc i"] one unfolding idx by auto
qed auto

text \<open>The bits set by the probes of a key.\<close>

definition probed :: "BloomFilter \<Rightarrow> bytes \<Rightarrow> nat \<Rightarrow> bool" where
  "probed bf key j \<longleftrightarrow> (\<exists>i < unat (bf_k bf). j = probe bf key i)"

lemma bloom_has_iff: "bloom_has bf key \<longleftrightarrow> (\<forall>j. probed bf key j \<longrightarrow> bit_at bf j)"
  by (auto simp: bloom_has_def probed_def)

lemma probed_cong: "bf_m bf' = bf_m bf \<Longrightarrow> bf_k bf' = bf_k bf \<Longrightarrow> probed bf' = probed bf"
  by (simp add: fun_eq_iff probed_def probe_def bloom_idx_def)

lemma probed_in_array: "bloom_wf bf \<Longrightarrow> probed bf key j \<Longrightarrow> j div 64 < length (bf_bits bf)"
  by (auto simp: probed_def probe_def word_index_ok)

lemma bloom_Add_spec:
  assumes "bloom_wf bf"
  shows "\<exists>bf'. bloom_Add bf key = Inr bf' \<and> bloom_wf bf' \<and> bf_m bf' = bf_m bf \<and> bf_k bf' = bf_k bf \<and>
    (\<forall>j. j div 64 < length (bf_bits bf) \<longrightarrow> (bit_at bf' j \<longleftrightarrow> bit_at bf j \<or> probed bf key j))"
  using bloom_add_loop_spec [OF assms, of "bloom_hash key" 0 "unat (bf_k bf)"]
  by (simp add: bloom_Add_def probed_def probe_def)

text \<open>Adding a list of keys.\<close>

fun bloom_add_all :: "BloomFilter \<Rightarrow> bytes list \<Rightarrow> BloomFilter result" where
  "bloom_add_all bf [] = Inr bf"
| "bloom_add_all bf (k # ks) =
     (case bloom_Add bf k of Inl e \<Rightarrow> Inl e | Inr bf' \<Rightarrow> bloom_add_all bf' ks)"

lemma bloom_add_all_append:
  "bloom_add_all bf (ks @ ls) = (case bloom_add_all bf ks of Inl e \<Rightarrow> Inl e | Inr bf' \<Rightarrow> bloom_add_all bf' ls)"
  by (induction ks arbitrary: bf) (auto split: sum.splits)

lemma bloom_add_all_spec:
  assumes "bloom_wf bf"
  shows "\<exists>bf'. bloom_add_all bf ks = Inr bf' \<and> bloom_wf bf' \<and> bf_m bf' = bf_m bf \<and> bf_k bf' = bf_k bf \<and>
    (\<forall>j. j div 64 < length (bf_bits bf) \<longrightarrow>
       (bit_at bf' j \<longleftrightarrow> bit_at bf j \<or> (\<exists>k \<in> set ks. probed bf k j)))"
  using assms
proof (induction ks arbitrary: bf)
  case (Cons k ks)
  obtain bf1 where bf1: "bloom_Add bf k = Inr bf1" "bloom_wf bf1" "bf_m bf1 = bf_m bf" "bf_k bf1 = bf_k bf"
    "\<forall>j. j div 64 < length (bf_bits bf) \<longrightarrow> (bit_at bf1 j \<longleftrightarrow> bit_at bf j \<or> probed bf k j)"
    using bloom_Add_spec [OF Cons.prems] by blast
  have "length (bf_bits bf1) = length (bf_bits bf)"
    using bf1(2,3) Cons.prems by (simp add: bloom_wf_def)
  then show ?case
    using Cons.IH [OF bf1(2)] bf1 by (simp add: probed_cong [OF bf1(3,4)])
qed simp

lemma bloom_add_all_has:
  assumes "bloom_wf bf" and "bloom_add_all bf ks = Inr bf'" and "k \<in> set ks"
  shows "bloom_wf bf'" and "bloom_has bf' k"
proof -
  obtain bf2 where bf2: "bloom_add_all bf ks = Inr bf2" "bloom_wf bf2" "bf_m bf2 = bf_m bf" "bf_k bf2 = bf_k bf"
    "\<forall>j. j div 64 < length (bf_bits bf) \<longrightarrow>
       (bit_at bf2 j \<longleftrightarrow> bit_at bf j \<or> (\<exists>k \<in> set ks. probed bf k j))"
    using bloom_add_all_spec [OF assms(1), of ks] by blast
  have eq: "bf' = bf2" using assms(2) bf2(1) by simp
  show "bloom_wf bf'" using bf2(2) eq by simp
  have "bit_at bf2 j" if "probed bf k j" for j
    using that bf2(5) assms(3) probed_in_array [OF assms(1) that] by blast
  then show "bloom_has bf' k"
    using eq probed_cong [OF bf2(3,4)] by (simp add: bloom_has_iff)
qed

section \<open>Serialisation\<close>

lemma length_concat_PutUint64 [simp]: "length (concat (map PutUint64 ws)) = 8 * length ws"
  by (induction ws) auto

lemma length_bloom_Encode [codec]: "length (bloom_Encode bf) = 9 + 8 * length (bf_bits bf)"
  by (simp add: bloom_Encode_def)

lemma decode_words_PutUint64:
  "decode_words (length ws) (concat (map PutUint64 ws) @ rest) = Inr ws"
  by (induction ws) simp_all

lemma bloom_wf_bits:
  assumes "bloom_wf bf"
  shows "length (bf_bits bf) \<le> 2 ^ 44"
proof -
  have "unat (bf_m bf) \<le> 2 ^ 50" and "length (bf_bits bf) = (unat (bf_m bf) + 63) div 64"
    using assms by (simp_all add: bloom_wf_def)
  then have "length (bf_bits bf) \<le> (2 ^ 50 + 63) div 64" by (simp only: div_le_mono add_le_mono1)
  then show ?thesis by simp
qed

lemma DecodeBloomFilter_Encode:
  assumes "bloom_wf bf"
  shows "DecodeBloomFilter (bloom_Encode bf @ rest) = Inr bf"
proof -
  have d: "bloom_Encode bf @ rest = bf_k bf # PutUint64 (bf_m bf) @ concat (map PutUint64 (bf_bits bf)) @ rest"
    by (simp add: bloom_Encode_def)
  have num: "unat ((bf_m bf + 63) div 64) = length (bf_bits bf)"
    using unat_words64 [OF assms] assms by (simp add: bloom_wf_def)
  have small: "length (bf_bits bf) \<le> 2 ^ 45" using bloom_wf_bits [OF assms] by simp
  have m: "slice 1 9 (bloom_Encode bf @ rest) = PutUint64 (bf_m bf)"
    unfolding d by (simp add: slice_def)
  have words: "drop 9 (bloom_Encode bf @ rest) = concat (map PutUint64 (bf_bits bf)) @ rest"
    unfolding d by simp
  have k: "(bloom_Encode bf @ rest) ! 0 = bf_k bf" by (simp add: bloom_Encode_def)
  have len: "\<not> length (bloom_Encode bf @ rest) < 9" by (simp add: length_bloom_Encode)
  show ?thesis
    unfolding DecodeBloomFilter_def Let_def m words k
    using len small by (simp only: num Uint_PutUint_exact decode_words_PutUint64 if_False) simp
qed

section \<open>Sizing\<close>

lemma ln_half_bound: "ln (1 / (2 powr ln 2)) \<le> - (1 / 4 :: real)"
proof -
  have "ln (1 / 2 :: real) \<le> 1 / 2 - 1" by (rule ln_le_minus_one) simp
  then have l: "1 / 2 \<le> ln (2 :: real)" by (simp add: ln_div)
  have "ln (1 / (2 powr ln 2)) = - (ln 2 * ln (2 :: real))"
    by (simp add: ln_div ln_powr)
  moreover have "1 / 2 * (1 / 2) \<le> ln 2 * ln (2 :: real)" using l by (intro mult_mono) auto
  ultimately show ?thesis by simp
qed

text \<open>
  The number of bits asked for is positive and at most \<open>4 n / p\<close>, from \<open>ln x \<le> x - 1\<close> at
  \<open>1/p\<close> and at \<open>1/2\<close>.
\<close>

lemma bloom_size_bounds:
  assumes "0 < n" and "0 < p" and "p < 1"
  shows "0 < (real_of_int n * ln p) / ln (1 / (2 powr ln 2))"
    and "(real_of_int n * ln p) / ln (1 / (2 powr ln 2)) \<le> 4 * real_of_int n / p"
proof -
  let ?d = "- ln (1 / (2 powr ln 2)) :: real"
  have d: "1 / 4 \<le> ?d" using ln_half_bound by simp
  have "ln (1 / p) \<le> 1 / p - 1" using assms by (intro ln_le_minus_one) simp
  then have lp: "- ln p \<le> 1 / p" using assms by (simp add: ln_div)
  have pos: "0 < - ln p" using assms by simp
  have eq: "(real_of_int n * ln p) / ln (1 / (2 powr ln 2)) = (real_of_int n * - ln p) / ?d" by simp
  show "0 < (real_of_int n * ln p) / ln (1 / (2 powr ln 2))"
    unfolding eq using assms pos d by (intro divide_pos_pos mult_pos_pos) auto
  have "(real_of_int n * - ln p) / ?d \<le> (real_of_int n * (1 / p)) / (1 / 4)"
    using assms lp pos d by (intro frac_le mult_left_mono) auto
  then show "(real_of_int n * ln p) / ln (1 / (2 powr ln 2)) \<le> 4 * real_of_int n / p"
    unfolding eq by (simp add: mult.commute)
qed

lemma NewBloomFilter_wf:
  assumes "n \<le> 2 ^ 30" and "p \<le> 0 \<or> 1 \<le> p \<or> 1 / 2 ^ 10 \<le> p"
  shows "bloom_wf (NewBloomFilter n p)"
proof -
  let ?n = "if n \<le> 0 then 1 else n" and ?p = "if p \<le> 0 \<or> 1 \<le> p then 1 / 100 else p"
  let ?x = "(real_of_int ?n * ln ?p) / ln (1 / (2 powr ln 2))"
  have n: "0 < ?n" "?n \<le> 2 ^ 30" using assms(1) by auto
  have p: "0 < ?p" "?p < 1" "1 / 2 ^ 10 \<le> ?p" using assms(2) by auto
  have x: "0 < ?x" "?x \<le> 4 * real_of_int ?n / ?p" by (rule bloom_size_bounds [OF n(1) p(1,2)])+
  have rn: "real_of_int ?n \<le> 2 ^ 30" using n(2) by (metis of_int_le_iff of_int_numeral of_int_power)
  have "4 * real_of_int ?n / ?p \<le> (4 * 2 ^ 30) / (1 / 2 ^ 10)"
    using n(1) p(3) rn by (intro frac_le) auto
  then have "?x \<le> 2 ^ 42" using x(2) by simp
  then have up: "\<lceil>?x\<rceil> \<le> 2 ^ 42" by (simp add: ceiling_le_iff)
  have lo: "0 < \<lceil>?x\<rceil>" using x(1) by simp
  let ?m = "word_of_int \<lceil>?x\<rceil> :: u64"
  have um: "unat ?m = nat \<lceil>?x\<rceil>"
    using up lo by (simp add: unat_eq_nat_uint uint_word_of_int take_bit_int_eq_self)
  have m0: "?m \<noteq> 0" using um lo by (metis nat_0_iff unat_0 not_le)
  have wf: "bloom_wf \<lparr>bf_bits = replicate (unat ((?m + 63) div 64)) 0, bf_k = k, bf_m = ?m\<rparr>" for k
  proof -
    have le: "unat ?m \<le> 2 ^ 50" using um up by simp
    have "unat ((?m + 63) div 64) = (unat ?m + 63) div 64"
      using le by (simp add: unat_div unat_add_lem [THEN iffD1])
    then show ?thesis using le m0 by (simp add: bloom_wf_def)
  qed
  show ?thesis
    unfolding NewBloomFilter_def Let_def using m0 by (simp only: if_False) (rule wf)
qed

text \<open>C17. Bloom filters have no false negatives: a filter built by \<open>NewBloomFilter\<close> takes
  any sequence of keys through \<open>Add\<close> without a panic, and afterwards \<open>Contains\<close> answers
  true for every one of them, both on the filter itself and on the one decoded from its encoding
  (with whatever follows it).\<close>

theorem bloom_no_false_negatives:
  assumes "n \<le> 2 ^ 30" and "p \<le> 0 \<or> 1 \<le> p \<or> 1 / 2 ^ 10 \<le> p"
  shows "\<exists>bf. bloom_add_all (NewBloomFilter n p) ks = Inr bf \<and>
    DecodeBloomFilter (bloom_Encode bf @ rest) = Inr bf \<and>
    (\<forall>k \<in> set ks. bloom_Contains bf k = Inr True)"
proof -
  have wf: "bloom_wf (NewBloomFilter n p)" by (rule NewBloomFilter_wf [OF assms])
  obtain bf where bf: "bloom_add_all (NewBloomFilter n p) ks = Inr bf" "bloom_wf bf"
    using bloom_add_all_spec [OF wf, of ks] by blast
  then show ?thesis
    using DecodeBloomFilter_Encode [of bf rest] bloom_add_all_has(2) [OF wf bf(1)]
    by (auto simp: bloom_Contains_eq)
qed

theorem bloom_no_false_negatives_witness:
  "\<exists>bf. bloom_add_all (NewBloomFilter 4000 (1 / 100)) [[7], [], [7, 9]] = Inr bf \<and>
    DecodeBloomFilter (bloom_Encode bf @ [1, 2]) = Inr bf \<and>
    (\<forall>k \<in> set [[7], [], [7, 9]]. bloom_Contains bf k = Inr True)"
  by (rule bloom_no_false_negatives) simp_all

text \<open>C18. What the filter answers, exactly: starting from an empty array, after adding the keys
  \<open>ks\<close>, \<open>Contains\<close> is true of a key precisely when each of its probes coincides with a
  probe of some added key. So a false positive needs such a collision for every probe.\<close>

theorem bloom_answers_exactly:
  assumes "bloom_wf bf" and "\<forall>w \<in> set (bf_bits bf). w = 0"
  shows "\<exists>bf'. bloom_add_all bf ks = Inr bf' \<and> bloom_Contains bf' key = Inr
    (\<forall>i < unat (bf_k bf). \<exists>k \<in> set ks. \<exists>j < unat (bf_k bf). probe bf key i = probe bf k j)"
proof -
  obtain bf' where bf': "bloom_add_all bf ks = Inr bf'" "bloom_wf bf'" "bf_m bf' = bf_m bf" "bf_k bf' = bf_k bf"
    "\<forall>j. j div 64 < length (bf_bits bf) \<longrightarrow>
       (bit_at bf' j \<longleftrightarrow> bit_at bf j \<or> (\<exists>k \<in> set ks. probed bf k j))"
    using bloom_add_all_spec [OF assms(1), of ks] by blast
  have empty: "\<not> bit_at bf j" if "j div 64 < length (bf_bits bf)" for j
    using bspec [OF assms(2) nth_mem [OF that]] by (simp add: bit_at_def)
  have "bloom_has bf' key \<longleftrightarrow> (\<forall>j. probed bf key j \<longrightarrow> (\<exists>k \<in> set ks. probed bf k j))"
    unfolding bloom_has_iff probed_cong [OF bf'(3,4)] using bf'(5) empty probed_in_array [OF assms(1)] by blast
  also have "\<dots> \<longleftrightarrow>
    (\<forall>i < unat (bf_k bf). \<exists>k \<in> set ks. \<exists>j < unat (bf_k bf). probe bf key i = probe bf k j)"
    by (auto simp: probed_def)
  finally show ?thesis using bf'(1,2) by (simp add: bloom_Contains_eq)
qed

theorem bloom_answers_exactly_witness:
  "\<exists>bf'. bloom_add_all \<lparr>bf_bits = [0, 0], bf_k = 3, bf_m = 100\<rparr> [[7], [8]] = Inr bf' \<and>
    bloom_Contains bf' [9] = Inr
      (\<forall>i < unat (bf_k \<lparr>bf_bits = [0, 0], bf_k = 3, bf_m = 100\<rparr>). \<exists>k \<in> set [[7], [8]].
       \<exists>j < unat (bf_k \<lparr>bf_bits = [0, 0], bf_k = 3, bf_m = 100\<rparr>).
         probe \<lparr>bf_bits = [0, 0], bf_k = 3, bf_m = 100\<rparr> [9] i =
         probe \<lparr>bf_bits = [0, 0], bf_k = 3, bf_m = 100\<rparr> k j)"
  by (rule bloom_answers_exactly [where bf = "\<lparr>bf_bits = [0, 0], bf_k = 3, bf_m = 100\<rparr>"])
    (simp_all add: bloom_wf_def)

end
