(* ===== verification/SSTable.thy ===== *)
theory SSTable
  imports MemTable Bloom Framing Protocol
begin

text \<open>
  \<open>internal/engine/sstable.go\<close>: writing a frozen MemTable to an SSTable file through a
  buffered writer (\<open>FlushMemTable\<close>) and the point lookup (\<open>ReadSSTable\<close>). The layout is
  data entries, sparse index, Bloom filter, 20-byte footer. Offsets are 64-bit words, slice bounds
  and allocation sizes are checked where Go checks them, so corrupt files give errors or panics as
  values. A file is the list of its bytes; the outcome of opening it is an argument.
\<close>

definition SSTableMagic :: u32 where
  "SSTableMagic = 0xF0E57DBB"

definition SSTableFooterSize :: nat where
  "SSTableFooterSize = 20"

record IndexEntry =
  ie_Key :: bytes
  ie_Offset :: u64

section \<open>Writing\<close>

text \<open>The local variables of the writer.\<close>

record sst_writer =
  sw_buf :: bufio_writer
  sw_bf :: BloomFilter
  sw_index :: "IndexEntry list"
  sw_off :: u64
  sw_last :: u64

definition sst_init :: "os_file \<Rightarrow> sst_writer" where
  "sst_init f =
     \<lparr>sw_buf = NewWriterSize f (4 * 1024 * 1024), sw_bf = NewBloomFilter 4000 (1 / 100),
      sw_index = [], sw_off = 0, sw_last = 0\<rparr>"

definition sw_write :: "string \<Rightarrow> bytes \<Rightarrow> sst_writer \<Rightarrow> go_error option \<times> sst_writer" where
  "sw_write msg p sw =
     (let (n, e, w) = bw_Write (sw_buf sw) p in
      (map_option (Wrapped msg) e, sw\<lparr>sw_buf := w\<rparr>))"

text \<open>A write followed by \<open>currentOffset += uint64(n)\<close>.\<close>

definition sw_put :: "string \<Rightarrow> bytes \<Rightarrow> sst_writer \<Rightarrow> go_error option \<times> sst_writer" where
  "sw_put msg p sw =
     (let (n, e, w) = bw_Write (sw_buf sw) p in
      case e of
        Some er \<Rightarrow> (Some (Wrapped msg er), sw\<lparr>sw_buf := w\<rparr>)
      | None \<Rightarrow> (None, sw\<lparr>sw_buf := w, sw_off := sw_off sw + word_of_nat n\<rparr>))"

definition entry_header :: "byte \<Rightarrow> bytes \<Rightarrow> bytes \<Rightarrow> bytes" where
  "entry_header op key val =
     op # PutUint16 (word_of_nat (length key)) @ PutUint32 (word_of_nat (length val))"

definition sst_write_entry :: "sst_writer \<Rightarrow> byte \<Rightarrow> bytes \<Rightarrow> bytes \<Rightarrow> go_error option \<times> sst_writer" where
  "sst_write_entry sw op key val =
     (case bloom_Add (sw_bf sw) key of
        Inl e \<Rightarrow> (Some e, sw)
      | Inr bf \<Rightarrow>
          let sw1 = sw\<lparr>sw_bf := bf\<rparr>;
              sw2 = (if 4096 \<le> sw_off sw1 - sw_last sw1 \<or> sw_off sw1 = 0
                     then sw1\<lparr>sw_index := sw_index sw1 @ [\<lparr>ie_Key = key, ie_Offset = sw_off sw1\<rparr>],
                              sw_last := sw_off sw1\<rparr>
                     else sw1)
          in then_ok (then_ok
               (sw_put ''failed to write header'' (entry_header op key val) sw2)
               (sw_put ''failed to write key'' key))
               (sw_put ''failed to write value'' val))"

partial_function (option) flush_loop ::
  "memtable \<Rightarrow> addr option \<Rightarrow> sst_writer \<Rightarrow> (go_error option \<times> sst_writer) option" where
  "flush_loop m cur sw =
     (case cur of
        None \<Rightarrow> Some (None, sw)
      | Some a \<Rightarrow>
          (case val_of m a of
             None \<Rightarrow> flush_loop m (nxt m 0 a) sw
           | Some val \<Rightarrow>
               (case sst_write_entry sw OpPut (key_of m a) val of
                  (Some e, sw') \<Rightarrow> Some (Some e, sw')
                | (None, sw') \<Rightarrow> flush_loop m (nxt m 0 a) sw')))"

fun sst_write_index :: "IndexEntry list \<Rightarrow> sst_writer \<Rightarrow> go_error option \<times> sst_writer" where
  "sst_write_index [] sw = (None, sw)"
| "sst_write_index (en # ens) sw =
     then_ok (then_ok (then_ok
       (sw_put ''failed to write index header'' (PutUint16 (word_of_nat (length (ie_Key en)))) sw)
       (sw_put ''failed to write index key'' (ie_Key en)))
       (sw_put ''failed to write index offset'' (PutUint64 (ie_Offset en))))
       (sst_write_index ens)"

definition footer_bytes :: "u64 \<Rightarrow> u64 \<Rightarrow> bytes" where
  "footer_bytes indexOff bloomOff = PutUint64 indexOff @ PutUint64 bloomOff @ PutUint32 SSTableMagic"

definition sst_write_trailer :: "sst_writer \<Rightarrow> go_error option \<times> sst_writer" where
  "sst_write_trailer sw =
     (let indexBlockOffset = sw_off sw in
      then_ok (then_ok
        (sw_put ''failed to write index count'' (PutUint32 (word_of_nat (length (sw_index sw)))) sw)
        (\<lambda>sw. sst_write_index (sw_index sw) sw))
        (\<lambda>sw. let bloomFilterOffset = sw_off sw in
           then_ok (sw_write ''failed to write bloom filter'' (bloom_Encode (sw_bf sw)) sw)
             (sw_write ''failed to write footer'' (footer_bytes indexBlockOffset bloomFilterOffset))))"

text \<open>Flush and fsync, with the messages of the caller.\<close>

definition sst_sync :: "string \<Rightarrow> string \<Rightarrow> sst_writer \<Rightarrow> go_error option \<times> sst_writer" where
  "sst_sync msgFlush msgSync sw =
     (let (e, w) = bw_Flush (sw_buf sw) in
      case e of
        Some er \<Rightarrow> (Some (Wrapped msgFlush er), sw\<lparr>sw_buf := w\<rparr>)
      | None \<Rightarrow>
          let (e', f) = file_Sync (bw_file w) in
          (map_option (Wrapped msgSync) e', sw\<lparr>sw_buf := w\<lparr>bw_file := f\<rparr>\<rparr>))"

text \<open>The file a writer leaves behind: \<open>defer file.Close()\<close>.\<close>

definition sst_close :: "sst_writer \<Rightarrow> os_file" where
  "sst_close sw = snd (file_Close (bw_file (sw_buf sw)))"

text \<open>
  \<open>opened\<close> is the outcome of \<open>os.OpenFile\<close> with \<open>O_TRUNC\<close>: the file with the capacity and
  the faults the disk has. \<open>None\<close> would be a traversal that does not end.
\<close>

definition FlushMemTable ::
  "memtable \<Rightarrow> os_file result \<Rightarrow> string \<Rightarrow> disk \<Rightarrow> (go_error option \<times> disk) option" where
  "FlushMemTable mt opened filepath d =
     (case opened of
        Inl e \<Rightarrow> Some (Some (Wrapped ''failed to create SSTable file'' e), d)
      | Inr f \<Rightarrow>
          (case flush_loop mt (nxt mt 0 (mt_head mt)) (sst_init (f\<lparr>f_data := []\<rparr>)) of
             None \<Rightarrow> None
           | Some r \<Rightarrow>
               let (e, sw) = then_ok (then_ok r sst_write_trailer)
                 (sst_sync ''failed to flush SSTable buffers'' ''failed to fsync SSTable'')
               in Some (e, d(filepath \<mapsto> sst_close sw))))"

section \<open>Reading\<close>

text \<open>\<open>make([]byte, n)\<close> fails beyond the allocation limit of 2^48 bytes.\<close>

definition make_len :: "u64 \<Rightarrow> nat result" where
  "make_len n = (if unat n \<le> 2 ^ 48 then Inr (unat n) else Inl (Panic MakeSliceLen))"

text \<open>\<open>make\<close> followed by \<open>ReadAt\<close> at \<open>int64(off)\<close>.\<close>

definition read_section :: "string \<Rightarrow> bytes \<Rightarrow> u64 \<Rightarrow> u64 \<Rightarrow> bytes result" where
  "read_section msg d n off =
     (case make_len n of
        Inl e \<Rightarrow> Inl e
      | Inr len \<Rightarrow>
          (case ReadAt d len (sint off) of Inl e \<Rightarrow> Inl (Wrapped msg e) | Inr b \<Rightarrow> Inr b))"

text \<open>One sparse-index entry at the front of the rest of the index block; \<open>None\<close> is \<open>break\<close>.\<close>

definition parse_index_entry :: "bytes \<Rightarrow> ((bytes \<times> u64) \<times> bytes) option" where
  "parse_index_entry d =
     (if length d < 10 then None
      else let keyLen = unat (Uint16 (take 2 d)) in
        if length d < 2 + keyLen + 8 then None
        else Some ((slice 2 (2 + keyLen) d, Uint64 (slice (2 + keyLen) (2 + keyLen + 8) d)),
                   drop (2 + keyLen + 8) d))"

text \<open>The scan of the sparse index, with \<open>i\<close> turns left: \<open>(blockOffset, nextBlockOffset)\<close>.\<close>

fun index_scan :: "nat \<Rightarrow> bytes \<Rightarrow> bytes \<Rightarrow> u64 \<Rightarrow> u64 \<Rightarrow> u64 \<times> u64" where
  "index_scan 0 d searchKey blockOffset nextBlockOffset = (blockOffset, nextBlockOffset)"
| "index_scan (Suc i) d searchKey blockOffset nextBlockOffset =
     (case parse_index_entry d of
        None \<Rightarrow> (blockOffset, nextBlockOffset)
      | Some ((key, currOffset), rest) \<Rightarrow>
          if bytes_Compare key searchKey \<le> 0
          then index_scan i rest searchKey currOffset nextBlockOffset
          else (blockOffset, currOffset))"

text \<open>One data entry at the front of the rest of the block; \<open>None\<close> ends the scan.\<close>

definition parse_block_entry :: "bytes \<Rightarrow> ((bytes \<times> byte \<times> bytes) \<times> bytes) option" where
  "parse_block_entry d =
     (if length d < 7 then None
      else let kLen = unat (Uint16 (slice 1 3 d)); vLen = unat (Uint32 (slice 3 7 d)) in
        if length d < 7 + kLen + vLen then None
        else Some ((slice 7 (7 + kLen) d, d ! 0, slice (7 + kLen) (7 + kLen + vLen) d),
                   drop (7 + kLen + vLen) d))"

lemma parse_block_entry_shorter: "parse_block_entry d = Some (e, rest) \<Longrightarrow> length rest < length d"
  by (auto simp: parse_block_entry_def Let_def split: if_splits)

function block_scan :: "bytes \<Rightarrow> bytes \<Rightarrow> bytes option" where
  "block_scan d searchKey =
     (case parse_block_entry d of
        None \<Rightarrow> None
      | Some ((currKey, op, currVal), rest) \<Rightarrow>
          let cmp = bytes_Compare currKey searchKey in
          if cmp = 0 then Some currVal
          else if 0 < cmp then None
          else block_scan rest searchKey)"
  by pat_completeness auto
termination
  by (relation "measure (\<lambda>(d, k). length d)") (auto dest: parse_block_entry_shorter)

declare block_scan.simps [simp del]

text \<open>The guard for keys before the first one; \<open>6 + firstKeyLen\<close> is computed in 16 bits.\<close>

definition first_key_after :: "bytes \<Rightarrow> bytes \<Rightarrow> bool result" where
  "first_key_after indexData searchKey =
     (if length indexData < 6 then Inl (Panic SliceBounds)
      else let firstKeyLen = Uint16 (slice 4 6 indexData) in
        case slice_checked 6 (unat (6 + firstKeyLen)) indexData of
          Inl e \<Rightarrow> Inl e
        | Inr firstKey \<Rightarrow> Inr (0 < bytes_Compare firstKey searchKey))"

definition read_block :: "bytes \<Rightarrow> u64 \<Rightarrow> u64 \<Rightarrow> bytes \<Rightarrow> bytes option result" where
  "read_block d blockOffset nextBlockOffset searchKey =
     (case read_section ''failed to read Data Block'' d (nextBlockOffset - blockOffset) blockOffset of
        Inl e \<Rightarrow> Inl e
      | Inr blockData \<Rightarrow> Inr (block_scan blockData searchKey))"

definition read_index :: "bytes \<Rightarrow> u64 \<Rightarrow> u64 \<Rightarrow> bytes \<Rightarrow> bytes option result" where
  "read_index d indexOffset bloomOffset searchKey =
     (case read_section ''failed to read Sparse Index'' d (bloomOffset - indexOffset) indexOffset of
        Inl e \<Rightarrow> Inl e
      | Inr indexData \<Rightarrow>
          if length indexData < 4 then Inl (Failure ''invalid sparse index block size'')
          else
            let numEntries = Uint32 (take 4 indexData);
                (blockOffset, nextBlockOffset) =
                  index_scan (unat numEntries) (drop 4 indexData) searchKey 0 indexOffset
            in if blockOffset = 0 \<and> 0 < numEntries then
                 (case first_key_after indexData searchKey of
                    Inl e \<Rightarrow> Inl e
                  | Inr True \<Rightarrow> Inr None
                  | Inr False \<Rightarrow> read_block d blockOffset nextBlockOffset searchKey)
               else read_block d blockOffset nextBlockOffset searchKey)"

definition sst_lookup :: "bytes \<Rightarrow> bytes \<Rightarrow> bytes option result" where
  "sst_lookup d searchKey =
     (if length d < SSTableFooterSize then Inl (Failure ''SSTable is too small (corrupt)'')
      else
        case ReadAt d SSTableFooterSize (int (length d) - int SSTableFooterSize) of
          Inl e \<Rightarrow> Inl (Wrapped ''failed to read SSTable footer'' e)
        | Inr footer \<Rightarrow>
            if Uint32 (slice 16 20 footer) \<noteq> SSTableMagic
            then Inl (Failure ''invalid SSTable magic number'')
            else
              let indexOffset = Uint64 (slice 0 8 footer); bloomOffset = Uint64 (slice 8 16 footer);
                  bloomLen = word_of_nat (length d) - word_of_nat SSTableFooterSize - bloomOffset
              in case read_section ''failed to read Bloom filter'' d bloomLen bloomOffset of
                   Inl e \<Rightarrow> Inl e
                 | Inr bloomData \<Rightarrow>
                     (case DecodeBloomFilter bloomData of
                        Inl (Panic p) \<Rightarrow> Inl (Panic p)
                      | Inl e \<Rightarrow> Inl (Wrapped ''failed to decode Bloom filter'' e)
                      | Inr bf \<Rightarrow>
                          (case bloom_Contains bf searchKey of
                             Inl e \<Rightarrow> Inl e
                           | Inr False \<Rightarrow> Inr None
                           | Inr True \<Rightarrow> read_index d indexOffset bloomOffset searchKey)))"

definition ReadSSTable :: "disk \<Rightarrow> string \<Rightarrow> bytes \<Rightarrow> bytes option result" where
  "ReadSSTable d filepath searchKey =
     (case d filepath of
        None \<Rightarrow> Inl (Wrapped ''failed to open SSTable for read'' ErrNotExist)
      | Some f \<Rightarrow> sst_lookup (f_data f) searchKey)"

section \<open>The file format\<close>

text \<open>An entry is its key with its opcode and value.\<close>

type_synonym sst_ent = "bytes \<times> byte \<times> bytes"

definition sst_entry :: "sst_ent \<Rightarrow> bytes" where
  "sst_entry e = (case e of (k, op, v) \<Rightarrow> entry_header op k v @ k @ v)"

definition ent_ok :: "sst_ent \<Rightarrow> bool" where
  "ent_ok e = (case e of (k, op, v) \<Rightarrow> length k < 65536 \<and> length v < 4294967296)"

definition index_bytes :: "bytes \<times> u64 \<Rightarrow> bytes" where
  "index_bytes e = (case e of (k, off) \<Rightarrow> PutUint16 (word_of_nat (length k)) @ k @ PutUint64 off)"

definition idx_ok :: "bytes \<times> u64 \<Rightarrow> bool" where
  "idx_ok e \<longleftrightarrow> length (fst e) < 65536"

definition sst_data :: "sst_ent list \<Rightarrow> bytes" where
  "sst_data es = concat (map sst_entry es)"

lemma length_entry_header [simp, codec]: "length (entry_header op k v) = 7"
  by (simp add: entry_header_def)

lemma length_sst_entry [codec]: "length (sst_entry (k, op, v)) = 7 + length k + length v"
  by (simp add: sst_entry_def)

lemma length_index_bytes [codec]: "length (index_bytes (k, off)) = 10 + length k"
  by (simp add: index_bytes_def)

lemma sst_data_simps [simp]:
  "sst_data [] = []" "sst_data (e # es) = sst_entry e @ sst_data es"
  "sst_data (es @ es') = sst_data es @ sst_data es'"
  by (simp_all add: sst_data_def)

lemma parse_block_entry_entry:
  assumes "ent_ok e"
  shows "parse_block_entry (sst_entry e @ rest) = Some (e, rest)"
proof -
  obtain k op v where e: "e = (k, op, v)" by (cases e)
  define x where "x = sst_entry e @ rest"
  have x: "x = op # PutUint16 (word_of_nat (length k)) @ PutUint32 (word_of_nat (length v)) @ k @ v @ rest"
    by (simp add: x_def e sst_entry_def entry_header_def)
  have "slice 1 3 x = PutUint16 (word_of_nat (length k))"
    by (simp add: x slice_def)
  moreover have "slice 3 7 x = PutUint32 (word_of_nat (length v))"
    by (simp add: x slice_def)
  moreover have "x = entry_header op k v @ k @ v @ rest" by (simp add: x_def e sst_entry_def)
  then have "slice 7 (7 + length k) x = k" "slice (7 + length k) (7 + length k + length v) x = v"
    "drop (7 + length k + length v) x = rest" "length x = 7 + length k + length v + length rest"
    by (simp_all add: slice_def)
  moreover have "x ! 0 = op" by (simp add: x)
  ultimately show ?thesis
    unfolding x_def [symmetric] parse_block_entry_def using assms
    by (simp add: e ent_ok_def Let_def del: One_nat_def)
qed

lemma parse_index_entry_bytes:
  assumes "idx_ok e"
  shows "parse_index_entry (index_bytes e @ rest) = Some (e, rest)"
proof -
  obtain k off where e: "e = (k, off)" by (cases e)
  define x where "x = index_bytes e @ rest"
  have x: "x = PutUint16 (word_of_nat (length k)) @ k @ PutUint64 off @ rest"
    by (simp add: x_def e index_bytes_def)
  have "take 2 x = PutUint16 (word_of_nat (length k))" "slice 2 (2 + length k) x = k"
    "slice (2 + length k) (2 + length k + 8) x = PutUint64 off"
    "drop (2 + length k + 8) x = rest" "length x = 2 + length k + 8 + length rest"
    by (simp_all add: x slice_def)
  then show ?thesis
    unfolding x_def [symmetric] parse_index_entry_def using assms
    by (simp add: e idx_ok_def Let_def)
qed

lemma parse_index_entry_shorter: "parse_index_entry d = Some (e, rest) \<Longrightarrow> length rest < length d"
  by (auto simp: parse_index_entry_def Let_def split: if_splits)

interpretation blk: framed sst_entry parse_block_entry ent_ok
  by unfold_locales (simp_all add: parse_block_entry_entry parse_block_entry_shorter)

interpretation idx: framed index_bytes parse_index_entry idx_ok
  by unfold_locales (simp_all add: parse_index_entry_bytes parse_index_entry_shorter)

text \<open>
  The sparse index cuts the entries into blocks: one index entry per block, with the first key of
  the block and the offset of its data.
\<close>

fun index_of :: "nat \<Rightarrow> sst_ent list list \<Rightarrow> (bytes \<times> u64) list" where
  "index_of off [] = []"
| "index_of off (b # bs) = (fst (hd b), word_of_nat off) # index_of (off + length (sst_data b)) bs"

definition blocks_ok :: "sst_ent list list \<Rightarrow> bool" where
  "blocks_ok bs \<longleftrightarrow> (\<forall>b \<in> set bs. b \<noteq> [])"

definition sst_index_block :: "sst_ent list list \<Rightarrow> bytes" where
  "sst_index_block bs =
     PutUint32 (word_of_nat (length bs)) @ concat (map index_bytes (index_of 0 bs))"

definition sst_image :: "sst_ent list list \<Rightarrow> BloomFilter \<Rightarrow> bytes" where
  "sst_image bs bf =
     sst_data (concat bs) @ sst_index_block bs @ bloom_Encode bf @
     footer_bytes (word_of_nat (length (sst_data (concat bs))))
       (word_of_nat (length (sst_data (concat bs)) + length (sst_index_block bs)))"

text \<open>Entries an SSTable can hold: ascending keys, lengths that fit, less than 4 GiB of data.\<close>

definition sst_ok :: "sst_ent list \<Rightarrow> bool" where
  "sst_ok es \<longleftrightarrow> ksorted es \<and> (\<forall>e \<in> set es. ent_ok e) \<and> length (sst_data es) < 4294967296"

text \<open>\<open>d\<close> is an SSTable file that holds the entries \<open>es\<close>.\<close>

definition sst_holds :: "bytes \<Rightarrow> sst_ent list \<Rightarrow> bool" where
  "sst_holds d es \<longleftrightarrow> sst_ok es \<and>
     (\<exists>bs bf. concat bs = es \<and> blocks_ok bs \<and> bloom_wf bf \<and>
       (\<forall>k \<in> fst ` set es. bloom_has bf k) \<and> d = sst_image bs bf)"

section \<open>Lookup\<close>

lemma block_scan_eq:
  assumes "\<forall>e \<in> set es. ent_ok e" and "ksorted es"
  shows "block_scan (sst_data es) key = map_option snd (map_of es key)"
  using assms
proof (induction es)
  case Nil
  show ?case by (simp add: block_scan.simps parse_block_entry_def)
next
  case (Cons e es)
  obtain k op v where e: "e = (k, op, v)" by (cases e)
  have step: "parse_block_entry (sst_entry (k, op, v) @ sst_data es) = Some ((k, op, v), sst_data es)"
    using blk.dec_enc [of e "sst_data es"] Cons.prems by (simp add: e)
  have "map_of es key = None" if "key < k"
    using that Cons.prems(2) by (intro ksorted_map_of_less) (auto simp: e intro: order.strict_trans)
  then show ?case
    using Cons by (subst block_scan.simps) (auto simp: step e go_cmp Let_def not_less order.order_iff_strict)
qed

lemma index_scan_eq:
  assumes "\<forall>b \<in> set bs. length (fst (hd b)) < 65536"
  shows "index_scan (length bs) (concat (map index_bytes (index_of off bs)) @ rest) key b0 n0 =
    (let pre = takeWhile (\<lambda>b. fst (hd b) \<le> key) bs in
      (if pre = [] then b0 else word_of_nat (off + length (sst_data (concat (butlast pre)))),
       if pre = bs then n0 else word_of_nat (off + length (sst_data (concat pre)))))"
  using assms
proof (induction bs arbitrary: off b0)
  case (Cons b bs)
  let ?en = "(fst (hd b), word_of_nat off :: u64)"
  have step: "parse_index_entry (index_bytes ?en @ d) = Some (?en, d)" for d
    using idx.dec_enc [of ?en d] Cons.prems by (simp add: idx_ok_def)
  show ?case
    using Cons by (simp add: step go_cmp Let_def add.assoc)
qed simp

text \<open>The block the index leads to is the only one that can hold the key.\<close>

lemma map_of_block:
  assumes "ksorted (concat bs)" and "blocks_ok bs" and "takeWhile (\<lambda>b. fst (hd b) \<le> key) bs = pre"
  shows "map_of (concat bs) key = (if pre = [] then None else map_of (last pre) key)"
proof -
  let ?P = "\<lambda>b. fst (hd b) \<le> key"
  define post where "post = dropWhile ?P bs"
  have bs: "bs = pre @ post" using takeWhile_dropWhile_id [of ?P bs] assms(3) by (simp add: post_def)
  have hd_post: "post \<noteq> [] \<Longrightarrow> \<not> ?P (hd post)" using hd_dropWhile [of ?P bs] by (simp add: post_def)
  have later: "map_of (concat post) key = None"
  proof (cases post)
    case (Cons b bs')
    have b: "b \<noteq> []" "\<not> fst (hd b) \<le> key"
      using assms(2) hd_post Cons by (auto simp: blocks_ok_def bs)
    have "ksorted (concat post)" using assms(1) by (simp add: bs sorted_wrt_append)
    moreover have "\<forall>x \<in> fst ` set (concat post). key < x"
      using b \<open>ksorted (concat post)\<close> order.strict_trans by (cases b) (fastforce simp: Cons not_le)+
    ultimately show ?thesis by (rule ksorted_map_of_less)
  qed simp
  show ?thesis
  proof (cases pre rule: rev_cases)
    case Nil
    then show ?thesis using later bs by simp
  next
    case (snoc pre' b)
    have "fst (hd b) \<le> key" "b \<noteq> []"
      using assms(2) set_takeWhileD [of b ?P bs] unfolding assms(3) by (auto simp: blocks_ok_def bs snoc)
    moreover have "\<forall>x \<in> fst ` set (concat pre'). x < fst (hd b)"
      using assms(1) \<open>b \<noteq> []\<close> by (auto simp: bs snoc sorted_wrt_append)
    ultimately have "map_of (concat pre') key = None"
      by (force simp: map_of_eq_None_iff)
    then show ?thesis using later by (simp add: bs snoc map_add_def split: option.splits)
  qed
qed

lemma sint_word_of_nat: "n < 2 ^ 63 \<Longrightarrow> sint (word_of_nat n :: u64) = int n"
  using int_word_sint [where 'a = 64, of "int n"] by simp

lemma read_section_at:
  assumes "d = a @ b @ c" and "off = word_of_nat (length a)" and "n = word_of_nat (length b)"
    and "length a < 2 ^ 63" and "length b \<le> 2 ^ 48"
  shows "read_section msg d n off = Inr b"
  using assms by (simp add: read_section_def make_len_def sint_word_of_nat ReadAt_def unat_of_nat)

lemma length_index_of [simp]: "length (index_of off bs) = length bs"
  by (induction bs arbitrary: off) auto

lemma hd_ent_ok: "blocks_ok bs \<Longrightarrow> \<forall>e \<in> set (concat bs). ent_ok e \<Longrightarrow> \<forall>b \<in> set bs. length (fst (hd b)) < 65536"
  by (fastforce simp: blocks_ok_def ent_ok_def neq_Nil_conv)

lemma sst_data_hd: "b \<noteq> [] \<Longrightarrow> 7 + length (fst (hd b)) \<le> length (sst_data b)"
  by (cases b) (auto simp: sst_entry_def split: prod.splits)

text \<open>The index block is at most four times as long as the data, plus its count.\<close>

lemma length_index_entries:
  "blocks_ok bs \<Longrightarrow> length (concat (map index_bytes (index_of off bs))) \<le> 2 * length (sst_data (concat bs))"
proof (induction bs arbitrary: off)
  case (Cons b bs)
  have "7 + length (fst (hd b)) \<le> length (sst_data b)"
    using Cons.prems by (intro sst_data_hd) (simp add: blocks_ok_def)
  moreover have "length (concat (map index_bytes (index_of (off + length (sst_data b)) bs)))
      \<le> 2 * length (sst_data (concat bs))"
    using Cons by (simp add: blocks_ok_def)
  ultimately show ?case by (simp add: length_index_bytes del: length_concat)
qed simp

lemma length_blocks: "blocks_ok bs \<Longrightarrow> length bs \<le> length (sst_data (concat bs))"
proof (induction bs)
  case (Cons b bs)
  have "7 \<le> length (sst_data b)" using sst_data_hd [of b] Cons.prems by (simp add: blocks_ok_def)
  then show ?case using Cons by (simp add: blocks_ok_def)
qed simp

lemma footer_fields:
  "length (footer_bytes i b) = 20" "Uint64 (slice 0 8 (footer_bytes i b)) = i"
  "Uint64 (slice 8 16 (footer_bytes i b)) = b" "Uint32 (slice 16 20 (footer_bytes i b)) = SSTableMagic"
  by (simp_all add: footer_bytes_def slice_def)

text \<open>The last steps of the lookup, on the block that the index scan has chosen.\<close>

lemma read_block_pre:
  assumes ok: "sst_ok (concat bs)" and blocks: "blocks_ok bs"
    and pre: "takeWhile (\<lambda>b. fst (hd b) \<le> key) bs = pre" "pre \<noteq> []"
    and b: "boff = word_of_nat (length (sst_data (concat (butlast pre))))"
    and n: "noff = word_of_nat (length (sst_data (concat pre)))"
  shows "read_block (sst_data (concat bs) @ rest) boff noff key = Inr (map_option snd (map_of (concat bs) key))"
proof -
  obtain post where bs: "bs = pre @ post" using pre(1) by (metis takeWhile_dropWhile_id)
  obtain pre' c where pre': "pre = pre' @ [c]" using pre(2) by (cases pre rule: rev_cases) auto
  have len: "length (sst_data (concat bs)) < 4294967296" using ok by (simp add: sst_ok_def)
  have "read_section ''failed to read Data Block'' (sst_data (concat bs) @ rest) (noff - boff) boff = Inr (sst_data c)"
    by (rule read_section_at [where a = "sst_data (concat pre')" and c = "sst_data (concat post) @ rest"])
      (use len in \<open>simp_all add: bs pre' b n\<close>)
  moreover have "block_scan (sst_data c) key = map_option snd (map_of c key)"
    using ok by (intro block_scan_eq) (auto simp: sst_ok_def bs pre' sorted_wrt_append)
  moreover have "map_of (concat bs) key = map_of c key"
    using map_of_block [OF _ blocks pre(1)] ok pre(2) by (simp add: sst_ok_def pre')
  ultimately show ?thesis by (simp add: read_block_def)
qed

lemma first_key_after_index:
  assumes "bs = b # bs'" and "length (fst (hd b)) < 65530"
  shows "first_key_after (sst_index_block bs) key = Inr (key < fst (hd b))"
proof -
  let ?k = "fst (hd b)"
  define x where "x = sst_index_block bs"
  obtain c r where x: "x = c @ PutUint16 (word_of_nat (length ?k)) @ ?k @ r" and c: "length c = 4"
    by (rule that [of "PutUint32 (word_of_nat (length bs))"])
      (simp_all add: x_def sst_index_block_def assms(1) index_bytes_def)
  have "slice 4 6 x = PutUint16 (word_of_nat (length ?k))" by (simp add: x c slice_def)
  moreover have "unat (6 + word_of_nat (length ?k) :: u16) = 6 + length ?k"
    using assms(2) by (simp add: unat_word_ariths unat_of_nat)
  moreover have "slice_checked 6 (6 + length ?k) x = Inr ?k"
    by (simp add: slice_checked_def x c slice_def)
  moreover have "\<not> length x < 6" by (simp add: x c)
  ultimately show ?thesis unfolding x_def [symmetric] first_key_after_def by (simp add: go_cmp)
qed

lemma sst_index_block_parts:
  "take 4 (sst_index_block bs) = PutUint32 (word_of_nat (length bs))"
  "drop 4 (sst_index_block bs) = concat (map index_bytes (index_of 0 bs))"
  "4 \<le> length (sst_index_block bs)"
  by (simp_all add: sst_index_block_def)

text \<open>The lookup after the index has been scanned: \<open>pre\<close> are the blocks that start at or before the key.\<close>

lemma read_index_step:
  assumes ok: "sst_ok (concat bs)" and blocks: "blocks_ok bs"
    and pre: "takeWhile (\<lambda>b. fst (hd b) \<le> key) bs = pre"
    and boff: "boff = (if pre = [] then 0 else word_of_nat (length (sst_data (concat (butlast pre)))))"
    and noff: "noff = word_of_nat (length (sst_data (concat pre)))"
    and d: "d = sst_data (concat bs) @ sst_index_block bs @ rest"
  shows "read_index d (word_of_nat (length (sst_data (concat bs))))
      (word_of_nat (length (sst_data (concat bs)) + length (sst_index_block bs))) key =
    (if boff = 0 \<and> bs \<noteq> [] then
       (case first_key_after (sst_index_block bs) key of
          Inl e \<Rightarrow> Inl e | Inr True \<Rightarrow> Inr None | Inr False \<Rightarrow> read_block d boff noff key)
     else read_block d boff noff key)" (is "read_index d ?io ?bo key = _")
proof -
  let ?x = "sst_index_block bs" and ?D = "sst_data (concat bs)"
  have len: "length ?D < 4294967296" using ok by (simp add: sst_ok_def)
  have xlen: "length ?x \<le> 4 + 2 * length ?D"
    using length_index_entries [OF blocks, of 0] by (simp add: sst_index_block_def del: length_concat)
  have sec: "read_section ''failed to read Sparse Index'' d (?bo - ?io) ?io = Inr ?x"
    by (rule read_section_at [OF d]) (use len xlen in simp_all)
  have bs32: "length bs < 4294967296" using length_blocks [OF blocks] len by linarith
  have num: "unat (Uint32 (take 4 ?x)) = length bs" "0 < Uint32 (take 4 ?x) \<longleftrightarrow> bs \<noteq> []"
    using bs32 by (simp_all add: sst_index_block_parts word_less_nat_alt)
  have "length ?D = length (sst_data (concat pre))" if "pre = bs" using that by simp
  then have scan: "index_scan (length bs) (drop 4 ?x) key 0 ?io = (boff, noff)"
    using index_scan_eq [OF hd_ent_ok [OF blocks], of 0 "[]" key 0 ?io] ok
    by (simp add: sst_index_block_parts sst_ok_def Let_def pre boff noff)
  have x4: "(length ?x < 4) = False" using sst_index_block_parts(3) [of bs] by simp
  show ?thesis
    by (simp only: read_index_def sec sum.case x4 if_False Let_def num scan prod.case)
qed

lemma read_index_eq:
  assumes ok: "sst_ok (concat bs)" and blocks: "blocks_ok bs"
    and first: "concat bs \<noteq> [] \<Longrightarrow> length (fst (hd (concat bs))) < 65530"
    and d: "d = sst_data (concat bs) @ sst_index_block bs @ rest"
  shows "read_index d (word_of_nat (length (sst_data (concat bs))))
      (word_of_nat (length (sst_data (concat bs)) + length (sst_index_block bs))) key =
    Inr (map_option snd (map_of (concat bs) key))" (is "_ = ?r")
proof -
  define pre where "pre = takeWhile (\<lambda>b. fst (hd b) \<le> key) bs"
  have guard: "first_key_after (sst_index_block bs) key = Inr (pre = [])" if ne: "bs \<noteq> []"
  proof -
    obtain b bs' where b: "bs = b # bs'" using ne by (cases bs) auto
    then have "b \<noteq> []" using blocks by (simp add: blocks_ok_def)
    then have "length (fst (hd b)) < 65530" using first by (simp add: b)
    then show ?thesis using first_key_after_index [OF b] by (auto simp: pre_def b not_le)
  qed
  have block: "read_block d (word_of_nat (length (sst_data (concat (butlast pre)))))
      (word_of_nat (length (sst_data (concat pre)))) key = ?r" if "pre \<noteq> []"
    unfolding d by (rule read_block_pre [OF ok blocks pre_def [symmetric] that refl refl])
  have none: "map_of (concat bs) key = None" if "pre = []"
    using map_of_block [OF _ blocks pre_def [symmetric]] ok that by (simp add: sst_ok_def)
  have empty: "read_block d 0 0 key = Inr None"
    by (simp add: read_block_def read_section_def make_len_def ReadAt_def block_scan.simps parse_block_entry_def)
  show ?thesis
    unfolding read_index_step [OF ok blocks pre_def [symmetric] refl refl d]
    using guard block none empty by (cases "pre = []"; cases "bs = []") (auto split: if_splits)
qed

text \<open>The footer and the Bloom filter of a well-formed file are read back.\<close>

lemma sst_lookup_step:
  assumes ok: "sst_ok es" and es: "concat bs = es" and blocks: "blocks_ok bs" and wf: "bloom_wf bf"
  shows "sst_lookup (sst_image bs bf) key =
    (if bloom_has bf key then read_index (sst_image bs bf) (word_of_nat (length (sst_data es)))
       (word_of_nat (length (sst_data es) + length (sst_index_block bs))) key
     else Inr None)"
proof -
  define d where "d = sst_image bs bf"
  let ?D = "sst_data es" and ?x = "sst_index_block bs" and ?B = "bloom_Encode bf"
  let ?io = "word_of_nat (length ?D) :: u64" and ?bo = "word_of_nat (length ?D + length ?x) :: u64"
  let ?F = "footer_bytes ?io ?bo"
  have img: "d = ?D @ ?x @ ?B @ ?F" by (simp add: d_def sst_image_def es)
  have len: "length d = length ?D + length ?x + length ?B + 20" by (simp add: img footer_fields)
  have dlen: "length ?D < 4294967296" using ok by (simp add: sst_ok_def)
  have xlen: "length ?x \<le> 4 + 2 * length ?D"
    using length_index_entries [OF blocks, of 0] unfolding es by (simp add: sst_index_block_def del: length_concat)
  have blen: "length ?B \<le> 9 + 8 * 2 ^ 44"
    using bloom_wf_bits [OF wf] by (simp add: length_bloom_Encode)
  have foot: "ReadAt d SSTableFooterSize (int (length d) - int SSTableFooterSize) = Inr ?F"
  proof -
    have d: "d = (?D @ ?x @ ?B) @ ?F @ []" by (simp only: img append_assoc append_Nil2)
    show ?thesis unfolding d
      by (rule ReadAt_append) (simp_all only: length_append footer_fields SSTableFooterSize_def, simp_all)
  qed
  have bl: "word_of_nat (length d) - word_of_nat SSTableFooterSize - ?bo = (word_of_nat (length ?B) :: u64)"
    by (simp add: len SSTableFooterSize_def)
  have bloom: "read_section ''failed to read Bloom filter'' d (word_of_nat (length ?B)) ?bo = Inr ?B"
    by (rule read_section_at [where a = "?D @ ?x" and c = ?F]) (use dlen xlen blen in \<open>simp_all add: img\<close>)
  have decode: "DecodeBloomFilter ?B = Inr bf" using DecodeBloomFilter_Encode [OF wf, of "[]"] by simp
  have "\<not> length d < SSTableFooterSize" by (simp add: len SSTableFooterSize_def)
  then show ?thesis
    unfolding d_def [symmetric]
    by (cases "bloom_has bf key")
      (simp_all only: sst_lookup_def foot footer_fields bl bloom decode bloom_Contains_eq [OF wf]
        Let_def if_False if_True sum.case bool.case simp_thms not_True_eq_False)
qed

lemma sst_lookup_eq:
  assumes holds: "sst_holds d es" and first: "es \<noteq> [] \<Longrightarrow> length (fst (hd es)) < 65530"
  shows "sst_lookup d key = Inr (map_option snd (map_of es key))"
proof -
  obtain bs bf where ok: "sst_ok es" and es: "concat bs = es" and blocks: "blocks_ok bs" and wf: "bloom_wf bf"
    and has: "\<forall>k \<in> fst ` set es. bloom_has bf k" and d: "d = sst_image bs bf"
    using holds unfolding sst_holds_def by blast
  have absent: "map_of es key = None" if "\<not> bloom_has bf key"
    using has that by (auto simp: map_of_eq_None_iff)
  have "read_index d (word_of_nat (length (sst_data es)))
      (word_of_nat (length (sst_data es) + length (sst_index_block bs))) key = Inr (map_option snd (map_of es key))"
    using read_index_eq [OF ok [folded es] blocks _ d [unfolded sst_image_def], of key] first by (simp add: es)
  then show ?thesis
    using absent unfolding d sst_lookup_step [OF ok es blocks wf] by simp
qed

text \<open>A first key of 65530 bytes or more overflows the 16-bit bound \<open>6 + firstKeyLen\<close>.\<close>

lemma first_key_after_long:
  assumes "bs = b # bs'" and "65530 \<le> length (fst (hd b))" and "length (fst (hd b)) < 65536"
  shows "first_key_after (sst_index_block bs) key = Inl (Panic SliceBounds)"
proof -
  let ?k = "fst (hd b)"
  define x where "x = sst_index_block bs"
  obtain c r where x: "x = c @ PutUint16 (word_of_nat (length ?k)) @ ?k @ r" and c: "length c = 4"
    by (rule that [of "PutUint32 (word_of_nat (length bs))"])
      (simp_all add: x_def sst_index_block_def assms(1) index_bytes_def)
  have "slice 4 6 x = PutUint16 (word_of_nat (length ?k))" by (simp add: x c slice_def)
  moreover have "unat (6 + word_of_nat (length ?k) :: u16) < 6"
    using assms(2,3) by (simp add: unat_word_ariths unat_of_nat mod_if) linarith
  ultimately show ?thesis
    unfolding x_def [symmetric] first_key_after_def by (simp add: slice_checked_def x c)
qed

lemma sst_lookup_long_first_key:
  assumes holds: "sst_holds d es" and first: "es \<noteq> []" "65530 \<le> length (fst (hd es))"
  shows "sst_lookup d (fst (hd es)) = Inl (Panic SliceBounds)"
proof -
  obtain bs bf where ok: "sst_ok es" and es: "concat bs = es" and blocks: "blocks_ok bs" and wf: "bloom_wf bf"
    and has: "\<forall>k \<in> fst ` set es. bloom_has bf k" and d: "d = sst_image bs bf"
    using holds unfolding sst_holds_def by blast
  obtain b bs' where b: "bs = b # bs'" using es first(1) by (cases bs) auto
  have "b \<noteq> []" using blocks by (simp add: b blocks_ok_def)
  then have hd: "hd es = hd b" by (simp add: b flip: es)
  have "ent_ok (hd es)" using ok hd_in_set [OF first(1)] by (simp add: sst_ok_def)
  then have klen: "length (fst (hd b)) < 65536" by (cases "hd b") (simp add: hd ent_ok_def)
  define key where "key = fst (hd es)"
  let ?pre = "takeWhile (\<lambda>c. fst (hd c) \<le> key) bs"
  have "butlast ?pre = []"
  proof (cases bs')
    case (Cons c cs)
    have "c \<noteq> []" using blocks by (simp add: b Cons blocks_ok_def)
    then have "fst (hd b) < fst (hd c)"
      using ok \<open>b \<noteq> []\<close> by (auto simp: sst_ok_def b Cons sorted_wrt_append simp flip: es)
    then show ?thesis by (simp add: b Cons hd key_def)
  qed (simp add: b)
  then have zero: "0 = (if ?pre = [] then 0 else word_of_nat (length (sst_data (concat (butlast ?pre)))) :: u64)"
    by simp
  have guard: "first_key_after (sst_index_block bs) key = Inl (Panic SliceBounds)"
    using first_key_after_long [OF b _ klen] first(2) by (simp add: hd)
  have "bs \<noteq> []" by (simp add: b)
  then have "read_index d (word_of_nat (length (sst_data (concat bs))))
      (word_of_nat (length (sst_data (concat bs)) + length (sst_index_block bs))) key = Inl (Panic SliceBounds)"
    unfolding read_index_step [OF ok [folded es] blocks refl zero refl d [unfolded sst_image_def]] guard
    by simp
  moreover have "bloom_has bf key" using has first(1) by (simp add: key_def)
  ultimately show ?thesis
    unfolding key_def [symmetric] d sst_lookup_step [OF ok es blocks wf] by (simp add: es)
qed

section \<open>What the writer produces\<close>

lemma sw_put_ok:
  assumes "sw_put msg p sw = (None, sw')" and "bw_err (sw_buf sw) = None"
  obtains w where "sw' = sw\<lparr>sw_buf := w, sw_off := sw_off sw + word_of_nat (length p)\<rparr>"
    and "bw_err w = None" and "bw_total w = bw_total (sw_buf sw) @ p"
proof -
  obtain n e w where wr: "bw_Write (sw_buf sw) p = (n, e, w)" by (cases "bw_Write (sw_buf sw) p")
  have e: "e = None" using assms(1) wr by (auto simp: sw_put_def split: option.splits)
  note ok = bw_Write_ok [OF wr [unfolded e] assms(2)]
  show ?thesis
    by (rule that [of w]) (use assms(1) wr e ok(1) ok(2,3) in \<open>auto simp: sw_put_def\<close>)
qed

lemma sw_write_ok:
  assumes "sw_write msg p sw = (None, sw')" and "bw_err (sw_buf sw) = None"
  obtains w where "sw' = sw\<lparr>sw_buf := w\<rparr>" and "bw_err w = None" and "bw_total w = bw_total (sw_buf sw) @ p"
proof -
  obtain n e w where wr: "bw_Write (sw_buf sw) p = (n, e, w)" by (cases "bw_Write (sw_buf sw) p")
  have e: "e = None" using assms(1) wr by (auto simp: sw_write_def)
  show ?thesis
    by (rule that [of w]) (use assms(1) wr e bw_Write_ok(2,3) [OF wr [unfolded e] assms(2)] in \<open>auto simp: sw_write_def\<close>)
qed

lemma sw_put_healthy:
  assumes "bw_healthy (sw_buf sw)"
  shows "\<exists>w. sw_put msg p sw = (None, sw\<lparr>sw_buf := w, sw_off := sw_off sw + word_of_nat (length p)\<rparr>) \<and> bw_healthy w"
proof -
  obtain w where "bw_Write (sw_buf sw) p = (length p, None, w)" "bw_healthy w"
    by (rule bw_Write_healthy [OF assms])
  then show ?thesis by (auto simp: sw_put_def)
qed

lemma sw_write_healthy:
  assumes "bw_healthy (sw_buf sw)"
  shows "\<exists>w. sw_write msg p sw = (None, sw\<lparr>sw_buf := w\<rparr>) \<and> bw_healthy w"
proof -
  obtain w where "bw_Write (sw_buf sw) p = (length p, None, w)" "bw_healthy w"
    by (rule bw_Write_healthy [OF assms])
  then show ?thesis by (auto simp: sw_write_def)
qed

text \<open>The state of a writer that has taken the entries \<open>es\<close>, in blocks \<open>bs\<close>.\<close>

definition sw_inv :: "sst_writer \<Rightarrow> sst_ent list \<Rightarrow> sst_ent list list \<Rightarrow> bool" where
  "sw_inv sw es bs \<longleftrightarrow>
     bw_err (sw_buf sw) = None \<and> bw_total (sw_buf sw) = sst_data es \<and> concat bs = es \<and> blocks_ok bs \<and>
     map (\<lambda>en. (ie_Key en, ie_Offset en)) (sw_index sw) = index_of 0 bs \<and>
     sw_off sw = word_of_nat (length (sst_data es)) \<and>
     bloom_wf (sw_bf sw) \<and> (\<forall>k \<in> fst ` set es. bloom_has (sw_bf sw) k)"

lemma index_of_snoc:
  "index_of off (bs @ [b]) = index_of off bs @ [(fst (hd b), word_of_nat (off + length (sst_data (concat bs))))]"
  by (induction bs arbitrary: off) (simp_all add: add.assoc)

lemma index_of_extend:
  "b \<noteq> [] \<Longrightarrow> index_of off (bs @ [b @ [e]]) = index_of off (bs @ [b])"
  by (simp add: index_of_snoc)

lemma sst_data_Nil_iff [simp]: "sst_data es = [] \<longleftrightarrow> es = []"
  by (cases es) (auto simp: sst_entry_def entry_header_def)

lemma bloom_Add_has:
  assumes "bloom_wf bf" and "bloom_Add bf key = Inr bf'"
  shows "bloom_wf bf'" and "bloom_has bf' key" and "bloom_has bf k \<Longrightarrow> bloom_has bf' k"
proof -
  obtain bf2 where bf2: "bloom_Add bf key = Inr bf2" "bloom_wf bf2" "bf_m bf2 = bf_m bf" "bf_k bf2 = bf_k bf"
    "\<forall>j. j div 64 < length (bf_bits bf) \<longrightarrow> (bit_at bf2 j \<longleftrightarrow> bit_at bf j \<or> probed bf key j)"
    using bloom_Add_spec [OF assms(1)] by blast
  have eq: "bf' = bf2" using assms(2) bf2(1) by simp
  note pr = probed_cong [OF bf2(3,4)]
  show "bloom_wf bf'" using bf2(2) eq by simp
  show "bloom_has bf' key"
    unfolding eq bloom_has_iff pr using bf2(5) probed_in_array [OF assms(1)] by blast
  show "bloom_has bf k \<Longrightarrow> bloom_has bf' k"
    unfolding eq bloom_has_iff pr using bf2(5) probed_in_array [OF assms(1)] by blast
qed

lemma sst_write_entry_ok:
  assumes inv: "sw_inv sw es bs" and wr: "sst_write_entry sw op k v = (None, sw')"
    and small: "length (sst_data es) < 4294967296"
  shows "\<exists>bs'. sw_inv sw' (es @ [(k, op, v)]) bs'"
proof -
  obtain bf where bf: "bloom_Add (sw_bf sw) k = Inr bf"
    using wr by (auto simp: sst_write_entry_def split: sum.splits)
  let ?new = "4096 \<le> sw_off sw - sw_last sw \<or> sw_off sw = 0"
  define sw2 where "sw2 = (if ?new
    then (sw\<lparr>sw_bf := bf\<rparr>)\<lparr>sw_index := sw_index sw @ [\<lparr>ie_Key = k, ie_Offset = sw_off sw\<rparr>], sw_last := sw_off sw\<rparr>
    else sw\<lparr>sw_bf := bf\<rparr>)"
  define bs' where "bs' = (if ?new then bs @ [[(k, op, v)]] else butlast bs @ [last bs @ [(k, op, v)]])"
  obtain s1 s2 where puts: "sw_put ''failed to write header'' (entry_header op k v) sw2 = (None, s1)"
    "sw_put ''failed to write key'' k s1 = (None, s2)" "sw_put ''failed to write value'' v s2 = (None, sw')"
    using wr by (auto simp: sst_write_entry_def bf Let_def then_ok_None sw2_def cong: if_cong)
  have e0: "bw_err (sw_buf sw2) = None" using inv by (simp add: sw2_def sw_inv_def)
  obtain w1 where w1: "s1 = sw2\<lparr>sw_buf := w1, sw_off := sw_off sw2 + word_of_nat (length (entry_header op k v))\<rparr>"
    "bw_err w1 = None" "bw_total w1 = bw_total (sw_buf sw2) @ entry_header op k v"
    by (rule sw_put_ok [OF puts(1) e0])
  obtain w2 where w2: "s2 = s1\<lparr>sw_buf := w2, sw_off := sw_off s1 + word_of_nat (length k)\<rparr>"
    "bw_err w2 = None" "bw_total w2 = bw_total (sw_buf s1) @ k"
    by (rule sw_put_ok [OF puts(2)]) (use w1 in simp_all)
  obtain w3 where w3: "sw' = s2\<lparr>sw_buf := w3, sw_off := sw_off s2 + word_of_nat (length v)\<rparr>"
    "bw_err w3 = None" "bw_total w3 = bw_total (sw_buf s2) @ v"
    by (rule sw_put_ok [OF puts(3)]) (use w2 in simp_all)
  have old: "bs \<noteq> []" if "\<not> ?new"
    using that inv by (auto simp: sw_inv_def)
  have last_bs: "bs = butlast bs @ [last bs]" "last bs \<noteq> []" if "\<not> ?new"
    using old [OF that] inv by (auto simp: sw_inv_def blocks_ok_def)
  have cat: "concat bs' = es @ [(k, op, v)]"
  proof (cases ?new)
    case True
    then show ?thesis using inv by (auto simp: bs'_def sw_inv_def)
  next
    case False
    have "concat bs = concat (butlast bs @ [last bs])" using last_bs(1) [OF False] by simp
    then show ?thesis using inv False by (simp add: bs'_def sw_inv_def)
  qed
  have blocks: "blocks_ok bs'"
    using inv by (auto simp: bs'_def sw_inv_def blocks_ok_def dest: in_set_butlastD)
  have index: "map (\<lambda>en. (ie_Key en, ie_Offset en)) (sw_index sw') = index_of 0 bs'"
  proof (cases ?new)
    case True
    then show ?thesis using inv by (auto simp: w1 w2 w3 sw2_def bs'_def sw_inv_def index_of_snoc)
  next
    case False
    then have "index_of 0 bs' = index_of 0 bs"
      using index_of_extend [of "last bs" 0 "butlast bs"] last_bs [OF False] by (simp add: bs'_def)
    then show ?thesis using inv False by (simp add: w1 w2 w3 sw2_def sw_inv_def)
  qed
  have total: "bw_total (sw_buf sw') = sst_data (es @ [(k, op, v)])"
    using inv by (simp add: w1 w2 w3 sw2_def sw_inv_def sst_entry_def)
  have off: "sw_off sw' = word_of_nat (length (sst_data (es @ [(k, op, v)])))"
    using inv by (simp add: w1 w2 w3 sw2_def sw_inv_def length_sst_entry)
  have bf': "sw_bf sw' = bf" by (simp add: w1 w2 w3 sw2_def)
  have bloom: "bloom_wf bf" "\<forall>x \<in> fst ` set (es @ [(k, op, v)]). bloom_has bf x"
    using inv bloom_Add_has [OF _ bf] by (auto simp: sw_inv_def)
  have err: "bw_err (sw_buf sw') = None" by (simp add: w3)
  show ?thesis
    unfolding sw_inv_def bf' using err total cat blocks index off bloom by blast
qed

lemma sst_write_entry_healthy:
  assumes "bw_healthy (sw_buf sw)" and "bloom_wf (sw_bf sw)"
  shows "\<exists>sw'. sst_write_entry sw op k v = (None, sw') \<and> bw_healthy (sw_buf sw') \<and> bloom_wf (sw_bf sw')"
proof -
  obtain bf where bf: "bloom_Add (sw_bf sw) k = Inr bf" "bloom_wf bf"
    using bloom_Add_spec [OF assms(2)] by blast
  have three: "\<exists>s'. then_ok (then_ok (sw_put a x s) (sw_put b y)) (sw_put c z) = (None, s') \<and>
      bw_healthy (sw_buf s') \<and> sw_bf s' = sw_bf s" if h: "bw_healthy (sw_buf s)" for a b c x y z s
  proof -
    obtain s1 where s1: "sw_put a x s = (None, s1)" "bw_healthy (sw_buf s1)" "sw_bf s1 = sw_bf s"
      using sw_put_healthy [OF h, of a x] by auto
    obtain s2 where s2: "sw_put b y s1 = (None, s2)" "bw_healthy (sw_buf s2)" "sw_bf s2 = sw_bf s"
      using sw_put_healthy [OF s1(2), of b y] s1(3) by auto
    show ?thesis using sw_put_healthy [OF s2(2), of c z] s1(1) s2 by auto
  qed
  show ?thesis
    using three [where s = "if 4096 \<le> sw_off sw - sw_last sw \<or> sw_off sw = 0
      then (sw\<lparr>sw_bf := bf\<rparr>)\<lparr>sw_index := sw_index sw @ [\<lparr>ie_Key = k, ie_Offset = sw_off sw\<rparr>], sw_last := sw_off sw\<rparr>
      else sw\<lparr>sw_bf := bf\<rparr>", of "''failed to write header''" "entry_header op k v"
      "''failed to write key''" k "''failed to write value''" v] assms(1) bf
    by (auto simp: sst_write_entry_def Let_def split: if_splits)
qed

text \<open>Writing a list of entries.\<close>

fun sst_write_all :: "sst_writer \<Rightarrow> sst_ent list \<Rightarrow> go_error option \<times> sst_writer" where
  "sst_write_all sw [] = (None, sw)"
| "sst_write_all sw ((k, op, v) # es) =
     then_ok (sst_write_entry sw op k v) (\<lambda>sw'. sst_write_all sw' es)"

lemma sst_write_all_append:
  "sst_write_all sw (es @ es') = then_ok (sst_write_all sw es) (\<lambda>sw'. sst_write_all sw' es')"
proof (induction es arbitrary: sw)
  case (Cons e es)
  obtain k op v where e: "e = (k, op, v)" by (cases e)
  obtain er s where "sst_write_entry sw op k v = (er, s)" by (cases "sst_write_entry sw op k v")
  then show ?case using Cons by (cases er) (simp_all add: e)
qed simp

lemma sst_write_all_ok:
  assumes "sw_inv sw es bs" and "sst_write_all sw es' = (None, sw')"
    and "length (sst_data (es @ es')) < 4294967296"
  shows "\<exists>bs'. sw_inv sw' (es @ es') bs'"
  using assms
proof (induction es' arbitrary: sw es bs)
  case (Cons e es')
  obtain k op v where e: "e = (k, op, v)" by (cases e)
  obtain s where s: "sst_write_entry sw op k v = (None, s)" "sst_write_all s es' = (None, sw')"
    using Cons.prems(2) by (auto simp: e then_ok_None)
  obtain bs1 where "sw_inv s (es @ [e]) bs1"
    using sst_write_entry_ok [OF Cons.prems(1) s(1)] Cons.prems(3) by (auto simp: e)
  then show ?case using Cons.IH [OF _ s(2), of "es @ [e]" bs1] Cons.prems(3) by simp
qed auto

lemma sst_write_all_healthy:
  assumes "bw_healthy (sw_buf sw)" and "bloom_wf (sw_bf sw)"
  shows "\<exists>sw'. sst_write_all sw es = (None, sw') \<and> bw_healthy (sw_buf sw') \<and> bloom_wf (sw_bf sw')"
  using assms
proof (induction es arbitrary: sw)
  case (Cons e es)
  obtain k op v where e: "e = (k, op, v)" by (cases e)
  obtain s where "sst_write_entry sw op k v = (None, s)" "bw_healthy (sw_buf s)" "bloom_wf (sw_bf s)"
    using sst_write_entry_healthy [OF Cons.prems] by blast
  then show ?case using Cons.IH [of s] by (simp add: e)
qed simp

subsection \<open>Index, filter and footer\<close>

abbreviation ie_pair :: "IndexEntry \<Rightarrow> bytes \<times> u64" where
  "ie_pair en \<equiv> (ie_Key en, ie_Offset en)"

lemma sst_write_index_ok:
  assumes "sst_write_index ens sw = (None, sw')" and "bw_err (sw_buf sw) = None"
  shows "\<exists>w. sw' = sw\<lparr>sw_buf := w,
      sw_off := sw_off sw + word_of_nat (length (concat (map index_bytes (map ie_pair ens))))\<rparr> \<and>
    bw_err w = None \<and> bw_total w = bw_total (sw_buf sw) @ concat (map index_bytes (map ie_pair ens))"
  using assms
proof (induction ens arbitrary: sw)
  case (Cons en ens)
  let ?h = "PutUint16 (word_of_nat (length (ie_Key en)))" and ?o = "PutUint64 (ie_Offset en)"
  obtain s1 s2 s3 where puts: "sw_put ''failed to write index header'' ?h sw = (None, s1)"
    "sw_put ''failed to write index key'' (ie_Key en) s1 = (None, s2)"
    "sw_put ''failed to write index offset'' ?o s2 = (None, s3)" "sst_write_index ens s3 = (None, sw')"
    using Cons.prems(1) by (auto simp: then_ok_None)
  obtain w1 where w1: "s1 = sw\<lparr>sw_buf := w1, sw_off := sw_off sw + word_of_nat (length ?h)\<rparr>"
    "bw_err w1 = None" "bw_total w1 = bw_total (sw_buf sw) @ ?h"
    by (rule sw_put_ok [OF puts(1) Cons.prems(2)])
  obtain w2 where w2: "s2 = s1\<lparr>sw_buf := w2, sw_off := sw_off s1 + word_of_nat (length (ie_Key en))\<rparr>"
    "bw_err w2 = None" "bw_total w2 = bw_total (sw_buf s1) @ ie_Key en"
    by (rule sw_put_ok [OF puts(2)]) (use w1 in simp_all)
  obtain w3 where w3: "s3 = s2\<lparr>sw_buf := w3, sw_off := sw_off s2 + word_of_nat (length ?o)\<rparr>"
    "bw_err w3 = None" "bw_total w3 = bw_total (sw_buf s2) @ ?o"
    by (rule sw_put_ok [OF puts(3)]) (use w2 in simp_all)
  have "bw_err (sw_buf s3) = None" by (simp add: w3)
  then show ?case
    using Cons.IH [OF puts(4)] by (auto simp: w1 w2 w3 index_bytes_def add_ac)
qed (auto intro: exI [of _ "sw_buf sw'"])

lemma sst_write_trailer_ok:
  assumes inv: "sw_inv sw es bs" and wr: "sst_write_trailer sw = (None, sw')"
  shows "bw_err (sw_buf sw') = None" and "bw_total (sw_buf sw') = sst_image bs (sw_bf sw)"
proof -
  let ?c = "PutUint32 (word_of_nat (length (sw_index sw)))"
  obtain s1 s2 s3 where steps: "sw_put ''failed to write index count'' ?c sw = (None, s1)"
    "sst_write_index (sw_index s1) s1 = (None, s2)"
    "sw_write ''failed to write bloom filter'' (bloom_Encode (sw_bf s2)) s2 = (None, s3)"
    "sw_write ''failed to write footer'' (footer_bytes (sw_off sw) (sw_off s2)) s3 = (None, sw')"
    using wr by (auto simp: sst_write_trailer_def then_ok_None Let_def)
  have inv': "bw_err (sw_buf sw) = None" "bw_total (sw_buf sw) = sst_data (concat bs)"
    "map ie_pair (sw_index sw) = index_of 0 bs" "sw_off sw = word_of_nat (length (sst_data (concat bs)))"
    using inv by (simp_all add: sw_inv_def)
  then have num: "length (sw_index sw) = length bs"
    by (metis length_index_of length_map)
  obtain w1 where w1: "s1 = sw\<lparr>sw_buf := w1, sw_off := sw_off sw + word_of_nat (length ?c)\<rparr>"
    "bw_err w1 = None" "bw_total w1 = bw_total (sw_buf sw) @ ?c"
    by (rule sw_put_ok [OF steps(1) inv'(1)])
  let ?x = "concat (map index_bytes (index_of 0 bs))"
  obtain w2 where w2: "s2 = s1\<lparr>sw_buf := w2, sw_off := sw_off s1 + word_of_nat (length ?x)\<rparr>"
    "bw_err w2 = None" "bw_total w2 = bw_total w1 @ ?x"
    using sst_write_index_ok [OF steps(2)] by (auto simp: w1 inv'(3))
  have off: "sw_off s2 = word_of_nat (length (sst_data (concat bs)) + length (sst_index_block bs))"
    by (simp add: w1 w2 inv' sst_index_block_def del: length_concat)
  obtain w3 where w3: "s3 = s2\<lparr>sw_buf := w3\<rparr>" "bw_err w3 = None" "bw_total w3 = bw_total w2 @ bloom_Encode (sw_bf s2)"
    by (rule sw_write_ok [OF steps(3)]) (simp_all add: w2)
  obtain w4 where w4: "sw' = s3\<lparr>sw_buf := w4\<rparr>" "bw_err w4 = None"
    "bw_total w4 = bw_total w3 @ footer_bytes (sw_off sw) (sw_off s2)"
    by (rule sw_write_ok [OF steps(4)]) (simp_all add: w3)
  show "bw_err (sw_buf sw') = None" by (simp add: w4)
  have bf: "sw_bf s2 = sw_bf sw" by (simp add: w1 w2)
  have "bw_total (sw_buf sw') = bw_total w4" by (simp add: w4(1))
  then show "bw_total (sw_buf sw') = sst_image bs (sw_bf sw)"
    by (simp only: w4(3) w3(3) w2(3) w1(3) inv'(2,4) off bf num sst_image_def sst_index_block_def append_assoc)
qed

lemma sst_sync_ok:
  assumes "sst_sync a b sw = (None, sw')"
  shows "f_data (sst_close sw') = bw_total (sw_buf sw)" and "f_durable (sst_close sw') = bw_total (sw_buf sw)"
proof -
  obtain w where fl: "bw_Flush (sw_buf sw) = (None, w)"
    using assms by (auto simp: sst_sync_def split: option.splits prod.splits)
  note fl' = bw_Flush_ok [OF fl]
  show "f_data (sst_close sw') = bw_total (sw_buf sw)" "f_durable (sst_close sw') = bw_total (sw_buf sw)"
    using assms fl fl'(4)
    by (auto simp: sst_sync_def sst_close_def file_Sync_def file_Close_def split: if_splits)
qed

lemma sst_write_index_healthy:
  assumes "bw_healthy (sw_buf sw)"
  shows "\<exists>sw'. sst_write_index ens sw = (None, sw') \<and> bw_healthy (sw_buf sw')"
  using assms
proof (induction ens arbitrary: sw)
  case (Cons en ens)
  obtain s1 where s1: "sw_put ''failed to write index header'' (PutUint16 (word_of_nat (length (ie_Key en)))) sw = (None, s1)"
    "bw_healthy (sw_buf s1)"
    using sw_put_healthy [OF Cons.prems] by fastforce
  obtain s2 where s2: "sw_put ''failed to write index key'' (ie_Key en) s1 = (None, s2)" "bw_healthy (sw_buf s2)"
    using sw_put_healthy [OF s1(2)] by fastforce
  obtain s3 where "sw_put ''failed to write index offset'' (PutUint64 (ie_Offset en)) s2 = (None, s3)" "bw_healthy (sw_buf s3)"
    using sw_put_healthy [OF s2(2)] by fastforce
  then show ?case using Cons.IH [of s3] s1 s2 by simp
qed simp

lemma sst_trailer_healthy:
  assumes "bw_healthy (sw_buf sw)"
  shows "\<exists>sw'. then_ok (sst_write_trailer sw) (sst_sync a b) = (None, sw')"
proof -
  obtain s1 where s1: "sw_put ''failed to write index count'' (PutUint32 (word_of_nat (length (sw_index sw)))) sw = (None, s1)"
    "bw_healthy (sw_buf s1)"
    using sw_put_healthy [OF assms] by fastforce
  obtain s2 where s2: "sst_write_index (sw_index s1) s1 = (None, s2)" "bw_healthy (sw_buf s2)"
    using sst_write_index_healthy [OF s1(2)] by blast
  obtain s3 where s3: "sw_write ''failed to write bloom filter'' (bloom_Encode (sw_bf s2)) s2 = (None, s3)" "bw_healthy (sw_buf s3)"
    using sw_write_healthy [OF s2(2)] by fastforce
  obtain s4 where s4: "sw_write ''failed to write footer'' (footer_bytes (sw_off sw) (sw_off s2)) s3 = (None, s4)"
    "bw_healthy (sw_buf s4)"
    using sw_write_healthy [OF s3(2)] by fastforce
  have "sst_write_trailer sw = (None, s4)"
    by (simp add: sst_write_trailer_def Let_def s1 s2 s3 s4)
  moreover have "\<exists>sw'. sst_sync a b s4 = (None, sw')"
    using s4(2) by (simp add: sst_sync_def bw_Flush_healthy bw_healthy_def healthy_def file_Sync_def)
  ultimately show ?thesis by simp
qed

subsection \<open>FlushMemTable\<close>

lemma sw_inv_init:
  assumes "f_data f = []"
  shows "sw_inv (sst_init f) [] []"
proof -
  have "bloom_wf (NewBloomFilter 4000 (1 / 100))" by (rule NewBloomFilter_wf) simp_all
  then show ?thesis
    using assms by (simp add: sw_inv_def sst_init_def NewWriterSize_def bw_total_def blocks_ok_def)
qed

lemma sw_init_healthy:
  assumes "healthy f"
  shows "bw_healthy (sw_buf (sst_init f))" and "bloom_wf (sw_bf (sst_init f))"
  using assms NewBloomFilter_wf [of 4000 "1 / 100"]
  by (simp_all add: sst_init_def NewWriterSize_def bw_healthy_def)

text \<open>A whole file, written and closed.\<close>

lemma sst_written:
  assumes "then_ok (then_ok (sst_write_all (sst_init f) es) sst_write_trailer) (sst_sync a b) = (None, sw)"
    and "f_data f = []" and "sst_ok es"
  shows "sst_holds (f_data (sst_close sw)) es" and "f_durable (sst_close sw) = f_data (sst_close sw)"
proof -
  obtain s1 s2 where s: "sst_write_all (sst_init f) es = (None, s1)" "sst_write_trailer s1 = (None, s2)"
    "sst_sync a b s2 = (None, sw)"
    using assms(1) by (auto simp: then_ok_None)
  obtain bs where inv: "sw_inv s1 es bs"
    using sst_write_all_ok [OF sw_inv_init [OF assms(2)] s(1)] assms(3) by (auto simp: sst_ok_def)
  have img: "bw_total (sw_buf s2) = sst_image bs (sw_bf s1)"
    by (rule sst_write_trailer_ok [OF inv s(2)])
  show "sst_holds (f_data (sst_close sw)) es"
    unfolding sst_sync_ok(1) [OF s(3)] img sst_holds_def
    using inv assms(3) unfolding sw_inv_def by blast
  show "f_durable (sst_close sw) = f_data (sst_close sw)"
    using sst_sync_ok [OF s(3)] by simp
qed

lemma sst_written_healthy:
  assumes "healthy f"
  shows "\<exists>sw. then_ok (then_ok (sst_write_all (sst_init f) es) sst_write_trailer) (sst_sync a b) = (None, sw)"
proof -
  obtain s where "sst_write_all (sst_init f) es = (None, s)" "bw_healthy (sw_buf s)"
    using sst_write_all_healthy [OF sw_init_healthy [OF assms]] by blast
  then show ?thesis using sst_trailer_healthy [of s] by simp
qed

definition put_ent :: "bytes \<times> bytes \<Rightarrow> sst_ent" where
  "put_ent e = (fst e, OpPut, snd e)"

lemma flush_loop_eq:
  assumes "chain m 0 p xs" and "\<forall>a \<in> set xs. val_of m a \<noteq> None"
  shows "flush_loop m p sw = Some (sst_write_all sw (map (put_ent \<circ> entry_of m) xs))"
  using assms
proof (induction xs arbitrary: p sw)
  case Nil
  then show ?case by (simp add: flush_loop.simps)
next
  case (Cons a xs)
  then obtain v where v: "val_of m a = Some v" by auto
  have p: "p = Some a" using Cons.prems by simp
  obtain e s where es: "sst_write_entry sw OpPut (key_of m a) v = (e, s)"
    by (cases "sst_write_entry sw OpPut (key_of m a) v")
  show ?case
    using Cons es v by (subst flush_loop.simps) (cases e; simp add: p entry_of_def put_ent_def comp_def)
qed

lemma mt_rel_flush:
  assumes "mt_rel m es"
  shows "flush_loop m (nxt m 0 (mt_head m)) sw = Some (sst_write_all sw (map put_ent es))"
proof -
  obtain xs ht where inv: "skip_inv m xs ht" and es: "es = map (entry_of m) xs"
    using assms by (auto simp: mt_rel_def)
  have "chain m 0 (nxt m 0 (mt_head m)) (filter (\<lambda>a. 0 < ht a) xs)"
    using inv unfolding skip_inv_def by (metis maxLevel_def zero_less_numeral)
  moreover have "filter (\<lambda>a. 0 < ht a) xs = xs" "\<forall>a \<in> set xs. val_of m a \<noteq> None"
    using inv by (simp_all add: skip_inv_def)
  ultimately show ?thesis using flush_loop_eq [of m _ xs] by (simp add: es)
qed

lemma FlushMemTable_spec:
  assumes rel: "mt_rel m es" and ok: "sst_ok (map put_ent es)"
  shows "\<exists>e d'. FlushMemTable m (Inr f) path d = Some (e, d') \<and>
    (\<forall>p. p \<noteq> path \<longrightarrow> d' p = d p) \<and> (healthy f \<longrightarrow> e = None) \<and>
    (e = None \<longrightarrow> (\<exists>g. d' path = Some g \<and> sst_holds (f_data g) (map put_ent es) \<and> f_durable g = f_data g))"
proof -
  let ?f = "f\<lparr>f_data := []\<rparr>"
  obtain e sw where w: "then_ok (then_ok (sst_write_all (sst_init ?f) (map put_ent es)) sst_write_trailer)
      (sst_sync ''failed to flush SSTable buffers'' ''failed to fsync SSTable'') = (e, sw)"
    by fastforce
  have run: "FlushMemTable m (Inr f) path d = Some (e, d(path \<mapsto> sst_close sw))"
    by (simp add: FlushMemTable_def mt_rel_flush [OF rel] w)
  have "e = None" if "healthy f"
    using sst_written_healthy [of ?f "map put_ent es" "''failed to flush SSTable buffers''" "''failed to fsync SSTable''"]
      that w by (auto simp: healthy_def)
  moreover have "sst_holds (f_data (sst_close sw)) (map put_ent es) \<and> f_durable (sst_close sw) = f_data (sst_close sw)"
    if "e = None"
    using sst_written [OF w [unfolded that] _ ok] by simp
  ultimately show ?thesis using run by auto
qed

section \<open>Properties\<close>

text \<open>A fresh file on a working disk.\<close>

definition empty_os_file :: os_file where
  "empty_os_file = \<lparr>f_data = [], f_durable = [], f_quota = None, f_syncfail = False, f_closed = False\<rparr>"

lemma keys_apply_ops: "fst ` set (apply_ops es ops) = fst ` set es \<union> fst ` set ops"
proof (induction ops arbitrary: es)
  case (Cons op ops)
  then show ?case by (cases op) simp
qed simp

lemma sst_ok_put_ents:
  assumes "\<forall>(k, v) \<in> set ops. length k < 65530"
    and "length (sst_data (map put_ent (apply_ops [] ops))) < 4294967296"
  shows "sst_ok (map put_ent (apply_ops [] ops))"
    and "\<forall>e \<in> set (map put_ent (apply_ops [] ops)). length (fst e) < 65530"
proof -
  let ?es = "apply_ops [] ops"
  have keys: "length k < 65530" if "(k, v) \<in> set ?es" for k v
  proof -
    have "k \<in> fst ` set ?es" using that by force
    then have "k \<in> fst ` set ops" by (simp add: keys_apply_ops)
    then show ?thesis using assms(1) by auto
  qed
  have vals: "length v < 4294967296" if "(k, v) \<in> set ?es" for k v
  proof -
    have "put_ent (k, v) \<in> set (map put_ent ?es)" using that by simp
    then obtain xs ys where "map put_ent ?es = xs @ put_ent (k, v) # ys" by (meson split_list)
    then show ?thesis using assms(2) by (simp add: put_ent_def sst_entry_def)
  qed
  have "ksorted (map put_ent ?es)"
    using ksorted_apply_ops [of "[]" ops] by (simp add: put_ent_def comp_def)
  moreover have "ent_ok (put_ent e)" if "e \<in> set ?es" for e
    using keys [of "fst e" "snd e"] vals [of "fst e" "snd e"] that by (simp add: put_ent_def ent_ok_def)
  ultimately show "sst_ok (map put_ent ?es)" using assms(2) by (simp add: sst_ok_def)
  show "\<forall>e \<in> set (map put_ent ?es). length (fst e) < 65530"
    using keys by (auto simp: put_ent_def)
qed

lemma map_of_put_ent: "map_option snd (map_of (map put_ent es) k) = map_of es k"
  by (induction es) (auto simp: put_ent_def)

text \<open>C16. Flushing and reading back: take any sequence of writes to a new MemTable, freeze it and
  flush it. The flush traverses the table and ends; on a disk that takes all writes it reports no
  error; and whenever it reports no error the file on disk is synced, and \<open>ReadSSTable\<close> returns
  for every key the last value written, or absent. Other files are untouched. Keys are shorter than
  65530 bytes and the data section is below 4 GiB.\<close>

theorem flush_then_read:
  assumes "\<forall>(k, v) \<in> set ops. length k < 65530"
    and "length (sst_data (map put_ent (apply_ops [] ops))) < 4294967296"
  shows "\<exists>m e d'. put_seq mt_Put r NewMemTable ops = Some m \<and>
    FlushMemTable (mt_Freeze m) (Inr f) path d = Some (e, d') \<and>
    (\<forall>p. p \<noteq> path \<longrightarrow> d' p = d p) \<and> (healthy f \<longrightarrow> e = None) \<and>
    (e = None \<longrightarrow> (\<exists>g. d' path = Some g \<and> f_durable g = f_data g) \<and>
      (\<forall>key. ReadSSTable d' path key = Inr (map_of (rev ops) key)))"
proof -
  let ?es = "apply_ops [] ops"
  note ok = sst_ok_put_ents [OF assms]
  obtain m where m: "put_seq mt_Put r NewMemTable ops = Some m" "mt_rel m ?es"
    using mt.put_seq_rel [OF mt_rel_New, of r ops] by auto
  obtain e d' where d': "FlushMemTable (mt_Freeze m) (Inr f) path d = Some (e, d')"
    "\<forall>p. p \<noteq> path \<longrightarrow> d' p = d p" "healthy f \<longrightarrow> e = None"
    "e = None \<longrightarrow> (\<exists>g. d' path = Some g \<and> sst_holds (f_data g) (map put_ent ?es) \<and> f_durable g = f_data g)"
    using FlushMemTable_spec [OF mt_Freeze_rel [OF m(2)] ok(1), of f path d] by blast
  have first: "length (fst (hd (map put_ent ?es))) < 65530" if "map put_ent ?es \<noteq> []"
    using ok(2) hd_in_set [OF that] by blast
  have read: "ReadSSTable d' path key = Inr (map_of (rev ops) key)"
    if "d' path = Some g" "sst_holds (f_data g) (map put_ent ?es)" for key g
    using sst_lookup_eq [OF that(2) first] that(1)
    by (simp add: ReadSSTable_def map_of_put_ent map_of_apply_ops)
  show ?thesis using m(1) d' read by blast
qed

theorem flush_then_read_witness:
  "\<exists>m e d'. put_seq mt_Put (\<lambda>i j. False) NewMemTable [([2], [20]), ([1], [10]), ([2], [])] = Some m \<and>
    FlushMemTable (mt_Freeze m) (Inr empty_os_file) ''a'' (\<lambda>p. None) = Some (e, d') \<and>
    (\<forall>p. p \<noteq> ''a'' \<longrightarrow> d' p = (\<lambda>p. None) p) \<and> (healthy empty_os_file \<longrightarrow> e = None) \<and>
    (e = None \<longrightarrow> (\<exists>g. d' ''a'' = Some g \<and> f_durable g = f_data g) \<and>
      (\<forall>key. ReadSSTable d' ''a'' key = Inr (map_of (rev [([2], [20]), ([1], [10]), ([2], [])]) key)))"
  by (rule flush_then_read) (simp_all add: put_ent_def sst_entry_def)

text \<open>C19. A file whose first key has 65530 bytes or more cannot be read: the bound
  \<open>6 + firstKeyLen\<close> of \<open>ReadSSTable\<close> is computed in 16 bits and wraps, and looking up that
  very key panics, although the file is well-formed and holds it.\<close>

theorem read_panics_on_long_first_key:
  assumes "d path = Some f" and "sst_holds (f_data f) ((k, op, v) # es)" and "65530 \<le> length k"
  shows "ReadSSTable d path k = Inl (Panic SliceBounds)"
  using sst_lookup_long_first_key [OF assms(2)] assms(1,3) by (simp add: ReadSSTable_def)

lemma sst_holds_exists:
  assumes "sst_ok es"
  shows "\<exists>d. sst_holds d es"
proof -
  obtain sw where "then_ok (then_ok (sst_write_all (sst_init empty_os_file) es) sst_write_trailer)
      (sst_sync ''a'' ''b'') = (None, sw)"
    using sst_written_healthy [of empty_os_file] by (fastforce simp: healthy_def empty_os_file_def)
  then show ?thesis using sst_written(1) [OF _ _ assms] by (fastforce simp: empty_os_file_def)
qed

theorem read_panics_on_long_first_key_witness:
  "\<exists>f. sst_holds (f_data f) [(replicate 65530 7, OpPut, [1])] \<and>
     ReadSSTable (\<lambda>p. Some f) ''a'' (replicate 65530 7) = Inl (Panic SliceBounds)"
proof -
  let ?es = "[(replicate 65530 7, OpPut, [1])] :: sst_ent list"
  have "sst_ok ?es" by (simp add: sst_ok_def ent_ok_def sst_entry_def)
  then obtain d where d: "sst_holds d ?es" using sst_holds_exists by blast
  let ?f = "empty_os_file\<lparr>f_data := d\<rparr>"
  have "ReadSSTable (\<lambda>p. Some ?f) ''a'' (replicate 65530 7) = Inl (Panic SliceBounds)"
    by (rule read_panics_on_long_first_key [OF refl, where op = OpPut and v = "[1]" and es = "[]"]) (use d in simp_all)
  then show ?thesis using d by (intro exI [of _ ?f]) simp
qed

end
