(* ===== verification/SSTIter.thy ===== *)
theory SSTIter
  imports SSTable
begin

text \<open>
  \<open>internal/engine/iterator.go\<close>: the sequential iterator over the data entries of an SSTable,
  and the \<open>for it.Next()\<close> loop of its clients. The iterator keeps the contents of the file it
  has opened (an open file survives its unlinking). The locale \<open>entry_stream\<close> is what a client
  relies on: an iterator stands before a list of entries and \<open>Next\<close> yields them one by one.
\<close>

record SSTIterator =
  it_file :: bytes
  it_dataEnd :: int
  it_current :: int
  it_key :: bytes
  it_val :: bytes
  it_op :: byte
  it_fileSeq :: u64
  it_err :: "go_error option"
  it_closed :: bool

definition NewSSTIterator :: "disk \<Rightarrow> string \<Rightarrow> u64 \<Rightarrow> SSTIterator result" where
  "NewSSTIterator d filepath fileSeq =
     (case d filepath of
        None \<Rightarrow> Inl (Wrapped ''failed to open SSTable iterator'' ErrNotExist)
      | Some f \<Rightarrow>
          let b = f_data f in
          if length b < SSTableFooterSize then Inl (Failure ''SSTable is too small (corrupt)'')
          else case ReadAt b SSTableFooterSize (int (length b) - int SSTableFooterSize) of
              Inl e \<Rightarrow> Inl (Wrapped ''failed to read SSTable footer in iterator'' e)
            | Inr footer \<Rightarrow>
                if Uint32 (slice 16 20 footer) \<noteq> SSTableMagic
                then Inl (Failure ''invalid SSTable magic number in iterator'')
                else Inr \<lparr>it_file = b, it_dataEnd = sint (Uint64 (slice 0 8 footer)), it_current = 0,
                          it_key = [], it_val = [], it_op = 0, it_fileSeq = fileSeq,
                          it_err = None, it_closed = False\<rparr>)"

definition it_ReadAt :: "SSTIterator \<Rightarrow> nat \<Rightarrow> int \<Rightarrow> bytes result" where
  "it_ReadAt it n off = (if it_closed it then Inl ErrFileClosed else ReadAt (it_file it) n off)"

text \<open>
  \<open>ReadAt\<close> reports an error whenever it reads less than asked for, so the tests \<open>n < 7\<close> and
  \<open>n < keyLen+valLen\<close> that follow it never succeed.
\<close>

definition it_Next :: "SSTIterator \<Rightarrow> bool \<times> SSTIterator" where
  "it_Next it =
     (if it_dataEnd it \<le> it_current it then (False, it)
      else case it_ReadAt it 7 (it_current it) of
          Inl e \<Rightarrow> (False, it\<lparr>it_err := Some (Wrapped ''iterator failed to read block header'' e)\<rparr>)
        | Inr header \<Rightarrow>
            let it1 = it\<lparr>it_op := header ! 0\<rparr>;
                keyLen = unat (Uint16 (slice 1 3 header));
                valLen = unat (Uint32 (slice 3 7 header))
            in case it_ReadAt it1 (keyLen + valLen) (it_current it1 + 7) of
                 Inl e \<Rightarrow> (False, it1\<lparr>it_err := Some (Wrapped ''iterator failed to read block payload'' e)\<rparr>)
               | Inr payload \<Rightarrow>
                   (True, it1\<lparr>it_key := take keyLen payload, it_val := drop keyLen payload,
                              it_current := it_current it1 + int (7 + keyLen + valLen)\<rparr>))"

definition it_Close :: "SSTIterator \<Rightarrow> SSTIterator" where
  "it_Close it = it\<lparr>it_closed := True\<rparr>"

text \<open>
  The loop \<open>for it.Next() { body }\<close>; the body returns the new state and whether to go on
  (\<open>break\<close> is \<open>False\<close>). It returns the state and the iterator at the end.
\<close>

partial_function (option) for_Next ::
  "('i \<Rightarrow> bool \<times> 'i) \<Rightarrow> ('i \<Rightarrow> 's \<Rightarrow> 's \<times> bool) \<Rightarrow> 'i \<Rightarrow> 's \<Rightarrow> ('s \<times> 'i) option" where
  "for_Next nx body it s =
     (let (ok, it') = nx it in
      if \<not> ok then Some (s, it')
      else let (s', go) = body it' s in
        if go then for_Next nx body it' s' else Some (s', it'))"

declare for_Next.simps [code]

section \<open>Entry streams\<close>

text \<open>What a loop with \<open>break\<close> does to the entries it meets.\<close>

fun fold_break :: "('a \<Rightarrow> 's \<Rightarrow> 's \<times> bool) \<Rightarrow> 'a list \<Rightarrow> 's \<Rightarrow> 's" where
  "fold_break f [] s = s"
| "fold_break f (x # xs) s = (case f x s of (s', True) \<Rightarrow> fold_break f xs s' | (s', False) \<Rightarrow> s')"

locale entry_stream =
  fixes nx :: "'i \<Rightarrow> bool \<times> 'i"
    and item :: "'i \<Rightarrow> 'a"
    and before :: "'i \<Rightarrow> 'a list \<Rightarrow> bool"
    and err :: "'i \<Rightarrow> go_error option"
  assumes next_Nil: "before it [] \<Longrightarrow> nx it = (False, it)"
    and next_Cons: "before it (x # xs) \<Longrightarrow> \<exists>it'. nx it = (True, it') \<and> item it' = x \<and> before it' xs \<and> err it' = err it"
begin

lemma for_Next_at:
  assumes "before it xs" and "\<And>it s. body it s = f (item it) s"
  shows "\<exists>it'. for_Next nx body it s = Some (fold_break f xs s, it') \<and> err it' = err it"
  using assms(1)
proof (induction xs arbitrary: it s)
  case Nil
  then show ?case by (simp add: for_Next.simps next_Nil)
next
  case (Cons x xs)
  obtain it' where it': "nx it = (True, it')" "item it' = x" "before it' xs" "err it' = err it"
    using next_Cons [OF Cons.prems] by blast
  obtain s' go where fx: "f x s = (s', go)" by (cases "f x s")
  then have body: "body it' s = (s', go)" by (simp add: assms(2) it'(2))
  show ?case
  proof (cases go)
    case True
    then show ?thesis
      using Cons.IH [OF it'(3), of s'] it' fx by (subst for_Next.simps) (simp add: body)
  next
    case False
    then show ?thesis using it' fx by (subst for_Next.simps) (simp add: body)
  qed
qed

end

section \<open>The iterator as a stream\<close>

definition it_item :: "SSTIterator \<Rightarrow> sst_ent" where
  "it_item it = (it_key it, it_op it, it_val it)"

definition it_at :: "SSTIterator \<Rightarrow> sst_ent list \<Rightarrow> bool" where
  "it_at it es \<longleftrightarrow> \<not> it_closed it \<and> (\<forall>e \<in> set es. ent_ok e) \<and>
     (\<exists>dn rest. it_file it = sst_data dn @ sst_data es @ rest \<and>
        it_current it = int (length (sst_data dn)) \<and>
        it_dataEnd it = int (length (sst_data dn) + length (sst_data es)))"

lemma it_Next_Nil: "it_at it [] \<Longrightarrow> it_Next it = (False, it)"
  by (auto simp: it_at_def it_Next_def)

lemma it_Next_Cons:
  assumes "it_at it (e # es)"
  shows "\<exists>it'. it_Next it = (True, it') \<and> it_item it' = e \<and> it_at it' es \<and> it_err it' = it_err it \<and>
    it_fileSeq it' = it_fileSeq it"
proof -
  obtain k op v where e: "e = (k, op, v)" by (cases e)
  obtain dn rest where f: "it_file it = sst_data dn @ entry_header op k v @ k @ v @ sst_data es @ rest"
    and cur: "it_current it = int (length (sst_data dn))"
    and dend: "it_dataEnd it = int (length (sst_data dn) + length (sst_data (e # es)))"
    using assms by (auto simp: it_at_def e sst_entry_def)
  have ok: "length k < 65536" "length v < 4294967296" "\<not> it_closed it" "\<forall>e \<in> set es. ent_ok e"
    using assms by (auto simp: it_at_def e ent_ok_def)
  let ?h = "entry_header op k v"
  have h: "?h ! 0 = op" "slice 1 3 ?h = PutUint16 (word_of_nat (length k))" "slice 3 7 ?h = PutUint32 (word_of_nat (length v))"
    by (simp_all add: entry_header_def slice_def)
  have r1: "ReadAt (it_file it) 7 (it_current it) = Inr ?h"
    unfolding f by (rule ReadAt_append) (simp_all add: cur)
  have "it_file it = (sst_data dn @ ?h) @ (k @ v) @ sst_data es @ rest" by (simp add: f)
  then have r2: "ReadAt (it_file it) (length k + length v) (it_current it + 7) = Inr (k @ v)"
    by (metis ReadAt_append cur int_ops(3) length_append length_entry_header of_nat_add of_nat_numeral)
  define it' where "it' = it\<lparr>it_op := op, it_key := k, it_val := v,
    it_current := it_current it + int (7 + length k + length v)\<rparr>"
  have "\<not> it_dataEnd it \<le> it_current it"
    by (simp add: dend cur e sst_entry_def)
  then have nxt: "it_Next it = (True, it')"
    using ok by (simp add: it_Next_def it_ReadAt_def r1 r2 h Let_def it'_def del: One_nat_def)
  have "it_at it' es"
    unfolding it_at_def
  proof (intro conjI exI)
    show "it_file it' = sst_data (dn @ [e]) @ sst_data es @ rest" by (simp add: it'_def f e sst_entry_def)
  qed (use ok in \<open>simp_all add: it'_def cur dend e length_sst_entry\<close>)
  then show ?thesis using nxt by (simp add: it_item_def it'_def e)
qed

interpretation sst: entry_stream it_Next it_item it_at it_err
  by unfold_locales (auto simp: it_Next_Nil dest: it_Next_Cons)

lemma NewSSTIterator_holds:
  assumes "d path = Some f" and "sst_holds (f_data f) es"
  shows "\<exists>it. NewSSTIterator d path seq = Inr it \<and> it_at it es \<and> it_err it = None \<and> it_fileSeq it = seq"
proof -
  obtain bs bf where ok: "sst_ok es" and es: "concat bs = es" and b: "f_data f = sst_image bs bf"
    using assms(2) unfolding sst_holds_def by blast
  let ?F = "footer_bytes (word_of_nat (length (sst_data es))) (word_of_nat (length (sst_data es) + length (sst_index_block bs)))"
  define a where "a = sst_index_block bs @ bloom_Encode bf"
  have img: "f_data f = (sst_data es @ a) @ ?F @ []" by (simp add: b sst_image_def es a_def)
  have foot: "ReadAt (f_data f) SSTableFooterSize (int (length (f_data f)) - int SSTableFooterSize) = Inr ?F"
    unfolding img
    by (rule ReadAt_append) (simp_all only: length_append footer_fields SSTableFooterSize_def, simp_all)
  have "length (sst_data es) < 4294967296" using ok by (simp add: sst_ok_def)
  then have dend: "sint (word_of_nat (length (sst_data es)) :: u64) = int (length (sst_data es))"
    by (intro sint_word_of_nat) simp
  define it where "it = \<lparr>it_file = f_data f, it_dataEnd = int (length (sst_data es)), it_current = 0,
    it_key = [], it_val = [], it_op = 0, it_fileSeq = seq, it_err = None, it_closed = False\<rparr>"
  have "\<not> length (f_data f) < SSTableFooterSize" by (simp add: img footer_fields SSTableFooterSize_def)
  then have "NewSSTIterator d path seq = Inr it"
    by (simp add: NewSSTIterator_def assms(1) foot footer_fields dend it_def Let_def flip: slice_0)
  moreover have "it_at it es"
    unfolding it_at_def
  proof (intro conjI exI)
    show "it_file it = sst_data [] @ sst_data es @ (a @ ?F)" by (simp add: it_def img)
  qed (use ok in \<open>simp_all add: it_def sst_ok_def\<close>)
  ultimately show ?thesis by (auto simp: it_def)
qed

section \<open>The point lookup against a full scan\<close>

text \<open>The reference: walk the whole file with the iterator and stop at the first entry with the key.\<close>

definition linear_body :: "bytes \<Rightarrow> SSTIterator \<Rightarrow> bytes option \<Rightarrow> bytes option \<times> bool" where
  "linear_body key it acc = (if fst (it_item it) = key then (Some (snd (snd (it_item it))), False) else (acc, True))"

definition linear_get :: "disk \<Rightarrow> string \<Rightarrow> bytes \<Rightarrow> bytes option result option" where
  "linear_get d path key =
     (case NewSSTIterator d path 0 of
        Inl e \<Rightarrow> Some (Inl e)
      | Inr it \<Rightarrow>
          (case for_Next it_Next (linear_body key) it None of
             None \<Rightarrow> None
           | Some (r, it') \<Rightarrow> Some (case it_err it' of Some e \<Rightarrow> Inl e | None \<Rightarrow> Inr r)))"

lemma fold_linear:
  "fold_break (\<lambda>e acc. if fst e = key then (Some (snd (snd e)), False) else (acc, True)) es None = map_option snd (map_of es key)"
  by (induction es) auto

lemma linear_get_holds:
  assumes "d path = Some f" and "sst_holds (f_data f) es"
  shows "linear_get d path key = Some (Inr (map_option snd (map_of es key)))"
proof -
  let ?f = "\<lambda>e acc. if fst e = key then (Some (snd (snd e)), False) else (acc, True)"
  obtain it where it: "NewSSTIterator d path 0 = Inr it" "it_at it es" "it_err it = None"
    using NewSSTIterator_holds [of d path f es 0] assms by blast
  obtain it' where "for_Next it_Next (linear_body key) it None = Some (fold_break ?f es None, it')" "it_err it' = None"
    using sst.for_Next_at [OF it(2), of "linear_body key" ?f None] it(3) by (auto simp: linear_body_def)
  then show ?thesis by (simp add: linear_get_def it(1) fold_linear)
qed

text \<open>C28. The fast lookup is a full scan. On every file that a flush without error has written, \<open>ReadSSTable\<close>
  with its Bloom filter, sparse index and single-block read returns for every key exactly what walking
  the whole file with the iterator returns.\<close>

theorem lookup_equals_full_scan:
  assumes "\<forall>(k, v) \<in> set ops. length k < 65530"
    and "length (sst_data (map put_ent (apply_ops [] ops))) < 4294967296"
    and "put_seq mt_Put r NewMemTable ops = Some m" and "FlushMemTable (mt_Freeze m) (Inr f) path d = Some (None, d')"
  shows "linear_get d' path key = Some (ReadSSTable d' path key)"
proof -
  let ?es = "apply_ops [] ops"
  note ok = sst_ok_put_ents [OF assms(1,2)]
  have "mt_rel m ?es" using mt.put_seq_rel [OF mt_rel_New, of r ops] assms(3) by auto
  then obtain g where g: "d' path = Some g" "sst_holds (f_data g) (map put_ent ?es)"
    using FlushMemTable_spec [OF mt_Freeze_rel ok(1), of m f path d] assms(4) by auto
  have "length (fst (hd (map put_ent ?es))) < 65530" if "map put_ent ?es \<noteq> []" using ok(2) hd_in_set [OF that] by blast
  then show ?thesis using sst_lookup_eq [OF g(2)] g(1) linear_get_holds [of d' path g "map put_ent ?es" key] g(2) by (simp add: ReadSSTable_def)
qed

theorem lookup_equals_full_scan_witness:
  "\<exists>m d'. put_seq mt_Put (\<lambda>i j. False) NewMemTable [([2], [20]), ([1], [10])] = Some m \<and>
    FlushMemTable (mt_Freeze m) (Inr empty_os_file) ''a'' (\<lambda>p. None) = Some (None, d') \<and>
    linear_get d' ''a'' [1] = Some (ReadSSTable d' ''a'' [1])"
proof -
  let ?ops = "[([2], [20]), ([1], [10])] :: (bytes \<times> bytes) list"
  have ok: "\<forall>(k, v) \<in> set ?ops. length k < 65530" "length (sst_data (map put_ent (apply_ops [] ?ops))) < 4294967296"
    by (simp_all add: sst_data_def put_ent_def sst_entry_def)
  obtain m where m: "put_seq mt_Put (\<lambda>i j. False) NewMemTable ?ops = Some m" "mt_rel m (apply_ops [] ?ops)"
    using mt.put_seq_rel [OF mt_rel_New, of "\<lambda>i j. False" ?ops] by auto
  obtain d' where "FlushMemTable (mt_Freeze m) (Inr empty_os_file) ''a'' (\<lambda>p. None) = Some (None, d')"
    using FlushMemTable_spec [OF mt_Freeze_rel [OF m(2)] sst_ok_put_ents(1) [OF ok], of empty_os_file "''a''" "\<lambda>p. None"]
    by (auto simp: healthy_def empty_os_file_def)
  then show ?thesis using m(1) lookup_equals_full_scan [OF ok m(1), of empty_os_file "''a''" "\<lambda>p. None" d' "[1]"] by blast
qed

end
