(* ===== verification/Heap.thy ===== *)
theory Heap
  imports Forest_Prelude "HOL-Library.Multiset"
begin

text \<open>
  \<open>container/heap\<close> on a slice: \<open>up\<close>, \<open>down\<close>, \<open>Push\<close>, \<open>Pop\<close>, for the \<open>Less\<close> of an
  element type. The locale \<open>priority_queue\<close> is what the K-way merge relies on; it is derived
  once for every \<open>Less\<close> that is a strict weak order.
\<close>

definition swap :: "'a list \<Rightarrow> nat \<Rightarrow> nat \<Rightarrow> 'a list" where
  "swap h i j = h[i := h ! j, j := h ! i]"

function heap_up :: "('a \<Rightarrow> 'a \<Rightarrow> bool) \<Rightarrow> 'a list \<Rightarrow> nat \<Rightarrow> 'a list" where
  "heap_up lt h j =
     (let i = (j - 1) div 2 in
      if i = j \<or> \<not> lt (h ! j) (h ! i) then h else heap_up lt (swap h i j) i)"
  by pat_completeness auto
termination
  by (relation "measure (\<lambda>(lt, h, j). j)") auto

function heap_down :: "('a \<Rightarrow> 'a \<Rightarrow> bool) \<Rightarrow> 'a list \<Rightarrow> nat \<Rightarrow> nat \<Rightarrow> 'a list" where
  "heap_down lt h i n =
     (let j1 = 2 * i + 1 in
      if n \<le> j1 then h
      else let j = (if j1 + 1 < n \<and> lt (h ! (j1 + 1)) (h ! j1) then j1 + 1 else j1) in
        if \<not> lt (h ! j) (h ! i) then h
        else heap_down lt (swap h i j) j n)"
  by pat_completeness auto
termination
  by (relation "measure (\<lambda>(lt, h, i, n). n - i)") (auto simp: Let_def)

declare heap_up.simps [simp del] heap_down.simps [simp del]

definition heap_Push :: "('a \<Rightarrow> 'a \<Rightarrow> bool) \<Rightarrow> 'a list \<Rightarrow> 'a \<Rightarrow> 'a list" where
  "heap_Push lt h x = heap_up lt (h @ [x]) (length h)"

text \<open>\<open>Pop\<close> of an empty heap indexes at \<open>-1\<close> and panics.\<close>

definition heap_Pop :: "('a \<Rightarrow> 'a \<Rightarrow> bool) \<Rightarrow> 'a list \<Rightarrow> ('a \<times> 'a list) result" where
  "heap_Pop lt h =
     (if h = [] then Inl (Panic IndexOutOfRange)
      else let n = length h - 1; h' = heap_down lt (swap h 0 n) 0 n
           in Inr (last h', butlast h'))"

section \<open>The interface\<close>

locale priority_queue =
  fixes valid :: "'q \<Rightarrow> bool"
    and items :: "'q \<Rightarrow> 'a multiset"
    and before :: "'a \<Rightarrow> 'a \<Rightarrow> bool"
    and push :: "'q \<Rightarrow> 'a \<Rightarrow> 'q"
    and pop :: "'q \<Rightarrow> ('a \<times> 'q) result"
    and top :: "'q \<Rightarrow> 'a"
  assumes push_valid: "valid q \<Longrightarrow> valid (push q x)"
    and push_items: "items (push q x) = add_mset x (items q)"
    and pop_some: "valid q \<Longrightarrow> items q \<noteq> {#} \<Longrightarrow>
      \<exists>q'. pop q = Inr (top q, q') \<and> valid q' \<and> items q = add_mset (top q) (items q')"
    and top_first: "valid q \<Longrightarrow> x \<in># items q \<Longrightarrow> \<not> before x (top q)"
begin

lemma pop_first:
  assumes "valid q" and "items q \<noteq> {#}"
  obtains x q' where "pop q = Inr (x, q')" and "valid q'" and "items q = add_mset x (items q')"
    and "\<forall>y \<in># items q. \<not> before y x"
  using pop_some [OF assms] top_first [OF assms(1)] that by blast

lemma top_mem: "valid q \<Longrightarrow> items q \<noteq> {#} \<Longrightarrow> top q \<in># items q"
  using pop_some by fastforce

end

section \<open>Binary heaps\<close>

lemma parent_less: "0 < m \<Longrightarrow> (m - 1) div 2 < (m :: nat)"
  by (rule le_less_trans [OF div_le_dividend]) simp

definition heap_ordered :: "('a \<Rightarrow> 'a \<Rightarrow> bool) \<Rightarrow> 'a list \<Rightarrow> nat \<Rightarrow> bool" where
  "heap_ordered lt h n \<longleftrightarrow> (\<forall>i. 0 < i \<and> i < n \<longrightarrow> \<not> lt (h ! i) (h ! ((i - 1) div 2)))"

lemma length_swap [simp]: "length (swap h i j) = length h"
  by (simp add: swap_def)

lemma mset_swap_heap [simp]: "i < length h \<Longrightarrow> j < length h \<Longrightarrow> mset (swap h i j) = mset h"
  unfolding swap_def by (rule mset_swap)

lemma swap_nth:
  "i < length h \<Longrightarrow> j < length h \<Longrightarrow>
     swap h i j ! k = (if k = j then h ! i else if k = i then h ! j else h ! k)"
  by (auto simp: swap_def nth_list_update)

lemma length_heap_up [simp]: "length (heap_up lt h j) = length h"
  by (induction lt h j rule: heap_up.induct) (subst heap_up.simps, auto simp: Let_def)

lemma length_heap_down [simp]: "length (heap_down lt h i n) = length h"
  by (induction lt h i n rule: heap_down.induct) (subst heap_down.simps, auto simp: Let_def)

lemma mset_heap_up: "j < length h \<Longrightarrow> mset (heap_up lt h j) = mset h"
proof (induction lt h j rule: heap_up.induct)
  case (1 lt h j)
  then show ?case by (subst heap_up.simps) (auto simp: Let_def)
qed

lemma mset_heap_down: "i < length h \<Longrightarrow> n \<le> length h \<Longrightarrow> mset (heap_down lt h i n) = mset h"
proof (induction lt h i n rule: heap_down.induct)
  case (1 lt h i n)
  show ?case
    using 1 by (subst heap_down.simps) (auto simp: Let_def)
qed

lemma heap_down_above: "n \<le> k \<Longrightarrow> i < length h \<Longrightarrow> n \<le> length h \<Longrightarrow> heap_down lt h i n ! k = h ! k"
proof (induction lt h i n rule: heap_down.induct)
  case (1 lt h i n)
  show ?case
    using 1 by (subst heap_down.simps) (auto simp: Let_def swap_nth)
qed

text \<open>
  The order laws. \<open>lt\<close> is a strict weak order: asymmetric, and its negation is transitive.
\<close>

locale weak_order =
  fixes lt :: "'a \<Rightarrow> 'a \<Rightarrow> bool"
  assumes asym: "lt a b \<Longrightarrow> \<not> lt b a"
    and negtrans: "\<not> lt a b \<Longrightarrow> \<not> lt b c \<Longrightarrow> \<not> lt a c"
begin

lemma irrefl: "\<not> lt a a"
  using asym by blast

text \<open>Sifting up repairs a heap whose only fault is at \<open>j\<close>.\<close>

lemma heap_up_ordered:
  assumes "j < length h"
    and "\<forall>k. 0 < k \<and> k < length h \<and> k \<noteq> j \<longrightarrow> \<not> lt (h ! k) (h ! ((k - 1) div 2))"
    and "\<forall>k. 0 < k \<and> k < length h \<and> (k - 1) div 2 = j \<and> 0 < j \<longrightarrow> \<not> lt (h ! k) (h ! ((j - 1) div 2))"
  shows "heap_ordered lt (heap_up lt h j) (length h)"
  using assms
proof (induction j arbitrary: h rule: less_induct)
  case (less j)
  define i where "i = (j - 1) div 2"
  show ?case
  proof (cases "i = j \<or> \<not> lt (h ! j) (h ! i)")
    case True
    then have "heap_up lt h j = h" by (subst heap_up.simps) (auto simp: Let_def i_def)
    moreover have "\<not> lt (h ! k) (h ! ((k - 1) div 2))" if "0 < k" "k < length h" for k
      using that less.prems(2) True irrefl by (cases "k = j") (auto simp: i_def)
    ultimately show ?thesis by (simp add: heap_ordered_def)
  next
    case False
    then have j: "0 < j" "i < j" by (auto simp: i_def)
    define h' where "h' = swap h i j"
    have len: "length h' = length h" by (simp add: h'_def)
    have run: "heap_up lt h j = heap_up lt h' i"
      using False by (subst heap_up.simps) (auto simp: Let_def i_def h'_def)
    have nth: "h' ! k = (if k = j then h ! i else if k = i then h ! j else h ! k)" for k
      using less.prems(1) j unfolding h'_def by (intro swap_nth) auto
    have old: "\<not> lt (h ! k) (h ! ((k - 1) div 2))" if "0 < k" "k < length h" "k \<noteq> j" for k
      using less.prems(2) that by blast
    have flip: "\<not> lt (h ! i) (h ! j)" using False asym by blast
    have "heap_ordered lt (heap_up lt h' i) (length h')"
    proof (rule less.IH [OF j(2)])
      show "i < length h'" using less.prems(1) j by (simp add: len)
      show "\<forall>k. 0 < k \<and> k < length h' \<and> k \<noteq> i \<longrightarrow> \<not> lt (h' ! k) (h' ! ((k - 1) div 2))"
      proof (intro allI impI)
        fix k assume k: "0 < k \<and> k < length h' \<and> k \<noteq> i"
        consider "k = j" | "k \<noteq> j" "(k - 1) div 2 = j" | "k \<noteq> j" "(k - 1) div 2 = i"
          | "k \<noteq> j" "(k - 1) div 2 \<noteq> i" "(k - 1) div 2 \<noteq> j" by blast
        then show "\<not> lt (h' ! k) (h' ! ((k - 1) div 2))"
        proof cases
          case 1 then show ?thesis using flip j by (simp add: nth i_def [symmetric] del: One_nat_def)
        next
          case 2 then show ?thesis using less.prems(3) k j by (simp add: nth len i_def [symmetric] del: One_nat_def)
        next
          case 3 then show ?thesis using old [of k] negtrans [OF _ flip] k j by (simp add: nth len del: One_nat_def)
        next
          case 4 then show ?thesis using old [of k] k by (simp add: nth len del: One_nat_def)
        qed
      qed
      show "\<forall>k. 0 < k \<and> k < length h' \<and> (k - 1) div 2 = i \<and> 0 < i \<longrightarrow>
          \<not> lt (h' ! k) (h' ! ((i - 1) div 2))"
      proof (intro allI impI)
        fix k assume k: "0 < k \<and> k < length h' \<and> (k - 1) div 2 = i \<and> 0 < i"
        have g: "\<not> lt (h ! i) (h ! ((i - 1) div 2))" using old [of i] k j less.prems(1) by (simp add: len)
        have "(i - 1) div 2 < i" using k parent_less by blast
        then have "h' ! ((i - 1) div 2) = h ! ((i - 1) div 2)" using j by (simp add: nth del: One_nat_def)
        moreover have "\<not> lt (h ! k) (h ! i)" if "k \<noteq> j" using old [of k] that k by (simp add: len)
        ultimately show "\<not> lt (h' ! k) (h' ! ((i - 1) div 2))"
          using g k negtrans [OF _ g] by (auto simp: nth)
      qed
    qed
    then show ?thesis using run by (simp add: len)
  qed
qed

text \<open>Sifting down repairs a heap whose only fault is between \<open>i\<close> and its children.\<close>

lemma heap_down_ordered:
  assumes "i < length h" and "n \<le> length h"
    and "\<forall>k. 0 < k \<and> k < n \<and> (k - 1) div 2 \<noteq> i \<longrightarrow> \<not> lt (h ! k) (h ! ((k - 1) div 2))"
    and "\<forall>k. 0 < k \<and> k < n \<and> (k - 1) div 2 = i \<and> 0 < i \<longrightarrow> \<not> lt (h ! k) (h ! ((i - 1) div 2))"
  shows "heap_ordered lt (heap_down lt h i n) n"
  using assms
proof (induction "n - i" arbitrary: h i rule: less_induct)
  case less
  let ?l = "2 * i + 1"
  have kids: "k = ?l \<or> k = ?l + 1" if "0 < k" "(k - 1) div 2 = i" for k using that by auto
  show ?case
  proof (cases "n \<le> ?l")
    case True
    then have "heap_down lt h i n = h" by (subst heap_down.simps) simp
    moreover have "(k - 1) div 2 \<noteq> i" if "0 < k" "k < n" for k using kids [of k] that True by auto
    ultimately show ?thesis using less.prems(3) by (simp add: heap_ordered_def)
  next
    case False
    define j where "j = (if ?l + 1 < n \<and> lt (h ! (?l + 1)) (h ! ?l) then ?l + 1 else ?l)"
    have j: "i < j" "j < n" "(j - 1) div 2 = i" "0 < j" using False by (auto simp: j_def)
    have least: "\<not> lt (h ! k) (h ! j)" if "0 < k" "k < n" "(k - 1) div 2 = i" for k
      using kids [of k] that asym irrefl by (auto simp: j_def)
    have unf: "heap_down lt h i n = (if \<not> lt (h ! j) (h ! i) then h else heap_down lt (swap h i j) j n)"
      using False by (subst heap_down.simps) (simp only: Let_def j_def if_False simp_thms)
    show ?thesis
    proof (cases "lt (h ! j) (h ! i)")
      case stop: False
      then have "heap_down lt h i n = h"
        using unf by simp
      moreover have "\<not> lt (h ! k) (h ! ((k - 1) div 2))" if "0 < k" "k < n" for k
        using that less.prems(3) least negtrans [OF _ stop] by (cases "(k - 1) div 2 = i") auto
      ultimately show ?thesis by (simp add: heap_ordered_def)
    next
      case go: True
      let ?h = "swap h i j"
      have run: "heap_down lt h i n = heap_down lt ?h j n"
        using unf go by simp
      have nth: "?h ! k = (if k = j then h ! i else if k = i then h ! j else h ! k)" for k
        using less.prems(1,2) j by (intro swap_nth) auto
      have "heap_ordered lt (heap_down lt ?h j n) n"
      proof (rule less.hyps)
        show "n - j < n - i" "j < length ?h" "n \<le> length ?h" using j less.prems(2) by auto
        show "\<forall>k. 0 < k \<and> k < n \<and> (k - 1) div 2 \<noteq> j \<longrightarrow> \<not> lt (?h ! k) (?h ! ((k - 1) div 2))"
        proof (intro allI impI)
          fix k assume k: "0 < k \<and> k < n \<and> (k - 1) div 2 \<noteq> j"
          consider "k = j" | "k = i" | "k \<noteq> j" "k \<noteq> i" "(k - 1) div 2 = i"
            | "k \<noteq> j" "k \<noteq> i" "(k - 1) div 2 \<noteq> i" by blast
          then show "\<not> lt (?h ! k) (?h ! ((k - 1) div 2))"
          proof cases
            case 1 then show ?thesis using asym [OF go] j by (simp add: nth)
          next
            case 2
            then have "(i - 1) div 2 < i" "\<not> lt (h ! j) (h ! ((i - 1) div 2))"
              using less.prems(4) j k parent_less by blast+
            then show ?thesis using 2 j by (simp add: nth del: One_nat_def)
          next
            case 3 then show ?thesis using least [of k] j k by (simp add: nth)
          next
            case 4 then show ?thesis using less.prems(3) k by (simp add: nth)
          qed
        qed
        show "\<forall>k. 0 < k \<and> k < n \<and> (k - 1) div 2 = j \<and> 0 < j \<longrightarrow> \<not> lt (?h ! k) (?h ! ((j - 1) div 2))"
        proof (intro allI impI)
          fix k assume k: "0 < k \<and> k < n \<and> (k - 1) div 2 = j \<and> 0 < j"
          then have "j < k" using parent_less [of k] by linarith
          moreover have "\<not> lt (h ! k) (h ! j)" using less.prems(3) k j by fastforce
          ultimately show "\<not> lt (?h ! k) (?h ! ((j - 1) div 2))" using j by (simp add: nth)
        qed
      qed
      then show ?thesis using run by simp
    qed
  qed
qed

lemma heap_root_first:
  assumes "heap_ordered lt h (length h)" and "k < length h"
  shows "\<not> lt (h ! k) (h ! 0)"
  using assms(2)
proof (induction k rule: less_induct)
  case (less k)
  show ?case
  proof (cases "k = 0")
    case False
    then have p: "(k - 1) div 2 < k" by (simp only: parent_less)
    then have "\<not> lt (h ! ((k - 1) div 2)) (h ! 0)" using less by simp
    moreover have "\<not> lt (h ! k) (h ! ((k - 1) div 2))"
      using assms(1) less.prems False by (simp add: heap_ordered_def)
    ultimately show ?thesis using negtrans by blast
  qed (simp add: irrefl)
qed

lemma heap_Push_ordered:
  assumes "heap_ordered lt h (length h)"
  shows "heap_ordered lt (heap_Push lt h x) (length (heap_Push lt h x))"
proof -
  have "heap_ordered lt (heap_up lt (h @ [x]) (length h)) (length (h @ [x]))"
  proof (rule heap_up_ordered)
    show "\<forall>k. 0 < k \<and> k < length (h @ [x]) \<and> k \<noteq> length h \<longrightarrow> \<not> lt ((h @ [x]) ! k) ((h @ [x]) ! ((k - 1) div 2))"
      using assms by (auto simp: heap_ordered_def nth_append)
    have "(k - 1) div 2 \<noteq> length h" if "k < length (h @ [x])" "0 < length h" for k
    proof -
      have "(k - 1) div 2 \<le> k - 1" by (rule div_le_dividend)
      moreover have "k \<le> length h" "0 < length h" using that by simp_all
      ultimately have "(k - 1) div 2 < length h" by linarith
      then show ?thesis by simp
    qed
    then show "\<forall>k. 0 < k \<and> k < length (h @ [x]) \<and> (k - 1) div 2 = length h \<and> 0 < length h \<longrightarrow>
        \<not> lt ((h @ [x]) ! k) ((h @ [x]) ! ((length h - 1) div 2))" by blast
  qed simp
  then show ?thesis by (simp add: heap_Push_def)
qed

lemma heap_Pop_ordered:
  assumes "heap_ordered lt h (length h)" and "h \<noteq> []"
  shows "\<exists>h'. heap_Pop lt h = Inr (h ! 0, h') \<and> heap_ordered lt h' (length h') \<and>
    mset h = add_mset (h ! 0) (mset h')"
proof -
  define n where "n = length h - 1"
  define s where "s = swap h 0 n"
  let ?d = "heap_down lt s 0 n"
  have n: "n < length h" "0 < length h" using assms(2) by (auto simp: n_def)
  have len: "length s = length h" by (simp add: s_def)
  have nth: "s ! k = (if k = n then h ! 0 else if k = 0 then h ! n else h ! k)" for k
    unfolding s_def using n by (intro swap_nth) auto
  have "heap_ordered lt ?d n"
  proof (rule heap_down_ordered)
    show "\<forall>k. 0 < k \<and> k < n \<and> (k - 1) div 2 \<noteq> 0 \<longrightarrow> \<not> lt (s ! k) (s ! ((k - 1) div 2))"
    proof (intro allI impI)
      fix k assume k: "0 < k \<and> k < n \<and> (k - 1) div 2 \<noteq> 0"
      then have "(k - 1) div 2 < n" using parent_less [of k] by linarith
      then show "\<not> lt (s ! k) (s ! ((k - 1) div 2))"
        using assms(1) k n by (simp add: nth heap_ordered_def)
    qed
  qed (use n in \<open>auto simp: len\<close>)
  then have ord: "heap_ordered lt (butlast ?d) (length (butlast ?d))"
    by (auto simp: heap_ordered_def nth_butlast len n_def)
  have "?d \<noteq> []" using n len by (metis length_heap_down less_numeral_extra(3) list.size(3))
  moreover have "last ?d = h ! 0"
    using heap_down_above [of n n 0 s lt] n by (simp add: last_conv_nth \<open>?d \<noteq> []\<close> nth len) (simp add: n_def)
  moreover have "mset ?d = mset h" using n by (simp add: mset_heap_down len) (simp add: s_def)
  ultimately have "mset h = add_mset (h ! 0) (mset (butlast ?d))"
    by (metis append_butlast_last_id mset_append mset.simps add_mset_add_single)
  then show ?thesis
    using ord \<open>last ?d = h ! 0\<close> assms(2) by (simp add: heap_Pop_def Let_def s_def n_def)
qed

end

text \<open>Every strict weak order makes the slice heap a priority queue.\<close>

sublocale weak_order \<subseteq> pq: priority_queue "\<lambda>h. heap_ordered lt h (length h)" mset lt "heap_Push lt" "heap_Pop lt" "\<lambda>h. h ! 0"
proof
  show "heap_ordered lt q (length q) \<Longrightarrow> heap_ordered lt (heap_Push lt q x) (length (heap_Push lt q x))" for q x
    by (rule heap_Push_ordered)
  show "mset (heap_Push lt q x) = add_mset x (mset q)" for q x
    by (simp add: heap_Push_def mset_heap_up)
  show "heap_ordered lt q (length q) \<Longrightarrow> mset q \<noteq> {#} \<Longrightarrow>
      \<exists>q'. heap_Pop lt q = Inr (q ! 0, q') \<and> heap_ordered lt q' (length q') \<and> mset q = add_mset (q ! 0) (mset q')" for q
    using heap_Pop_ordered by simp
  show "heap_ordered lt q (length q) \<Longrightarrow> x \<in># mset q \<Longrightarrow> \<not> lt x (q ! 0)" for q x
    using heap_root_first by (auto simp: in_set_conv_nth)
qed

end
