(* ===== verification/Compactor.thy ===== *)
theory Compactor
  imports SSTIter Heap
begin

text \<open>
  \<open>internal/engine/compactor.go\<close>: the min-heap of iterator heads and the K-way merge of L0
  files into one L1 file. Iterators are objects shared between the slice \<open>iterators\<close> and the heap
  items; they live in a list and an item holds the position of its iterator. The specification of
  the merge is the sorted list of all keys with the entry of the newest file that has the key.
\<close>

record HeapItem =
  hi_Key :: bytes
  hi_Value :: bytes
  hi_OpCode :: byte
  hi_FileSeq :: u64
  hi_Iterator :: nat

definition MinHeap_Less :: "HeapItem \<Rightarrow> HeapItem \<Rightarrow> bool" where
  "MinHeap_Less a b =
     (let cmp = bytes_Compare (hi_Key a) (hi_Key b) in
      if cmp = 0 then hi_FileSeq b < hi_FileSeq a else cmp < 0)"

definition item_of :: "SSTIterator \<Rightarrow> nat \<Rightarrow> HeapItem" where
  "item_of it p = \<lparr>hi_Key = it_key it, hi_Value = it_val it, hi_OpCode = it_op it,
     hi_FileSeq = it_fileSeq it, hi_Iterator = p\<rparr>"

text \<open>\<open>if it.Next() { heap.Push(h, HeapItem{...}) }\<close> for the iterator at position \<open>p\<close>.\<close>

definition advance :: "SSTIterator list \<Rightarrow> HeapItem list \<Rightarrow> nat \<Rightarrow> SSTIterator list \<times> HeapItem list" where
  "advance its h p =
     (let (ok, it) = it_Next (its ! p) in
      (its[p := it], if ok then heap_Push MinHeap_Less h (item_of it p) else h))"

text \<open>Opening the iterators; the file at position \<open>i\<close> has sequence number \<open>i\<close>.\<close>

fun compact_open ::
  "disk \<Rightarrow> string list \<Rightarrow> SSTIterator list \<Rightarrow> HeapItem list \<Rightarrow> (SSTIterator list \<times> HeapItem list) result" where
  "compact_open d [] its h = Inr (its, h)"
| "compact_open d (fpath # files) its h =
     (case NewSSTIterator d fpath (word_of_nat (length its)) of
        Inl e \<Rightarrow> Inl (Wrapped ''failed to open iterator'' e)
      | Inr it \<Rightarrow>
          let (its', h') = advance (its @ [it]) h (length its) in compact_open d files its' h')"

definition initSSTableWriter :: "os_file \<Rightarrow> sst_writer" where
  "initSSTableWriter f = sst_init f"

definition writeSSTableEntry :: "sst_writer \<Rightarrow> HeapItem \<Rightarrow> go_error option \<times> sst_writer" where
  "writeSSTableEntry sw item = sst_write_entry sw (hi_OpCode item) (hi_Key item) (hi_Value item)"

definition finalizeSSTable :: "sst_writer \<Rightarrow> go_error option \<times> sst_writer" where
  "finalizeSSTable sw =
     then_ok (sst_write_trailer sw) (sst_sync ''failed to flush buffer'' ''failed to fsync file'')"

text \<open>\<open>fmt.Errorf\<close> around an error; a panic is not wrapped.\<close>

fun wrap_err :: "string \<Rightarrow> go_error \<Rightarrow> go_error" where
  "wrap_err msg (Panic p) = Panic p"
| "wrap_err msg e = Wrapped msg e"

text \<open>The inner loop that discards older entries of the key just popped.\<close>

partial_function (option) purge_dups ::
  "bytes \<Rightarrow> SSTIterator list \<Rightarrow> HeapItem list \<Rightarrow> (SSTIterator list \<times> HeapItem list) result option" where
  "purge_dups key its h =
     (if h = [] then Some (Inr (its, h))
      else if bytes_Equal (hi_Key (h ! 0)) key then
        (case heap_Pop MinHeap_Less h of
           Inl e \<Rightarrow> Some (Inl e)
         | Inr (popped, h1) \<Rightarrow>
             let (its', h') = advance its h1 (hi_Iterator popped) in purge_dups key its' h')
      else Some (Inr (its, h)))"

partial_function (option) merge_loop ::
  "SSTIterator list \<Rightarrow> HeapItem list \<Rightarrow> bytes \<Rightarrow> sst_writer \<Rightarrow> (go_error option \<times> sst_writer) option" where
  "merge_loop its h lastKey sw =
     (if h = [] then Some (None, sw)
      else case heap_Pop MinHeap_Less h of
          Inl e \<Rightarrow> Some (Some e, sw)
        | Inr (item, h1) \<Rightarrow>
            (case purge_dups (hi_Key item) its h1 of
               None \<Rightarrow> None
             | Some (Inl e) \<Rightarrow> Some (Some e, sw)
             | Some (Inr (its2, h2)) \<Rightarrow>
                 if \<not> bytes_Equal lastKey (hi_Key item) then
                   (case writeSSTableEntry sw item of
                      (Some e, sw') \<Rightarrow> Some (Some (wrap_err ''compaction failed to write entry'' e), sw')
                    | (None, sw') \<Rightarrow>
                        let (its3, h3) = advance its2 h2 (hi_Iterator item)
                        in merge_loop its3 h3 (hi_Key item) sw')
                 else
                   let (its3, h3) = advance its2 h2 (hi_Iterator item)
                   in merge_loop its3 h3 lastKey sw))"

declare purge_dups.simps [code] merge_loop.simps [code]

definition CompactL0toL1 ::
  "string list \<Rightarrow> os_file result \<Rightarrow> string \<Rightarrow> disk \<Rightarrow> (go_error option \<times> disk) option" where
  "CompactL0toL1 l0Files opened l1Filepath d =
     (case compact_open d l0Files [] [] of
        Inl e \<Rightarrow> Some (Some e, d)
      | Inr (its, h) \<Rightarrow>
          (case opened of
             Inl e \<Rightarrow> Some (Some (Wrapped ''failed to create L1 SSTable file'' e), d)
           | Inr f \<Rightarrow>
               (case merge_loop its h [] (initSSTableWriter (f\<lparr>f_data := []\<rparr>)) of
                  None \<Rightarrow> None
                | Some (Some e, sw) \<Rightarrow> Some (Some e, d(l1Filepath \<mapsto> sst_close sw))
                | Some (None, sw) \<Rightarrow>
                    let (e, sw') = finalizeSSTable sw
                    in Some (map_option (Wrapped ''failed to finalize L1 SSTable'') e,
                             d(l1Filepath \<mapsto> sst_close sw')))))"

section \<open>The heap order\<close>

lemma MinHeap_Less_iff:
  "MinHeap_Less a b \<longleftrightarrow> hi_Key a < hi_Key b \<or> hi_Key a = hi_Key b \<and> hi_FileSeq b < hi_FileSeq a"
  by (auto simp: MinHeap_Less_def Let_def go_cmp)

interpretation mh: weak_order MinHeap_Less
  by unfold_locales (auto simp: MinHeap_Less_iff)

section \<open>The specification of the merge\<close>

text \<open>Newest file last: the entry of the last stream that has the key.\<close>

definition newest :: "sst_ent list list \<Rightarrow> bytes \<Rightarrow> (byte \<times> bytes) option" where
  "newest ss = map_of (concat (rev ss))"

definition merged :: "sst_ent list list \<Rightarrow> sst_ent list" where
  "merged ss = map (\<lambda>k. (k, the (newest ss k))) (sorted_list_of_set (fst ` set (concat ss)))"

lemma set_rev_concat: "set (concat (rev ss)) = set (concat ss)"
  by auto

lemma dom_newest: "dom (newest ss) = fst ` set (concat ss)"
  unfolding newest_def dom_map_of_conv_image_fst set_rev_concat ..

lemma ksorted_merged: "ksorted (merged ss)"
  by (simp add: merged_def comp_def)

lemma map_of_merged: "map_of (merged ss) = newest ss"
proof
  fix k
  have "map_of (merged ss) k = (if k \<in> fst ` set (concat ss) then Some (the (newest ss k)) else None)"
    unfolding merged_def by (simp add: map_of_map_restrict restrict_map_def del: set_concat)
  then show "map_of (merged ss) k = newest ss k"
    using dom_newest [of ss] domIff [of k "newest ss"] by (cases "newest ss k") (simp_all del: set_concat)
qed

definition drop_key :: "bytes \<Rightarrow> sst_ent list list \<Rightarrow> sst_ent list list" where
  "drop_key k ss = map (filter (\<lambda>e. fst e \<noteq> k)) ss"

lemma newest_drop_key: "newest (drop_key k ss) = (newest ss)(k := None)"
proof -
  have "concat (rev (drop_key k ss)) = filter (\<lambda>e. fst e \<noteq> k) (concat (rev ss))"
    by (simp add: drop_key_def filter_concat rev_map)
  moreover have "map_of (filter (\<lambda>e. fst e \<noteq> k) es) = (map_of es)(k := None)" for es :: "sst_ent list"
    by (induction es) (auto simp: fun_eq_iff)
  ultimately show ?thesis by (simp add: newest_def)
qed

text \<open>The first entry of the merge, and the rest.\<close>

lemma merged_Cons:
  assumes "newest ss k = Some v" and "\<forall>x \<in> fst ` set (concat ss). k \<le> x"
  shows "merged ss = (k, v) # merged (drop_key k ss)"
proof (rule ksorted_eqI)
  have keys: "fst ` set (merged (drop_key k ss)) = fst ` set (concat ss) - {k}"
    using dom_newest [of "drop_key k ss"] dom_newest [of ss]
    by (simp add: dom_map_of_conv_image_fst [symmetric] map_of_merged newest_drop_key)
  then show "ksorted ((k, v) # merged (drop_key k ss))"
    using ksorted_merged [of "drop_key k ss"] assms(2) by (auto simp: less_le)
  show "map_of (merged ss) = map_of ((k, v) # merged (drop_key k ss))"
    using assms(1) by (auto simp: map_of_merged newest_drop_key)
qed (rule ksorted_merged)

lemma merged_Nil: "\<forall>es \<in> set ss. es = [] \<Longrightarrow> merged ss = []"
  by (simp add: merged_def)

section \<open>The state of the merge\<close>

definition mk_item :: "nat \<Rightarrow> sst_ent \<Rightarrow> HeapItem" where
  "mk_item p e = \<lparr>hi_Key = fst e, hi_Value = snd (snd e), hi_OpCode = fst (snd e),
     hi_FileSeq = word_of_nat p, hi_Iterator = p\<rparr>"

text \<open>
  \<open>ss\<close> are the entries still to merge, per file; the files in \<open>P\<close> have their first entry in the
  heap, with their iterators behind it, and the iterators of the others stand at its front.
\<close>

definition cinv :: "SSTIterator list \<Rightarrow> HeapItem list \<Rightarrow> sst_ent list list \<Rightarrow> nat set \<Rightarrow> bool" where
  "cinv its h ss P \<longleftrightarrow>
     length its = length ss \<and> length ss < 18446744073709551616 \<and> P \<subseteq> {..<length ss} \<and>
     heap_ordered MinHeap_Less h (length h) \<and>
     mset h = image_mset (\<lambda>p. mk_item p (hd (ss ! p))) (mset_set P) \<and>
     (\<forall>es \<in> set ss. ksorted es) \<and>
     (\<forall>p < length ss. it_fileSeq (its ! p) = word_of_nat p \<and>
        (if p \<in> P then ss ! p \<noteq> [] \<and> it_at (its ! p) (tl (ss ! p)) else it_at (its ! p) (ss ! p)))"

lemma cinv_finite: "cinv its h ss P \<Longrightarrow> finite P"
  by (auto simp: cinv_def dest: finite_subset)

lemma cinv_empty: "cinv its h ss P \<Longrightarrow> h = [] \<longleftrightarrow> P = {}"
proof -
  assume c: "cinv its h ss P"
  then have "mset h = {#} \<longleftrightarrow> mset_set P = {#}" by (simp add: cinv_def)
  then show ?thesis using cinv_finite [OF c] by (simp add: mset_set_empty_iff)
qed

lemma image_mset_update:
  "p \<notin> P \<Longrightarrow> finite P \<Longrightarrow> image_mset (\<lambda>q. f q (hd (ss[p := x] ! q))) (mset_set P) = image_mset (\<lambda>q. f q (hd (ss ! q))) (mset_set P)"
proof (intro image_mset_cong)
  fix q assume "q \<in># mset_set P" and "p \<notin> P" and "finite P"
  then have "q \<noteq> p" by auto
  then show "f q (hd (ss[p := x] ! q)) = f q (hd (ss ! q))" by simp
qed

lemma cinv_pop:
  assumes c: "cinv its h ss P" and ne: "P \<noteq> {}"
  obtains p h' where "p \<in> P" and "heap_Pop MinHeap_Less h = Inr (mk_item p (hd (ss ! p)), h')"
    and "h ! 0 = mk_item p (hd (ss ! p))" and "cinv its h' (ss[p := tl (ss ! p)]) (P - {p})"
    and "\<And>q. q \<in> P \<Longrightarrow> fst (hd (ss ! p)) < fst (hd (ss ! q)) \<or> fst (hd (ss ! p)) = fst (hd (ss ! q)) \<and> q \<le> p"
proof -
  let ?it = "\<lambda>p. mk_item p (hd (ss ! p))"
  have fin: "finite P" by (rule cinv_finite [OF c])
  have ord: "heap_ordered MinHeap_Less h (length h)" and items: "mset h = image_mset ?it (mset_set P)"
    and sub: "P \<subseteq> {..<length ss}" and n: "length ss < 18446744073709551616"
    using c by (simp_all add: cinv_def)
  have "mset h \<noteq> {#}" using items ne fin by (simp add: mset_set_empty_iff)
  then obtain h' where pop: "heap_Pop MinHeap_Less h = Inr (h ! 0, h')" "heap_ordered MinHeap_Less h' (length h')"
    "mset h = add_mset (h ! 0) (mset h')"
    using mh.pq.pop_some [OF ord] by blast
  have "h ! 0 \<in># image_mset ?it (mset_set P)" using pop(3) items by (metis union_single_eq_member)
  then obtain p where p: "p \<in> P" "h ! 0 = ?it p" using fin by auto
  have rest: "mset h' = image_mset ?it (mset_set (P - {p}))"
  proof -
    have "mset_set P = add_mset p (mset_set (P - {p}))" using fin p(1) by (simp add: mset_set.remove)
    then have "add_mset (?it p) (mset h') = add_mset (?it p) (image_mset ?it (mset_set (P - {p})))"
      using pop(3) items p(2) by simp
    then show ?thesis by simp
  qed
  have "cinv its h' (ss[p := tl (ss ! p)]) (P - {p})"
    unfolding cinv_def
  proof (intro conjI)
    show "mset h' = image_mset (\<lambda>q. mk_item q (hd (ss[p := tl (ss ! p)] ! q))) (mset_set (P - {p}))"
      using rest fin by (simp add: image_mset_update)
    have "ss ! p \<in> set ss" using p(1) sub by auto
    then have "ksorted (ss ! p)" using c by (simp add: cinv_def)
    then have "ksorted (tl (ss ! p))" by (cases "ss ! p") simp_all
    then show "\<forall>es \<in> set (ss[p := tl (ss ! p)]). ksorted es"
      using c by (auto simp: cinv_def dest!: set_update_subset_insert [THEN subsetD])
    show "\<forall>q<length (ss[p := tl (ss ! p)]). it_fileSeq (its ! q) = word_of_nat q \<and>
        (if q \<in> P - {p} then ss[p := tl (ss ! p)] ! q \<noteq> [] \<and> it_at (its ! q) (tl (ss[p := tl (ss ! p)] ! q))
         else it_at (its ! q) (ss[p := tl (ss ! p)] ! q))"
      using c p(1) by (auto simp: cinv_def nth_list_update)
  qed (use c pop(2) in \<open>auto simp: cinv_def\<close>)
  moreover have "fst (hd (ss ! p)) < fst (hd (ss ! q)) \<or> fst (hd (ss ! p)) = fst (hd (ss ! q)) \<and> q \<le> p"
    if q: "q \<in> P" for q
  proof -
    have "\<not> MinHeap_Less (?it q) (h ! 0)"
      by (rule mh.pq.top_first [OF ord]) (use items fin q in auto)
    moreover have "\<not> (word_of_nat p :: u64) < word_of_nat q \<longleftrightarrow> q \<le> p"
    proof -
      have "p < 18446744073709551616" "q < 18446744073709551616" using p(1) q sub n by auto
      then show ?thesis by (simp add: word_less_nat_alt unat_of_nat not_less)
    qed
    ultimately show ?thesis by (auto simp: MinHeap_Less_iff p(2) mk_item_def)
  qed
  ultimately show ?thesis using that p pop(1) by simp
qed

lemma cinv_advance:
  assumes c: "cinv its h ss P" and p: "p < length ss" "p \<notin> P"
  obtains its' h' where "advance its h p = (its', h')"
    and "cinv its' h' ss (if ss ! p = [] then P else insert p P)"
proof (cases "ss ! p")
  case Nil
  have "it_Next (its ! p) = (False, its ! p)" 
  proof (rule it_Next_Nil)
    show "it_at (its ! p) []" using c p Nil unfolding cinv_def by metis
  qed
  then show ?thesis using that [of its h] c Nil by (simp add: advance_def)
next
  case (Cons e es)
  have "it_at (its ! p) (e # es)" using c p Cons by (auto simp: cinv_def)
  then obtain it where it: "it_Next (its ! p) = (True, it)" "it_item it = e" "it_at it es"
    "it_fileSeq it = it_fileSeq (its ! p)"
    using it_Next_Cons by blast
  have item: "item_of it p = mk_item p (hd (ss ! p))"
    using it c p Cons by (auto simp: item_of_def mk_item_def it_item_def cinv_def)
  have fin: "finite P" by (rule cinv_finite [OF c])
  have "cinv (its[p := it]) (heap_Push MinHeap_Less h (item_of it p)) ss (insert p P)"
    unfolding cinv_def
  proof (intro conjI)
    show "heap_ordered MinHeap_Less (heap_Push MinHeap_Less h (item_of it p)) (length (heap_Push MinHeap_Less h (item_of it p)))"
      using c by (intro mh.pq.push_valid) (simp add: cinv_def)
    show "mset (heap_Push MinHeap_Less h (item_of it p)) = image_mset (\<lambda>p. mk_item p (hd (ss ! p))) (mset_set (insert p P))"
      using c fin p by (simp add: mh.pq.push_items item cinv_def)
    show "\<forall>q<length ss. it_fileSeq (its[p := it] ! q) = word_of_nat q \<and>
        (if q \<in> insert p P then ss ! q \<noteq> [] \<and> it_at (its[p := it] ! q) (tl (ss ! q)) else it_at (its[p := it] ! q) (ss ! q))"
      using c it p Cons by (auto simp: cinv_def nth_list_update)
  qed (use c p in \<open>auto simp: cinv_def\<close>)
  then show ?thesis using that [of "its[p := it]"] it Cons by (simp add: advance_def)
qed

text \<open>Streams whose keys all exceed \<open>k\<close> are not touched by dropping \<open>k\<close>.\<close>

lemma filter_key_id: "ksorted es \<Longrightarrow> es = [] \<or> k < fst (hd es) \<Longrightarrow> filter (\<lambda>e. fst e \<noteq> k) es = es"
  by (cases es) (auto simp: filter_id_conv)

lemma filter_key_tl: "ksorted es \<Longrightarrow> es \<noteq> [] \<Longrightarrow> fst (hd es) = k \<Longrightarrow> filter (\<lambda>e. fst e \<noteq> k) es = tl es"
  by (cases es) (auto simp: filter_id_conv)

lemma drop_key_id:
  assumes "\<forall>es \<in> set ss. ksorted es" and "\<forall>q < length ss. ss ! q = [] \<or> k < fst (hd (ss ! q))"
  shows "drop_key k ss = ss"
  unfolding drop_key_def
  by (rule map_idI) (metis assms filter_key_id in_set_conv_nth)

lemma drop_key_tl:
  assumes "ksorted (ss ! p)" and "ss ! p \<noteq> []" and "fst (hd (ss ! p)) = k"
  shows "drop_key k (ss[p := tl (ss ! p)]) = drop_key k ss"
proof (rule nth_equalityI)
  show "length (drop_key k (ss[p := tl (ss ! p)])) = length (drop_key k ss)" by (simp add: drop_key_def)
  fix i assume "i < length (drop_key k (ss[p := tl (ss ! p)]))"
  then have i: "i < length ss" by (simp add: drop_key_def)
  have "filter (\<lambda>e. fst e \<noteq> k) (tl (ss ! p)) = filter (\<lambda>e. fst e \<noteq> k) (ss ! p)"
    using assms by (cases "ss ! p") simp_all
  then show "drop_key k (ss[p := tl (ss ! p)]) ! i = drop_key k ss ! i"
    using i by (cases "i = p") (simp_all add: drop_key_def)
qed

lemma length_drop_key [simp]: "length (drop_key k ss) = length ss"
  by (simp add: drop_key_def)

lemma drop_key_nth: "q < length ss \<Longrightarrow> drop_key k ss ! q = filter (\<lambda>e. fst e \<noteq> k) (ss ! q)"
  by (simp add: drop_key_def)

lemma total_less:
  assumes "length xs = length ys" and "\<And>i. i < length ys \<Longrightarrow> length (xs ! i) \<le> length (ys ! i)"
    and "p < length ys" and "length (xs ! p) < length (ys ! p)"
  shows "sum_list (map length xs) < sum_list (map length ys)"
  unfolding sum_list_sum_nth length_map assms(1)
  by (rule sum_strict_mono_ex1) (use assms in auto)

text \<open>
  The inner loop, with the stream \<open>p0\<close> of the popped entry out of the heap: it ends, and removes
  the key from all streams.
\<close>

lemma purge_dups_spec:
  assumes "cinv its h ss P" and "P = {q. q < length ss \<and> q \<noteq> p0 \<and> ss ! q \<noteq> []}"
    and "\<forall>q \<in> P. k \<le> fst (hd (ss ! q))" and "ss ! p0 = [] \<or> k < fst (hd (ss ! p0))"
  shows "\<exists>its' h'. purge_dups k its h = Some (Inr (its', h')) \<and>
    cinv its' h' (drop_key k ss) {q. q < length ss \<and> q \<noteq> p0 \<and> drop_key k ss ! q \<noteq> []}"
  using assms
proof (induction "sum_list (map length ss)" arbitrary: its h ss P rule: less_induct)
  case less
  note c = less.prems(1)
  have srt: "\<forall>es \<in> set ss. ksorted es" using c by (simp add: cinv_def)
  have stop: ?case if gt: "\<forall>q \<in> P. k < fst (hd (ss ! q))"
      and run: "purge_dups k its h = Some (Inr (its, h))"
  proof -
    have "drop_key k ss = ss"
      using gt less.prems(2,4) by (intro drop_key_id [OF srt]) auto
    then show ?thesis using run c less.prems(2) by simp
  qed
  show ?case
  proof (cases "P = {}")
    case True
    then have "h = []" using cinv_empty [OF c] by simp
    then show ?thesis using True by (intro stop) (simp_all add: purge_dups.simps)
  next
    case False
    then have ne: "h \<noteq> []" using cinv_empty [OF c] by simp
    obtain p h1 where p: "p \<in> P" "heap_Pop MinHeap_Less h = Inr (mk_item p (hd (ss ! p)), h1)"
      "h ! 0 = mk_item p (hd (ss ! p))" "cinv its h1 (ss[p := tl (ss ! p)]) (P - {p})"
      "\<And>q. q \<in> P \<Longrightarrow> fst (hd (ss ! p)) < fst (hd (ss ! q)) \<or> fst (hd (ss ! p)) = fst (hd (ss ! q)) \<and> q \<le> p"
      by (rule cinv_pop [OF c False]) blast
    show ?thesis
    proof (cases "fst (hd (ss ! p)) = k")
      case neq: False
      then have "k < fst (hd (ss ! p))" using less.prems(3) p(1) by fastforce
      then have "\<forall>q \<in> P. k < fst (hd (ss ! q))" using p(5) by fastforce
      moreover have "purge_dups k its h = Some (Inr (its, h))"
        using neq ne p(3) by (simp add: purge_dups.simps bytes_Equal_def mk_item_def)
      ultimately show ?thesis by (rule stop)
    next
      case eq: True
      let ?ss = "ss[p := tl (ss ! p)]"
      have pl: "p < length ss" "p \<noteq> p0" "ss ! p \<noteq> []" using p(1) less.prems(2) by auto
      have ks: "ksorted (ss ! p)" using srt pl(1) by simp
      obtain its2 h2 where adv: "advance its h1 p = (its2, h2)"
        "cinv its2 h2 ?ss (if ?ss ! p = [] then P - {p} else insert p (P - {p}))"
        by (rule cinv_advance [OF p(4), of p]) (use pl in auto)
      have P2: "(if ?ss ! p = [] then P - {p} else insert p (P - {p})) = {q. q < length ?ss \<and> q \<noteq> p0 \<and> ?ss ! q \<noteq> []}"
        using less.prems(2) pl by (auto simp: nth_list_update)
      have dk: "drop_key k ?ss = drop_key k ss" by (rule drop_key_tl [OF ks pl(3) eq])
      have run: "purge_dups k its h = purge_dups k its2 h2"
        using ne p(2,3) eq adv(1) by (simp add: purge_dups.simps [of k its h] bytes_Equal_def mk_item_def)
      have "\<exists>its' h'. purge_dups k its2 h2 = Some (Inr (its', h')) \<and>
          cinv its' h' (drop_key k ?ss) {q. q < length ?ss \<and> q \<noteq> p0 \<and> drop_key k ?ss ! q \<noteq> []}"
      proof (rule less.hyps [OF _ adv(2) P2])
        show "sum_list (map length ?ss) < sum_list (map length ss)"
          by (rule total_less [of _ _ p]) (use pl in \<open>auto simp: nth_list_update\<close>)
        show "\<forall>q \<in> if ?ss ! p = [] then P - {p} else insert p (P - {p}). k \<le> fst (hd (?ss ! q))"
          using less.prems(3) pl eq ks by (cases "ss ! p"; cases "tl (ss ! p)") (auto simp: nth_list_update)
        show "?ss ! p0 = [] \<or> k < fst (hd (?ss ! p0))" using less.prems(4) pl(2) by simp
      qed
      then show ?thesis using run dk by simp
    qed
  qed
qed

lemma newest_at:
  assumes "p < length ss" and "map_of (ss ! p) k = Some v"
    and "\<And>q. p < q \<Longrightarrow> q < length ss \<Longrightarrow> map_of (ss ! q) k = None"
  shows "newest ss k = Some v"
proof -
  have ss: "ss = take p ss @ ss ! p # drop (Suc p) ss" using assms(1) by (simp add: id_take_nth_drop)
  have "map_of (concat (rev (drop (Suc p) ss))) k = None"
  proof -
    have "k \<notin> fst ` set (ss ! (Suc p + i))" if "i < length ss - Suc p" for i
      using assms(3) [of "Suc p + i"] that by (simp add: map_of_eq_None_iff)
    then have "\<forall>es \<in> set (drop (Suc p) ss). k \<notin> fst ` set es"
      by (force simp: in_set_conv_nth [of _ "drop (Suc p) ss"])
    then show ?thesis by (auto simp: map_of_eq_None_iff)
  qed
  then show ?thesis
    unfolding newest_def by (subst ss) (simp add: map_add_def assms(2))
qed

text \<open>One round of the merge: the entry popped is the newest of the least key.\<close>

lemma merge_round:
  assumes c: "cinv its h ss P" and P: "P = {q. q < length ss \<and> ss ! q \<noteq> []}" and ne: "P \<noteq> {}"
  obtains k op v p h1 its2 h2 its3 h3
  where "heap_Pop MinHeap_Less h = Inr (mk_item p (k, op, v), h1)"
    and "purge_dups k its h1 = Some (Inr (its2, h2))" and "advance its2 h2 p = (its3, h3)"
    and "cinv its3 h3 (drop_key k ss) {q. q < length (drop_key k ss) \<and> drop_key k ss ! q \<noteq> []}"
    and "merged ss = (k, op, v) # merged (drop_key k ss)"
    and "\<forall>x \<in> fst ` set (concat ss). k \<le> x"
    and "sum_list (map length (drop_key k ss)) < sum_list (map length ss)"
proof -
  obtain p h1 where p: "p \<in> P" "heap_Pop MinHeap_Less h = Inr (mk_item p (hd (ss ! p)), h1)"
    "cinv its h1 (ss[p := tl (ss ! p)]) (P - {p})"
    "\<And>q. q \<in> P \<Longrightarrow> fst (hd (ss ! p)) < fst (hd (ss ! q)) \<or> fst (hd (ss ! p)) = fst (hd (ss ! q)) \<and> q \<le> p"
    by (rule cinv_pop [OF c ne]) blast
  obtain k op v where e: "hd (ss ! p) = (k, op, v)" by (cases "hd (ss ! p)")
  have srt: "\<And>q. q < length ss \<Longrightarrow> ksorted (ss ! q)" using c by (simp add: cinv_def)
  have pl: "p < length ss" "ss ! p \<noteq> []" using p(1) P by auto
  let ?ss = "ss[p := tl (ss ! p)]"
  have dk: "drop_key k ?ss = drop_key k ss" by (rule drop_key_tl) (use srt pl e in auto)
  have own: "?ss ! p = [] \<or> k < fst (hd (?ss ! p))"
    using srt [OF pl(1)] pl e by (cases "ss ! p"; cases "tl (ss ! p)") auto
  have P1: "P - {p} = {q. q < length ?ss \<and> q \<noteq> p \<and> ?ss ! q \<noteq> []}" using P by auto
  have le: "\<forall>q \<in> P - {p}. k \<le> fst (hd (?ss ! q))" 
  proof
    fix q assume "q \<in> P - {p}"
    then show "k \<le> fst (hd (?ss ! q))" using p(4) [of q] e by auto
  qed
  obtain its2 h2 where pu: "purge_dups k its h1 = Some (Inr (its2, h2))"
    "cinv its2 h2 (drop_key k ss) {q. q < length ?ss \<and> q \<noteq> p \<and> drop_key k ss ! q \<noteq> []}"
    using purge_dups_spec [OF p(3) P1 le own] unfolding dk by blast
  obtain its3 h3 where adv: "advance its2 h2 p = (its3, h3)"
    "cinv its3 h3 (drop_key k ss) (if drop_key k ss ! p = [] then {q. q < length ?ss \<and> q \<noteq> p \<and> drop_key k ss ! q \<noteq> []}
      else insert p {q. q < length ?ss \<and> q \<noteq> p \<and> drop_key k ss ! q \<noteq> []})"
    by (rule cinv_advance [OF pu(2), of p]) (use pl in auto)
  have P3: "(if drop_key k ss ! p = [] then {q. q < length ?ss \<and> q \<noteq> p \<and> drop_key k ss ! q \<noteq> []}
      else insert p {q. q < length ?ss \<and> q \<noteq> p \<and> drop_key k ss ! q \<noteq> []}) =
      {q. q < length (drop_key k ss) \<and> drop_key k ss ! q \<noteq> []}"
    using pl by auto
  have least: "k \<le> fst x" if "q < length ss" "x \<in> set (ss ! q)" for q x
  proof -
    have "fst (hd (ss ! q)) \<le> fst x" using srt [OF that(1)] that(2) by (cases "ss ! q") (auto simp: less_imp_le)
    moreover have "k \<le> fst (hd (ss ! q))" using p(4) [of q] that P e by force
    ultimately show ?thesis by simp
  qed
  then have min: "\<forall>x \<in> fst ` set (concat ss). k \<le> x"
    by (auto simp: in_set_conv_nth [of _ ss])
  have "newest ss k = Some (op, v)"
  proof (rule newest_at [OF pl(1)])
    show "map_of (ss ! p) k = Some (op, v)" using pl(2) e by (cases "ss ! p") auto
    fix q assume q: "p < q" "q < length ss"
    show "map_of (ss ! q) k = None"
    proof (cases "ss ! q")
      case (Cons x xs)
      then have "k < fst x" using p(4) [of q] q P e by auto
      then show ?thesis using srt [OF q(2)] Cons by (intro ksorted_map_of_less) (auto intro: order.strict_trans)
    qed simp
  qed
  then have cons: "merged ss = (k, op, v) # merged (drop_key k ss)" by (rule merged_Cons [OF _ min])
  have "length (filter (\<lambda>e. fst e \<noteq> k) (ss ! p)) < length (ss ! p)"
    using hd_in_set [OF pl(2)] e by (intro length_filter_less [of "hd (ss ! p)"]) auto
  then have fewer: "sum_list (map length (drop_key k ss)) < sum_list (map length ss)"
    by (intro total_less [of _ _ p]) (use pl in \<open>auto simp: drop_key_nth\<close>)
  show ?thesis
    using that [OF _ pu(1) adv(1) _ cons min fewer] p(2) adv(2) e P3 by simp
qed

text \<open>The whole loop: it ends, and has written the merge without the empty key.\<close>

definition wrap_write :: "go_error option \<times> sst_writer \<Rightarrow> go_error option \<times> sst_writer" where
  "wrap_write r = (map_option (wrap_err ''compaction failed to write entry'') (fst r), snd r)"

lemma mk_item_simps [simp]:
  "hi_Key (mk_item p e) = fst e" "hi_OpCode (mk_item p e) = fst (snd e)"
  "hi_Value (mk_item p e) = snd (snd e)" "hi_Iterator (mk_item p e) = p"
  by (simp_all add: mk_item_def)

lemma merge_loop_spec:
  assumes "cinv its h ss P" and "P = {q. q < length ss \<and> ss ! q \<noteq> []}"
    and "lk = [] \<or> (\<forall>x \<in> fst ` set (concat ss). lk < x)"
  shows "merge_loop its h lk sw = Some (wrap_write (sst_write_all sw (filter (\<lambda>e. fst e \<noteq> []) (merged ss))))"
  using assms
proof (induction "sum_list (map length ss)" arbitrary: its h ss P lk sw rule: less_induct)
  case less
  show ?case
  proof (cases "P = {}")
    case True
    have "merged ss = []"
      by (rule merged_Nil) (use True less.prems(2) in \<open>auto simp: in_set_conv_nth [of _ ss]\<close>)
    moreover have "h = []" using cinv_empty [OF less.prems(1)] True by simp
    ultimately show ?thesis by (simp add: merge_loop.simps wrap_write_def)
  next
    case False
    then have ne: "h \<noteq> []" using cinv_empty [OF less.prems(1)] by simp
    obtain k op v p h1 its2 h2 its3 h3 where r:
      "heap_Pop MinHeap_Less h = Inr (mk_item p (k, op, v), h1)"
      "purge_dups k its h1 = Some (Inr (its2, h2))" "advance its2 h2 p = (its3, h3)"
      "cinv its3 h3 (drop_key k ss) {q. q < length (drop_key k ss) \<and> drop_key k ss ! q \<noteq> []}"
      "merged ss = (k, op, v) # merged (drop_key k ss)" "\<forall>x \<in> fst ` set (concat ss). k \<le> x"
      "sum_list (map length (drop_key k ss)) < sum_list (map length ss)"
      by (rule merge_round [OF less.prems(1,2) False]) blast
    have later: "\<forall>x \<in> fst ` set (concat (drop_key k ss)). k < x"
      using r(6) by (fastforce simp: drop_key_def)
    have lk: "lk = k \<longleftrightarrow> k = []"
    proof -
      have "k \<in> fst ` set (concat ss)"
        using r(5) map_of_merged [of ss] dom_newest [of ss] by (metis domI map_of_Cons_code(2))
      then have "lk = [] \<or> lk < k" using less.prems(3) by blast
      then show ?thesis by auto
    qed
    have IH: "merge_loop its3 h3 l s = Some (wrap_write (sst_write_all s (filter (\<lambda>e. fst e \<noteq> []) (merged (drop_key k ss)))))"
      if "l = [] \<or> l = k" for l s
      by (rule less.hyps [OF r(7,4) refl]) (use that later in auto)
    show ?thesis
    proof (cases "k = []")
      case True
      then show ?thesis
        using ne r(1-3,5) lk IH [of lk sw]
        by (simp add: merge_loop.simps [of its h] bytes_Equal_def)
    next
      case key: False
      obtain e s where wr: "sst_write_entry sw op k v = (e, s)" by (cases "sst_write_entry sw op k v")
      show ?thesis
        using ne r(1-3,5) lk IH [of k s] key wr
        by (cases e) (simp_all add: merge_loop.simps [of its h] bytes_Equal_def writeSSTableEntry_def wrap_write_def)
    qed
  qed
qed

section \<open>Opening the input files\<close>

text \<open>\<open>files_hold d fs ss\<close>: the file at each path holds the entries of the stream.\<close>

definition files_hold :: "disk \<Rightarrow> string list \<Rightarrow> sst_ent list list \<Rightarrow> bool" where
  "files_hold d fs ss \<longleftrightarrow> list_all2 (\<lambda>f es. \<exists>g. d f = Some g \<and> sst_holds (f_data g) es) fs ss"

lemma cinv_snoc:
  assumes c: "cinv its h ss P" and it: "it_at it es" "it_fileSeq it = word_of_nat (length its)" and es: "ksorted es"
    and n: "length ss + 1 < 18446744073709551616"
  shows "cinv (its @ [it]) h (ss @ [es]) P"
proof -
  have sub: "P \<subseteq> {..<length ss}" and len: "length its = length ss" using c by (simp_all add: cinv_def)
  have "mset h = image_mset (\<lambda>p. mk_item p (hd ((ss @ [es]) ! p))) (mset_set P)"
    using c sub cinv_finite [OF c] unfolding cinv_def
    by (auto intro!: image_mset_cong simp: nth_append)
  moreover have "length ss \<notin> P" using sub by auto
  ultimately show ?thesis
    using c it es n sub len by (auto simp: cinv_def nth_append less_Suc_eq)
qed

lemma compact_open_spec:
  assumes "files_hold d fs ss" and "cinv its h done_ss {q. q < length done_ss \<and> done_ss ! q \<noteq> []}"
    and "length done_ss + length ss < 18446744073709551616"
  shows "\<exists>its' h'. compact_open d fs its h = Inr (its', h') \<and>
    cinv its' h' (done_ss @ ss) {q. q < length (done_ss @ ss) \<and> (done_ss @ ss) ! q \<noteq> []}"
  using assms
proof (induction fs arbitrary: ss its h done_ss)
  case Nil
  then show ?case by (simp add: files_hold_def)
next
  case (Cons f fs)
  obtain es ss' where ss: "ss = es # ss'" using Cons.prems(1) by (cases ss) (auto simp: files_hold_def)
  obtain g where g: "d f = Some g" "sst_holds (f_data g) es" using Cons.prems(1) by (auto simp: files_hold_def ss)
  obtain it where it: "NewSSTIterator d f (word_of_nat (length its)) = Inr it" "it_at it es"
    "it_fileSeq it = word_of_nat (length its)"
    using NewSSTIterator_holds [of d f g es "word_of_nat (length its)"] g by blast
  have len: "length its = length done_ss" using Cons.prems(2) by (simp add: cinv_def)
  have "ksorted es" using g(2) by (simp add: sst_holds_def sst_ok_def)
  then have c1: "cinv (its @ [it]) h (done_ss @ [es]) {q. q < length done_ss \<and> done_ss ! q \<noteq> []}"
    using Cons.prems(2,3) it(2,3) by (intro cinv_snoc) (auto simp: ss)
  obtain its2 h2 where adv: "advance (its @ [it]) h (length its) = (its2, h2)"
    "cinv its2 h2 (done_ss @ [es]) (if (done_ss @ [es]) ! length its = [] then {q. q < length done_ss \<and> done_ss ! q \<noteq> []}
       else insert (length its) {q. q < length done_ss \<and> done_ss ! q \<noteq> []})"
    by (rule cinv_advance [OF c1, of "length its"]) (auto simp: len)
  have "(if (done_ss @ [es]) ! length its = [] then {q. q < length done_ss \<and> done_ss ! q \<noteq> []}
       else insert (length its) {q. q < length done_ss \<and> done_ss ! q \<noteq> []}) =
     {q. q < length (done_ss @ [es]) \<and> (done_ss @ [es]) ! q \<noteq> []}"
    by (auto simp: len nth_append less_Suc_eq)
  with adv(2) have "cinv its2 h2 (done_ss @ [es]) {q. q < length (done_ss @ [es]) \<and> (done_ss @ [es]) ! q \<noteq> []}"
    by simp
  then show ?case
    using Cons.IH [of ss' its2 h2 "done_ss @ [es]"] Cons.prems(1,3) adv(1) it(1)
    by (simp add: ss files_hold_def)
qed

lemma cinv_init: "cinv [] [] [] {}"
  by (simp add: cinv_def heap_ordered_def)

section \<open>CompactL0toL1\<close>

text \<open>What a compaction leaves: the merge, without the empty key.\<close>

definition compacted :: "sst_ent list list \<Rightarrow> sst_ent list" where
  "compacted ss = filter (\<lambda>e. fst e \<noteq> []) (merged ss)"

lemma CompactL0toL1_spec:
  assumes hold: "files_hold d fs ss" and n: "length fs < 18446744073709551616" and ok: "sst_ok (compacted ss)"
  shows "\<exists>e d'. CompactL0toL1 fs (Inr f) path d = Some (e, d') \<and>
    (\<forall>p. p \<noteq> path \<longrightarrow> d' p = d p) \<and> (healthy f \<longrightarrow> e = None) \<and>
    (e = None \<longrightarrow> (\<exists>g. d' path = Some g \<and> sst_holds (f_data g) (compacted ss) \<and> f_durable g = f_data g))"
proof -
  let ?f = "f\<lparr>f_data := []\<rparr>"
  have len: "length ss = length fs" using hold by (simp add: files_hold_def list_all2_lengthD)
  obtain its h where op: "compact_open d fs [] [] = Inr (its, h)"
    "cinv its h ss {q. q < length ss \<and> ss ! q \<noteq> []}"
    using compact_open_spec [OF hold, of "[]" "[]" "[]"] cinv_init n len by auto
  have loop: "merge_loop its h [] (initSSTableWriter ?f) = Some (wrap_write (sst_write_all (sst_init ?f) (compacted ss)))"
    using merge_loop_spec [OF op(2) refl, of "[]"] by (simp add: initSSTableWriter_def compacted_def)
  obtain e1 s1 where w: "sst_write_all (sst_init ?f) (compacted ss) = (e1, s1)" by fastforce
  show ?thesis
  proof (cases e1)
    case None
    obtain e2 s2 where fin: "finalizeSSTable s1 = (e2, s2)" by fastforce
    have all: "then_ok (then_ok (sst_write_all (sst_init ?f) (compacted ss)) sst_write_trailer)
        (sst_sync ''failed to flush buffer'' ''failed to fsync file'') = (e2, s2)"
      using fin w None by (simp add: finalizeSSTable_def)
    have run: "CompactL0toL1 fs (Inr f) path d =
        Some (map_option (Wrapped ''failed to finalize L1 SSTable'') e2, d(path \<mapsto> sst_close s2))"
      using op(1) loop w None fin by (simp add: CompactL0toL1_def wrap_write_def)
    have "e2 = None" if "healthy f"
      using sst_written_healthy [of ?f "compacted ss" "''failed to flush buffer''" "''failed to fsync file''"] that all
      by (auto simp: healthy_def)
    moreover have "sst_holds (f_data (sst_close s2)) (compacted ss) \<and> f_durable (sst_close s2) = f_data (sst_close s2)"
      if "e2 = None"
      using sst_written [OF all [unfolded that] _ ok] by simp
    ultimately show ?thesis using run by auto
  next
    case (Some er)
    have "\<not> healthy f"
    proof
      assume "healthy f"
      then have "healthy ?f" by (simp add: healthy_def)
      then show False
        using sst_write_all_healthy [OF sw_init_healthy, of ?f "compacted ss"] w Some by auto
    qed
    moreover have "CompactL0toL1 fs (Inr f) path d =
        Some (Some (wrap_err ''compaction failed to write entry'' er), d(path \<mapsto> sst_close s1))"
      using op(1) loop w Some by (simp add: CompactL0toL1_def wrap_write_def)
    ultimately show ?thesis by auto
  qed
qed

lemma map_of_compacted: "map_of (compacted ss) k = (if k = [] then None else newest ss k)"
proof -
  have "map_of (filter (\<lambda>e. fst e \<noteq> []) es) k = (if k = [] then None else map_of es k)" for es :: "sst_ent list"
    by (induction es) auto
  then show ?thesis by (simp add: compacted_def map_of_merged)
qed

lemma keys_merged: "fst ` set (merged ss) = fst ` set (concat ss)"
  using dom_newest [of ss] by (simp only: map_of_merged [symmetric] dom_map_of_conv_image_fst)

lemma compacted_first:
  assumes "\<forall>es \<in> set ss. \<forall>e \<in> set es. length (fst e) < 65530" and "compacted ss \<noteq> []"
  shows "length (fst (hd (compacted ss))) < 65530"
proof -
  have "fst (hd (compacted ss)) \<in> fst ` set (concat ss)"
    using hd_in_set [OF assms(2)] unfolding keys_merged [symmetric] by (auto simp: compacted_def)
  then show ?thesis using assms(1) by force
qed

section \<open>Properties\<close>

text \<open>C20. Compaction merges: on L0 files that hold the entries \<open>ss\<close> (oldest file first), the K-way
  merge ends; on a disk that takes all writes it reports no error; and whenever it reports none, the
  L1 file is synced and \<open>ReadSSTable\<close> on it returns, for every key but the empty one, what the
  newest L0 file with that key holds, tombstones included, and absent for keys in no file. Other
  files are untouched.\<close>

theorem compaction_keeps_newest:
  assumes "files_hold d l0 ss" and "length l0 < 2 ^ 64" and "sst_ok (compacted ss)"
    and "\<forall>es \<in> set ss. \<forall>e \<in> set es. length (fst e) < 65530"
  shows "\<exists>e d'. CompactL0toL1 l0 (Inr f) path d = Some (e, d') \<and>
    (\<forall>p. p \<noteq> path \<longrightarrow> d' p = d p) \<and> (healthy f \<longrightarrow> e = None) \<and>
    (e = None \<longrightarrow> (\<exists>g. d' path = Some g \<and> f_durable g = f_data g) \<and>
      (\<forall>key. ReadSSTable d' path key = Inr (if key = [] then None else map_option snd (newest ss key))))"
proof -
  have n: "length l0 < 18446744073709551616" using assms(2) by simp
  obtain e d' where r: "CompactL0toL1 l0 (Inr f) path d = Some (e, d')"
    "\<forall>p. p \<noteq> path \<longrightarrow> d' p = d p" "healthy f \<longrightarrow> e = None"
    "e = None \<longrightarrow> (\<exists>g. d' path = Some g \<and> sst_holds (f_data g) (compacted ss) \<and> f_durable g = f_data g)"
    using CompactL0toL1_spec [OF assms(1) n assms(3), of f path] by blast
  note first = compacted_first [OF assms(4)]
  have read: "ReadSSTable d' path key = Inr (if key = [] then None else map_option snd (newest ss key))"
    if "d' path = Some g" "sst_holds (f_data g) (compacted ss)" for g key
    using sst_lookup_eq [OF that(2) first] that(1) by (simp add: ReadSSTable_def map_of_compacted)
  show ?thesis using r read by blast
qed

theorem compaction_keeps_newest_witness:
  "\<exists>d. files_hold d [''a'', ''b''] [[([1], OpPut, [10]), ([2], OpPut, [20])], [([2], OpPut, [])]] \<and>
    (\<exists>d'. CompactL0toL1 [''a'', ''b''] (Inr empty_os_file) ''c'' d = Some (None, d') \<and>
      ReadSSTable d' ''c'' [1] = Inr (Some [10]) \<and> ReadSSTable d' ''c'' [2] = Inr (Some []) \<and>
      ReadSSTable d' ''c'' [3] = Inr None)"
proof -
  let ?a = "[([1], OpPut, [10]), ([2], OpPut, [20])] :: sst_ent list" and ?b = "[([2], OpPut, [])] :: sst_ent list"
  have "sst_ok ?a" "sst_ok ?b" by (simp_all add: sst_ok_def ent_ok_def sst_entry_def)
  then obtain x y where xy: "sst_holds x ?a" "sst_holds y ?b" using sst_holds_exists by meson
  define d :: disk where "d = [''a'' \<mapsto> empty_os_file\<lparr>f_data := x\<rparr>, ''b'' \<mapsto> empty_os_file\<lparr>f_data := y\<rparr>]"
  have hold: "files_hold d [''a'', ''b''] [?a, ?b]" using xy by (simp add: files_hold_def d_def)
  have m: "merged [?a, ?b] = [([1], OpPut, [10]), ([2], OpPut, [])]"
    by (simp add: merged_def newest_def sorted_list_of_set_insert_remove insert_commute)
  have ok: "sst_ok (compacted [?a, ?b])" by (simp add: compacted_def m sst_ok_def ent_ok_def sst_entry_def)
  have healthy: "healthy empty_os_file" by (simp add: healthy_def empty_os_file_def)
  show ?thesis
    using compaction_keeps_newest [OF hold _ ok, of empty_os_file "''c''"] hold healthy
    by (auto simp: newest_def)
qed

text \<open>C23. The empty key does not survive a compaction: a key of length zero, which the protocol
  accepts, is found in the L0 file before, and is absent from the L1 file after a compaction that
  reports no error, because \<open>lastKey\<close> starts as nil and compares equal to it.\<close>

theorem compaction_drops_empty_key:
  assumes "files_hold d [p0] [es]" and "map_of es [] = Some (op, v)" and "sst_ok (compacted [es])"
    and "\<forall>e \<in> set es. length (fst e) < 65530" and "healthy f"
  shows "ReadSSTable d p0 [] = Inr (Some v) \<and>
    (\<exists>d'. CompactL0toL1 [p0] (Inr f) path d = Some (None, d') \<and> ReadSSTable d' path [] = Inr None)"
proof -
  obtain g where g: "d p0 = Some g" "sst_holds (f_data g) es" using assms(1) by (auto simp: files_hold_def)
  have "es \<noteq> [] \<Longrightarrow> length (fst (hd es)) < 65530" using assms(4) by simp
  then have before: "ReadSSTable d p0 [] = Inr (Some v)"
    using sst_lookup_eq [OF g(2)] g(1) assms(2) by (simp add: ReadSSTable_def)
  obtain d' where d': "CompactL0toL1 [p0] (Inr f) path d = Some (None, d')"
    "\<exists>h. d' path = Some h \<and> sst_holds (f_data h) (compacted [es])"
    using CompactL0toL1_spec [OF assms(1) _ assms(3), of f path] assms(5) by auto
  then obtain h where h: "d' path = Some h" "sst_holds (f_data h) (compacted [es])" by blast
  have "compacted [es] \<noteq> [] \<Longrightarrow> length (fst (hd (compacted [es]))) < 65530"
    by (rule compacted_first) (use assms(4) in auto)
  then have "ReadSSTable d' path [] = Inr None"
    using sst_lookup_eq [OF h(2)] h(1) by (simp add: ReadSSTable_def map_of_compacted)
  then show ?thesis using before d'(1) by blast
qed

theorem compaction_drops_empty_key_witness:
  "\<exists>d. ReadSSTable d ''a'' [] = Inr (Some [5]) \<and>
    (\<exists>d'. CompactL0toL1 [''a''] (Inr empty_os_file) ''c'' d = Some (None, d') \<and> ReadSSTable d' ''c'' [] = Inr None)"
proof -
  let ?a = "[([], OpPut, [5])] :: sst_ent list"
  have "sst_ok ?a" by (simp add: sst_ok_def ent_ok_def sst_entry_def)
  then obtain x where "sst_holds x ?a" using sst_holds_exists by blast
  then have hold: "files_hold (\<lambda>p. Some (empty_os_file\<lparr>f_data := x\<rparr>)) [''a''] [?a]" by (simp add: files_hold_def)
  have "compacted [?a] = []" by (simp add: compacted_def merged_def)
  then have ok: "sst_ok (compacted [?a])" by (simp add: sst_ok_def)
  have healthy: "healthy empty_os_file" by (simp add: healthy_def empty_os_file_def)
  show ?thesis
    by (rule exI) (rule compaction_drops_empty_key [OF hold _ ok _ healthy], simp_all)
qed

end
