(* ===== verification/Version.thy ===== *)
theory Version
  imports SSTable
begin

text \<open>
  \<open>internal/engine/version.go\<close> and the purge of \<open>compactor.go\<close>: reference-counted versions of the
  manifest. \<open>Acquire\<close>, \<open>Release\<close> and \<open>PurgeObsoleteFiles\<close> as operations on one version, and the
  protocol they form as a transition system whose steps are the atomic loads, compare-and-swaps and
  stores of readers, of the background worker and of purging goroutines, in any interleaving.
\<close>

record Manifest =
  m_L0Files :: "string list"
  m_L1Files :: "string list"

record Version =
  v_Manifest :: Manifest
  v_Refs :: "32 word"

definition refs_negative :: "32 word \<Rightarrow> bool" where
  "refs_negative r \<longleftrightarrow> sint r < 0"

text \<open>\<open>Acquire\<close> and \<open>Release\<close>, when no other thread interferes.\<close>

definition v_Acquire :: "Version \<Rightarrow> bool \<times> Version" where
  "v_Acquire v = (if refs_negative (v_Refs v) then (False, v) else (True, v\<lparr>v_Refs := v_Refs v + 1\<rparr>))"

definition v_Release :: "Version \<Rightarrow> Version" where
  "v_Release v = v\<lparr>v_Refs := v_Refs v - 1\<rparr>"

text \<open>The deletion loop of \<open>PurgeObsoleteFiles\<close>; a file that is missing is only logged.\<close>

definition remove_files :: "disk \<Rightarrow> string list \<Rightarrow> disk" where
  "remove_files d files = foldl (\<lambda>d f. d(f := None)) d files"

text \<open>\<open>None\<close>: the wait for the readers does not end.\<close>

definition PurgeObsoleteFiles :: "Version \<Rightarrow> string list \<Rightarrow> disk \<Rightarrow> (Version \<times> disk) option" where
  "PurgeObsoleteFiles v files d =
     (if v_Refs v = 0 then Some (v\<lparr>v_Refs := - 1\<rparr>, remove_files d files) else None)"

lemma remove_files_apply: "remove_files d files p = (if p \<in> set files then None else d p)"
proof -
  have "foldl (\<lambda>d f. d(f := None)) d files p = (if p \<in> set files then None else d p)" for d :: disk
    by (induction files arbitrary: d) auto
  then show ?thesis by (simp add: remove_files_def)
qed

section \<open>The protocol\<close>

text \<open>
  A reader (\<open>Get\<close> or \<open>Scan\<close>): idle; has loaded \<open>currentVersion\<close>; has loaded the count of that
  version and found it non-negative; holds a reference. A purger: waiting for its version; deleting.
\<close>

datatype reader = RIdle | RLoaded nat | RCount nat int | RHold nat

datatype purger = PWait nat "string list" | PDelete nat "string list"

text \<open>
  Versions are numbered in the order of their creation; \<open>r_man\<close> are their manifests, \<open>r_refs\<close> their
  counts, the last one is current. Counts are mathematical integers: they stay below the number of
  readers plus one, so an \<open>int32\<close> would need 2^31 concurrent readers to overflow.
\<close>

record rcu =
  r_man :: "Manifest list"
  r_refs :: "nat \<Rightarrow> int"
  r_readers :: "nat \<Rightarrow> reader"
  r_purgers :: "purger list"
  r_files :: "string set"

definition files_of :: "Manifest \<Rightarrow> string set" where
  "files_of m = set (m_L0Files m) \<union> set (m_L1Files m)"

definition r_cur :: "rcu \<Rightarrow> nat" where
  "r_cur s = length (r_man s) - 1"

definition r_init :: rcu where
  "r_init = \<lparr>r_man = [\<lparr>m_L0Files = [], m_L1Files = []\<rparr>], r_refs = (\<lambda>_. 0),
     r_readers = (\<lambda>_. RIdle), r_purgers = [], r_files = {}\<rparr>"

text \<open>
  The installation steps are those of the flush worker: a flush writes a file that is new on disk and
  appends it to L0; a compaction writes a new file, moves all L0 files out of the manifest and starts
  a purger for the version it replaces.
\<close>

inductive rcu_step :: "rcu \<Rightarrow> rcu \<Rightarrow> bool" where
  load: "r_readers s t = RIdle \<Longrightarrow>
    rcu_step s (s\<lparr>r_readers := (r_readers s)(t := RLoaded (r_cur s))\<rparr>)"
| count: "r_readers s t = RLoaded v \<Longrightarrow> 0 \<le> r_refs s v \<Longrightarrow>
    rcu_step s (s\<lparr>r_readers := (r_readers s)(t := RCount v (r_refs s v))\<rparr>)"
| refused: "r_readers s t = RLoaded v \<Longrightarrow> r_refs s v < 0 \<Longrightarrow>
    rcu_step s (s\<lparr>r_readers := (r_readers s)(t := RIdle)\<rparr>)"
| cas_ok: "r_readers s t = RCount v n \<Longrightarrow> r_refs s v = n \<Longrightarrow>
    rcu_step s (s\<lparr>r_refs := (r_refs s)(v := n + 1), r_readers := (r_readers s)(t := RHold v)\<rparr>)"
| cas_fail: "r_readers s t = RCount v n \<Longrightarrow> r_refs s v \<noteq> n \<Longrightarrow>
    rcu_step s (s\<lparr>r_readers := (r_readers s)(t := RLoaded v)\<rparr>)"
| release: "r_readers s t = RHold v \<Longrightarrow>
    rcu_step s (s\<lparr>r_refs := (r_refs s)(v := r_refs s v - 1), r_readers := (r_readers s)(t := RIdle)\<rparr>)"
| install: "m = r_man s ! r_cur s \<Longrightarrow> f \<notin> r_files s \<Longrightarrow> \<forall>x \<in> set (r_man s). f \<notin> files_of x \<Longrightarrow>
    rcu_step s (s\<lparr>r_man := r_man s @ [m\<lparr>m_L0Files := m_L0Files m @ [f]\<rparr>], r_files := insert f (r_files s)\<rparr>)"
| compact: "m = r_man s ! r_cur s \<Longrightarrow> f \<notin> r_files s \<Longrightarrow> \<forall>x \<in> set (r_man s). f \<notin> files_of x \<Longrightarrow>
    rcu_step s (s\<lparr>r_man := r_man s @ [\<lparr>m_L0Files = [], m_L1Files = m_L1Files m @ [f]\<rparr>],
      r_files := insert f (r_files s), r_purgers := r_purgers s @ [PWait (r_cur s) (m_L0Files m)]\<rparr>)"
| purge_cas: "i < length (r_purgers s) \<Longrightarrow> r_purgers s ! i = PWait v fs \<Longrightarrow> r_refs s v = 0 \<Longrightarrow>
    rcu_step s (s\<lparr>r_refs := (r_refs s)(v := - 1), r_purgers := (r_purgers s)[i := PDelete v fs]\<rparr>)"
| purge_file: "i < length (r_purgers s) \<Longrightarrow> r_purgers s ! i = PDelete v (f # fs) \<Longrightarrow>
    rcu_step s (s\<lparr>r_files := r_files s - {f}, r_purgers := (r_purgers s)[i := PDelete v fs]\<rparr>)"

definition rcu_reachable :: "rcu \<Rightarrow> bool" where
  "rcu_reachable s \<longleftrightarrow> rcu_step\<^sup>*\<^sup>* r_init s"

section \<open>Invariant\<close>

text \<open>
  Finitely many readers are active. A version's count is the number of its holders, or \<open>-1\<close> once it
  is purged; every purger belongs to one version that is no longer current and deletes only files
  that the later manifests do not mention.
\<close>

definition holders :: "rcu \<Rightarrow> nat \<Rightarrow> nat set" where
  "holders s v = {t. r_readers s t = RHold v}"

fun purger_version :: "purger \<Rightarrow> nat" where
  "purger_version (PWait v fs) = v"
| "purger_version (PDelete v fs) = v"

fun purger_files :: "purger \<Rightarrow> string list" where
  "purger_files (PWait v fs) = fs"
| "purger_files (PDelete v fs) = fs"

fun deleting :: "purger \<Rightarrow> bool" where
  "deleting (PWait v fs) = False"
| "deleting (PDelete v fs) = True"

text \<open>The reference counts, for the readers.\<close>

definition refs_inv :: "rcu \<Rightarrow> bool" where
  "refs_inv s \<longleftrightarrow> finite {t. r_readers s t \<noteq> RIdle} \<and>
     (\<forall>v. r_refs s v = int (card (holders s v)) \<or> r_refs s v = - 1 \<and> holders s v = {}) \<and>
     (\<forall>v n t. r_readers s t = RCount v n \<longrightarrow> 0 \<le> n) \<and>
     (\<forall>p \<in> set (r_purgers s). deleting p \<longrightarrow> r_refs s (purger_version p) = - 1)"

text \<open>The files, for the background worker.\<close>

definition file_inv :: "rcu \<Rightarrow> bool" where
  "file_inv s \<longleftrightarrow> r_man s \<noteq> [] \<and>
     (let m = r_man s ! r_cur s in
       files_of m \<subseteq> r_files s \<and> set (m_L0Files m) \<inter> set (m_L1Files m) = {} \<and>
       (\<forall>p \<in> set (r_purgers s). \<forall>f \<in> set (purger_files p). f \<notin> files_of m \<and> (\<exists>x \<in> set (r_man s). f \<in> files_of x)))"

lemma holders_upd:
  "holders (s\<lparr>r_readers := (r_readers s)(t := r)\<rparr>) v = (if r = RHold v then insert t (holders s v) else holders s v - {t})"
  by (auto simp: holders_def)

lemma holders_frame [simp]:
  "holders (s\<lparr>r_refs := x\<rparr>) v = holders s v" "holders (s\<lparr>r_man := a\<rparr>) v = holders s v"
  "holders (s\<lparr>r_files := b\<rparr>) v = holders s v" "holders (s\<lparr>r_purgers := c\<rparr>) v = holders s v"
  by (simp_all add: holders_def)

lemma finite_holders: "finite {t. r_readers s t \<noteq> RIdle} \<Longrightarrow> finite (holders s v)"
  by (rule finite_subset [of _ "{t. r_readers s t \<noteq> RIdle}"]) (auto simp: holders_def)

lemma finite_active_upd:
  "finite {t. f t \<noteq> RIdle} \<Longrightarrow> finite {t'. (f(t := r)) t' \<noteq> RIdle}"
  by (rule finite_subset [of _ "insert t {t. f t \<noteq> RIdle}"]) auto

lemma refs_inv_count: "refs_inv s \<Longrightarrow> r_readers s t = RCount v n \<Longrightarrow> 0 \<le> n"
  unfolding refs_inv_def by blast

text \<open>A reader step that does not touch counts keeps the holders.\<close>

lemma refs_inv_reader:
  assumes "refs_inv s" and "\<And>v. r_readers s t \<noteq> RHold v" and "\<And>v. r \<noteq> RHold v"
    and "\<And>v n. r = RCount v n \<Longrightarrow> 0 \<le> n"
  shows "refs_inv (s\<lparr>r_readers := (r_readers s)(t := r)\<rparr>)"
proof -
  have h: "holders (s\<lparr>r_readers := (r_readers s)(t := r)\<rparr>) v = holders s v" for v
    using assms(2,3) by (auto simp: holders_upd) (simp add: holders_def)
  have "0 \<le> n" if "((r_readers s)(t := r)) t' = RCount v n" for v n t'
    using that assms(4) refs_inv_count [OF assms(1), of t'] by (cases "t' = t") auto
  then show ?thesis
    unfolding refs_inv_def h using assms(1) finite_active_upd [of "r_readers s" t r]
    by (simp add: refs_inv_def)
qed

lemma refs_inv_step: "rcu_step s s' \<Longrightarrow> refs_inv s \<Longrightarrow> refs_inv s'"
proof (induction rule: rcu_step.induct)
  case (load s t) then show ?case by (intro refs_inv_reader) auto
next
  case (count s t v) then show ?case by (intro refs_inv_reader) auto
next
  case (refused s t v) then show ?case by (intro refs_inv_reader) auto
next
  case (cas_fail s t v n) then show ?case by (intro refs_inv_reader) auto
next
  case (cas_ok s t v n)
  let ?s = "s\<lparr>r_readers := (r_readers s)(t := RHold v)\<rparr>"
  have fin: "finite {t. r_readers s t \<noteq> RIdle}" using cas_ok(3) by (simp add: refs_inv_def)
  have n: "0 \<le> n" using refs_inv_count [OF cas_ok(3,1)] .
  have t: "t \<notin> holders s w" for w using cas_ok(1) by (simp add: holders_def)
  have h: "holders (s\<lparr>r_refs := (r_refs s)(v := n + 1), r_readers := (r_readers s)(t := RHold v)\<rparr>) w =
      (if w = v then insert t (holders s v) else holders s w)" for w
    using t by (auto simp: holders_def)
  have own: "n = int (card (holders s v))" using cas_ok(2,3) n by (auto simp: refs_inv_def)
  have "n + 1 = int (card (insert t (holders s v)))"
    using own t [of v] finite_holders [OF fin, of v] by simp
  moreover have "r_refs s v \<noteq> - 1" using cas_ok(2) n by simp
  ultimately show ?case
    using cas_ok(3) finite_active_upd [OF fin, of t "RHold v"] unfolding refs_inv_def h by auto
next
  case (release s t v)
  have fin: "finite {t. r_readers s t \<noteq> RIdle}" using release by (simp add: refs_inv_def)
  have t: "t \<in> holders s v" "\<And>w. w \<noteq> v \<Longrightarrow> t \<notin> holders s w" using release(1) by (auto simp: holders_def)
  have h: "holders (s\<lparr>r_refs := (r_refs s)(v := r_refs s v - 1), r_readers := (r_readers s)(t := RIdle)\<rparr>) w =
      (if w = v then holders s v - {t} else holders s w)" for w
    using t by (auto simp: holders_def)
  have own: "r_refs s v = int (card (holders s v))" using release(2) t(1) by (auto simp: refs_inv_def)
  have "r_refs s v - 1 = int (card (holders s v - {t}))"
    using own t(1) finite_holders [OF fin, of v] by (simp add: card_Diff_singleton of_nat_diff Suc_leI card_gt_0_iff)
      (metis card_gt_0_iff empty_iff finite_holders [OF fin, of v] Suc_leI One_nat_def of_nat_1 of_nat_diff)
  moreover have "r_refs s v \<noteq> - 1" using own by simp
  moreover have "\<forall>p \<in> set (r_purgers s). purger_version p = v \<longrightarrow> \<not> deleting p"
    using release(2) own by (force simp: refs_inv_def)
  moreover have "0 \<le> n" if "((r_readers s)(t := RIdle)) t' = RCount w n" for w n t'
    using that refs_inv_count [OF release(2), of t'] by (cases "t' = t") auto
  ultimately show ?case
    using release(2) finite_active_upd [OF fin, of t RIdle] unfolding refs_inv_def h
    by (simp del: fun_upd_apply) (simp add: fun_upd_def)
next
  case (purge_cas i s v fs)
  have fin: "finite (holders s v)" using purge_cas(4) by (intro finite_holders) (simp add: refs_inv_def)
  have "r_refs s v = int (card (holders s v)) \<or> r_refs s v = - 1" using purge_cas(4) unfolding refs_inv_def by blast
  then have "holders s v = {}" using purge_cas(3) fin by simp
  then show ?case
    using purge_cas by (auto simp: refs_inv_def holders_def dest!: set_update_subset_insert [THEN subsetD])
next
  case (purge_file i s v f fs)
  have "PDelete v (f # fs) \<in> set (r_purgers s)" using purge_file(1,2) by (metis nth_mem)
  then have "r_refs s v = - 1" using purge_file(3) by (force simp: refs_inv_def)
  then show ?case
    using purge_file(3) by (auto simp: refs_inv_def holders_def dest!: set_update_subset_insert [THEN subsetD])
qed (auto simp: refs_inv_def holders_def)

lemma r_cur_snoc [simp]: "r_cur (s\<lparr>r_man := r_man s @ [m]\<rparr>) = length (r_man s)"
  by (simp add: r_cur_def)

lemma r_cur_frame [simp]:
  "r_cur (s\<lparr>r_refs := x\<rparr>) = r_cur s" "r_cur (s\<lparr>r_readers := y\<rparr>) = r_cur s"
  "r_cur (s\<lparr>r_files := b\<rparr>) = r_cur s" "r_cur (s\<lparr>r_purgers := c\<rparr>) = r_cur s"
  by (simp_all add: r_cur_def)

lemma r_cur_mem: "r_man s \<noteq> [] \<Longrightarrow> r_man s ! r_cur s \<in> set (r_man s)"
  by (simp add: r_cur_def)

lemma purger_update:
  "p \<in> set (ps[i := x]) \<Longrightarrow> q \<in> set ps \<Longrightarrow> set (purger_files x) \<subseteq> set (purger_files q) \<Longrightarrow>
     \<exists>q \<in> set ps. set (purger_files p) \<subseteq> set (purger_files q)"
  using set_update_subset_insert [of ps i x] by auto

lemma file_invI:
  assumes "r_man s \<noteq> []" and "r_man s ! r_cur s = m" and "files_of m \<subseteq> r_files s"
    and "set (m_L0Files m) \<inter> set (m_L1Files m) = {}"
    and "\<And>p f. p \<in> set (r_purgers s) \<Longrightarrow> f \<in> set (purger_files p) \<Longrightarrow>
      f \<notin> files_of m \<and> (\<exists>x \<in> set (r_man s). f \<in> files_of x)"
  shows "file_inv s"
  using assms by (simp add: file_inv_def Let_def)

lemma file_invD:
  assumes "file_inv s" and "m = r_man s ! r_cur s"
  shows "r_man s \<noteq> []" and "files_of m \<subseteq> r_files s" and "set (m_L0Files m) \<inter> set (m_L1Files m) = {}"
    and "m \<in> set (r_man s)"
    and "\<And>p f. p \<in> set (r_purgers s) \<Longrightarrow> f \<in> set (purger_files p) \<Longrightarrow>
      f \<notin> files_of m \<and> (\<exists>x \<in> set (r_man s). f \<in> files_of x)"
  using assms r_cur_mem [of s] by (simp_all add: file_inv_def Let_def)

lemma file_inv_step: "rcu_step s s' \<Longrightarrow> file_inv s \<Longrightarrow> file_inv s'"
proof (induction rule: rcu_step.induct)
  case (install m s f)
  note inv = file_invD [OF install(4,1)]
  have fresh: "f \<notin> files_of m" using install(3) inv(4) by blast
  let ?m = "m\<lparr>m_L0Files := m_L0Files m @ [f]\<rparr>"
  have new: "files_of ?m = insert f (files_of m)" by (auto simp: files_of_def)
  show ?case
  proof (rule file_invI [where m = ?m])
    show "set (m_L0Files ?m) \<inter> set (m_L1Files ?m) = {}" using inv(3) fresh by (auto simp: files_of_def)
    fix p g assume "p \<in> set (r_purgers (s\<lparr>r_man := r_man s @ [?m], r_files := insert f (r_files s)\<rparr>))"
      and g: "g \<in> set (purger_files p)"
    then have "g \<notin> files_of m" "\<exists>x \<in> set (r_man s). g \<in> files_of x" using inv(5) by auto
    moreover from this(2) have "g \<noteq> f" using install(3) by blast
    ultimately show "g \<notin> files_of ?m \<and> (\<exists>x \<in> set (r_man (s\<lparr>r_man := r_man s @ [?m], r_files := insert f (r_files s)\<rparr>)). g \<in> files_of x)"
      unfolding new by simp
  qed (use inv(2) in \<open>auto simp: new\<close>)
next
  case (compact m s f)
  note inv = file_invD [OF compact(4,1)]
  have fresh: "f \<notin> files_of m" using compact(3) inv(4) by blast
  let ?m = "\<lparr>m_L0Files = [], m_L1Files = m_L1Files m @ [f]\<rparr>"
  let ?s = "s\<lparr>r_man := r_man s @ [?m], r_files := insert f (r_files s),
    r_purgers := r_purgers s @ [PWait (r_cur s) (m_L0Files m)]\<rparr>"
  have new: "files_of ?m = insert f (set (m_L1Files m))" by (auto simp: files_of_def)
  show ?case
  proof (rule file_invI [where m = ?m])
    show "files_of ?m \<subseteq> r_files ?s" using inv(2) unfolding new by (auto simp: files_of_def)
    fix p g assume p: "p \<in> set (r_purgers ?s)" and g: "g \<in> set (purger_files p)"
    have "g \<notin> files_of ?m \<and> (\<exists>x \<in> set (r_man s). g \<in> files_of x)"
    proof (cases "p \<in> set (r_purgers s)")
      case True
      then have "g \<notin> files_of m" "\<exists>x \<in> set (r_man s). g \<in> files_of x" using inv(5) g by auto
      moreover from this(2) have "g \<noteq> f" using compact(3) by blast
      ultimately show ?thesis unfolding new by (simp add: files_of_def)
    next
      case False
      then have "g \<in> set (m_L0Files m)" using p g by simp
      moreover from this have "g \<in> files_of m" by (simp add: files_of_def)
      ultimately show ?thesis using inv(3,4) fresh unfolding new by blast
    qed
    then show "g \<notin> files_of ?m \<and> (\<exists>x \<in> set (r_man ?s). g \<in> files_of x)" by simp
  qed auto
next
  case (purge_cas i s v fs)
  have "PWait v fs \<in> set (r_purgers s)" using purge_cas(1,2) by (metis nth_mem)
  then have "\<exists>q \<in> set (r_purgers s). set (purger_files p) \<subseteq> set (purger_files q)"
    if "p \<in> set ((r_purgers s)[i := PDelete v fs])" for p
    using purger_update [OF that, of "PWait v fs"] by simp
  then show ?case using purge_cas(4) by (simp add: file_inv_def Let_def) blast
next
  case (purge_file i s v f fs)
  have mem: "PDelete v (f # fs) \<in> set (r_purgers s)" using purge_file(1,2) by (metis nth_mem)
  then have "\<exists>q \<in> set (r_purgers s). set (purger_files p) \<subseteq> set (purger_files q)"
    if "p \<in> set ((r_purgers s)[i := PDelete v fs])" for p
    using purger_update [OF that, of "PDelete v (f # fs)"] by auto
  moreover have "f \<notin> files_of (r_man s ! r_cur s)"
    using file_invD(5) [OF purge_file(3) refl mem, of f] by simp
  ultimately show ?case using purge_file(3) by (simp add: file_inv_def Let_def) blast
qed (simp_all add: file_inv_def Let_def)

lemma rcu_reachable_inv:
  assumes "rcu_reachable s"
  shows "refs_inv s" and "file_inv s"
proof -
  have "rcu_step\<^sup>*\<^sup>* r_init s" using assms by (simp add: rcu_reachable_def)
  then have "refs_inv s \<and> file_inv s"
  proof (induction rule: rtranclp_induct)
    case base
    show ?case
      by (simp add: r_init_def refs_inv_def file_inv_def holders_def files_of_def r_cur_def Let_def)
  next
    case (step s s')
    then show ?case using refs_inv_step file_inv_step by blast
  qed
  then show "refs_inv s" "file_inv s" by simp_all
qed

section \<open>Properties\<close>

text \<open>C21. The reference count does its job for the version it guards: in every reachable state of
  any interleaving of readers, worker and purgers, once the purger of a version has started to delete
  its files, no reader holds that version, and none can acquire it any more (its count is \<open>-1\<close>).\<close>

theorem purged_version_has_no_reader:
  assumes "rcu_reachable s" and "PDelete v fs \<in> set (r_purgers s)"
  shows "(\<forall>t. r_readers s t \<noteq> RHold v) \<and> r_refs s v = - 1 \<and>
    (\<forall>s' t. rcu_step s s' \<longrightarrow> r_readers s' t \<noteq> RHold v)"
proof -
  have refs: "r_refs s v = - 1" if "refs_inv s" "PDelete v fs \<in> set (r_purgers s)" for s
    using that by (force simp: refs_inv_def)
  have none: "r_readers s t \<noteq> RHold v" if "refs_inv s" "r_refs s v = - 1" for s t
  proof -
    have "r_refs s v = int (card (holders s v)) \<or> holders s v = {}" using that(1) unfolding refs_inv_def by blast
    then have "holders s v = {}" using that(2) by simp
    then show ?thesis by (auto simp: holders_def)
  qed
  have inv: "refs_inv s" by (rule rcu_reachable_inv(1) [OF assms(1)])
  note r = refs [OF inv assms(2)]
  have "r_readers s' t \<noteq> RHold v" if "rcu_step s s'" for s' t
    using that
  proof cases
    case (cas_ok t' w n)
    have "0 \<le> n" using refs_inv_count [OF inv cas_ok(2)] .
    then show ?thesis using cas_ok none [OF inv r] r by auto
  qed (use none [OF inv r] in auto)
  then show ?thesis using none [OF inv r] r by blast
qed

text \<open>A run with one flush, one compaction and its purge, used as an instance.\<close>

definition run1 :: rcu where
  "run1 = r_init\<lparr>r_man := [\<lparr>m_L0Files = [], m_L1Files = []\<rparr>, \<lparr>m_L0Files = [''a''], m_L1Files = []\<rparr>],
     r_files := {''a''}\<rparr>"

definition run2 :: rcu where
  "run2 = run1\<lparr>r_man := r_man run1 @ [\<lparr>m_L0Files = [], m_L1Files = [''b'']\<rparr>],
     r_files := {''b'', ''a''}, r_purgers := [PWait 1 [''a'']]\<rparr>"

definition run3 :: rcu where
  "run3 = run2\<lparr>r_refs := (r_refs run2)(1 := - 1), r_purgers := [PDelete 1 [''a'']]\<rparr>"

lemma run1_reachable: "rcu_reachable run1"
proof -
  have "rcu_step r_init run1"
    using rcu_step.install [of "\<lparr>m_L0Files = [], m_L1Files = []\<rparr>" r_init "''a''"]
    by (simp add: run1_def r_init_def r_cur_def files_of_def)
  then show ?thesis by (simp add: rcu_reachable_def)
qed

lemma run2_step: "rcu_step run1 run2"
  using rcu_step.compact [of "\<lparr>m_L0Files = [''a''], m_L1Files = []\<rparr>" run1 "''b''"]
  by (simp add: run2_def run1_def r_init_def r_cur_def files_of_def)

lemma run3_reachable: "rcu_reachable run3"
proof -
  have "rcu_step run2 run3"
    using rcu_step.purge_cas [of 0 run2 1 "[''a'']"] by (simp add: run3_def run2_def run1_def r_init_def)
  then show ?thesis
    using run1_reachable run2_step unfolding rcu_reachable_def by (meson rtranclp.rtrancl_into_rtrancl)
qed

theorem purged_version_has_no_reader_witness:
  "PDelete 1 [''a''] \<in> set (r_purgers run3) \<and> (\<forall>t. r_readers run3 t \<noteq> RHold 1) \<and> r_refs run3 1 = - 1 \<and>
    (\<nexists>s' t. rcu_step run3 s' \<and> r_readers s' t = RHold 1)"
proof -
  have mem: "PDelete 1 [''a''] \<in> set (r_purgers run3)" by (simp add: run3_def)
  show ?thesis using purged_version_has_no_reader [OF run3_reachable mem] mem by blast
qed



text \<open>C24. A reader of an older version is not protected: a file of the version it holds can be
  deleted under it. The reader acquires version 1; a flush installs version 2, which still lists the
  same L0 file; a compaction of version 2 purges that file after waiting for the readers of version 2
  only.\<close>

theorem older_reader_loses_file:
  "\<exists>s t v f. rcu_reachable s \<and> r_readers s t = RHold v \<and> f \<in> files_of (r_man s ! v) \<and> f \<notin> r_files s"
proof -
  let ?hold = "(\<lambda>_. RIdle)(0 := RHold 1)"
  let ?m0 = "\<lparr>m_L0Files = [], m_L1Files = []\<rparr> :: Manifest" and ?m1 = "\<lparr>m_L0Files = [''a''], m_L1Files = []\<rparr> :: Manifest"
  let ?m2 = "\<lparr>m_L0Files = [''a'', ''b''], m_L1Files = []\<rparr> :: Manifest" and ?m3 = "\<lparr>m_L0Files = [], m_L1Files = [''c'']\<rparr> :: Manifest"
  define s1 where "s1 = run1\<lparr>r_readers := (\<lambda>_. RIdle)(0 := RLoaded 1)\<rparr>"
  define s2 where "s2 = run1\<lparr>r_readers := (\<lambda>_. RIdle)(0 := RCount 1 0)\<rparr>"
  define s3 where "s3 = run1\<lparr>r_refs := (\<lambda>_. 0)(1 := 1), r_readers := ?hold\<rparr>"
  define s4 where "s4 = s3\<lparr>r_man := [?m0, ?m1, ?m2], r_files := {''b'', ''a''}\<rparr>"
  define s5 where "s5 = s4\<lparr>r_man := [?m0, ?m1, ?m2, ?m3], r_files := {''c'', ''b'', ''a''},
    r_purgers := [PWait 2 [''a'', ''b'']]\<rparr>"
  define s6 where "s6 = s5\<lparr>r_refs := (r_refs s5)(2 := - 1), r_purgers := [PDelete 2 [''a'', ''b'']]\<rparr>"
  define s7 where "s7 = s6\<lparr>r_files := r_files s6 - {''a''}, r_purgers := [PDelete 2 [''b'']]\<rparr>"
  note defs = s1_def s2_def s3_def s4_def s5_def s6_def s7_def run1_def r_init_def
  have "rcu_step run1 s1"
    using rcu_step.load [of run1 0] by (simp add: defs r_cur_def)
  moreover have "rcu_step s1 s2"
    using rcu_step.count [of s1 0 1] by (simp add: defs)
  moreover have "rcu_step s2 s3"
    using rcu_step.cas_ok [of s2 0 1 0] by (simp add: defs)
  moreover have "rcu_step s3 s4"
    using rcu_step.install [of ?m1 s3 "''b''"] by (simp add: defs r_cur_def files_of_def)
  moreover have "rcu_step s4 s5"
    using rcu_step.compact [of ?m2 s4 "''c''"] by (simp add: defs r_cur_def files_of_def numeral_2_eq_2)
  moreover have "rcu_step s5 s6"
    using rcu_step.purge_cas [of 0 s5 2 "[''a'', ''b'']"] by (simp add: defs)
  moreover have "rcu_step s6 s7"
    using rcu_step.purge_file [of 0 s6 2 "''a''" "[''b'']"] by (simp add: defs)
  ultimately have "rcu_reachable s7"
    using run1_reachable unfolding rcu_reachable_def by (meson rtranclp.rtrancl_into_rtrancl)
  moreover have "r_readers s7 0 = RHold 1" "''a'' \<in> files_of (r_man s7 ! 1)" "''a'' \<notin> r_files s7"
    by (simp_all add: defs files_of_def)
  ultimately show ?thesis by blast
qed

section \<open>Purges finish\<close>

text \<open>Every purger belongs to its own, superseded version, and a version is marked only by its purger.\<close>

definition purge_inv :: "rcu \<Rightarrow> bool" where
  "purge_inv s \<longleftrightarrow> distinct (map purger_version (r_purgers s)) \<and>
     (\<forall>p \<in> set (r_purgers s). purger_version p < r_cur s) \<and>
     (\<forall>v. r_refs s v = - 1 \<longrightarrow> (\<exists>p \<in> set (r_purgers s). purger_version p = v \<and> deleting p))"

lemma purge_inv_init: "purge_inv r_init"
  by (simp add: purge_inv_def r_init_def)

lemma map_version_upd:
  "i < length ps \<Longrightarrow> purger_version x = purger_version (ps ! i) \<Longrightarrow> map purger_version (ps[i := x]) = map purger_version ps"
  by (simp add: map_update list_update_same_conv)

lemma purge_inv_step:
  assumes "rcu_step s s'" and "refs_inv s" and "purge_inv s" and "r_man s \<noteq> []"
  shows "purge_inv s'"
  using assms
proof (cases rule: rcu_step.cases)
  case (release t v)
  have "r_refs s v = int (card (holders s v)) \<and> 0 < card (holders s v)"
  proof -
    have "t \<in> holders s v" using release by (simp add: holders_def)
    moreover have "finite (holders s v)" using assms(2) finite_holders by (simp add: refs_inv_def)
    ultimately have "0 < card (holders s v)" by (auto simp: card_gt_0_iff)
    then show ?thesis using assms(2) \<open>t \<in> holders s v\<close> unfolding refs_inv_def by auto
  qed
  then show ?thesis using assms(3) release by (auto simp: purge_inv_def)
next
  case (cas_ok t v n)
  have "0 \<le> n" using refs_inv_count [OF assms(2)] cas_ok by blast
  then show ?thesis using assms(3) cas_ok by (auto simp: purge_inv_def)
next
  case (install m f)
  then show ?thesis using assms(3,4) by (fastforce simp: purge_inv_def r_cur_def)
next
  case (compact m f)
  have "r_cur s < length (r_man s)" using assms(4) by (simp add: r_cur_def)
  then show ?thesis using assms(3) compact by (fastforce simp: purge_inv_def r_cur_def)
next
  case (purge_cas i v fs)
  let ?x = "PDelete v fs"
  have same: "map purger_version ((r_purgers s)[i := ?x]) = map purger_version (r_purgers s)"
    using purge_cas by (intro map_version_upd) simp_all
  have mem: "?x \<in> set ((r_purgers s)[i := ?x])" using purge_cas by (simp add: set_update_memI)
  have vers: "purger_version ` set ((r_purgers s)[i := ?x]) = purger_version ` set (r_purgers s)"
    using arg_cong [OF same, of set] by simp
  have "\<exists>p \<in> set ((r_purgers s)[i := ?x]). purger_version p = w \<and> deleting p" if w: "r_refs s w = - 1" "w \<noteq> v" for w
  proof -
    obtain p where p: "p \<in> set (r_purgers s)" "purger_version p = w" "deleting p" using assms(3) w by (auto simp: purge_inv_def)
    then obtain j where j: "j < length (r_purgers s)" "r_purgers s ! j = p" by (auto simp: in_set_conv_nth)
    have "j \<noteq> i" using p(2) w(2) j(2) purge_cas by auto
    then have "p \<in> set ((r_purgers s)[i := ?x])" using j by (metis length_list_update nth_list_update_neq nth_mem)
    then show ?thesis using p by blast
  qed
  moreover have "\<forall>p \<in> set ((r_purgers s)[i := ?x]). purger_version p < r_cur s"
    using assms(3) vers unfolding purge_inv_def by (metis imageE imageI)
  moreover have "\<exists>p \<in> set ((r_purgers s)[i := ?x]). purger_version p = v \<and> deleting p" by (rule bexI [OF _ mem]) simp
  ultimately show ?thesis using assms(3) same purge_cas unfolding purge_inv_def by auto
next
  case (purge_file i v f fs)
  let ?x = "PDelete v fs"
  have same: "map purger_version ((r_purgers s)[i := ?x]) = map purger_version (r_purgers s)"
    using purge_file by (intro map_version_upd) simp_all
  have vers: "purger_version ` set ((r_purgers s)[i := ?x]) = purger_version ` set (r_purgers s)"
    using arg_cong [OF same, of set] by simp
  have "\<exists>q \<in> set ((r_purgers s)[i := ?x]). purger_version q = purger_version p \<and> deleting q" if p: "p \<in> set (r_purgers s)" "deleting p" for p
  proof -
    obtain j where j: "j < length (r_purgers s)" "r_purgers s ! j = p" using p(1) by (auto simp: in_set_conv_nth)
    show ?thesis
    proof (cases "j = i")
      case True
      then have "?x \<in> set ((r_purgers s)[i := ?x])" "purger_version ?x = purger_version p"
        using j purge_file by (auto simp: set_update_memI)
      then show ?thesis by (intro bexI [of _ ?x]) simp_all
    next
      case False
      then have "p \<in> set ((r_purgers s)[i := ?x])" using j by (metis length_list_update nth_list_update_neq nth_mem)
      then show ?thesis using p by blast
    qed
  qed
  moreover have "\<forall>p \<in> set ((r_purgers s)[i := ?x]). purger_version p < r_cur s"
    using assms(3) vers unfolding purge_inv_def by (metis imageE imageI)
  moreover have "distinct (map purger_version (r_purgers s))"
    "\<forall>w. r_refs s w = - 1 \<longrightarrow> (\<exists>p \<in> set (r_purgers s). purger_version p = w \<and> deleting p)"
    using assms(3) by (simp_all add: purge_inv_def)
  ultimately have "distinct (map purger_version ((r_purgers s)[i := ?x]))"
    "\<forall>p \<in> set ((r_purgers s)[i := ?x]). purger_version p < r_cur s"
    "\<forall>w. r_refs s w = - 1 \<longrightarrow> (\<exists>q \<in> set ((r_purgers s)[i := ?x]). purger_version q = w \<and> deleting q)"
    unfolding same by blast+
  then show ?thesis using purge_file by (simp add: purge_inv_def)
qed (simp_all add: purge_inv_def)

lemma rcu_reachable_purge: "rcu_reachable s \<Longrightarrow> purge_inv s"
proof -
  assume "rcu_reachable s"
  then have "rcu_step\<^sup>*\<^sup>* r_init s" by (simp add: rcu_reachable_def)
  then show "purge_inv s"
  proof (induction rule: rtranclp_induct)
    case base
    show ?case by (rule purge_inv_init)
  next
    case (step y z)
    then have "rcu_reachable y" by (simp add: rcu_reachable_def)
    note inv = rcu_reachable_inv [OF this]
    show ?case by (rule purge_inv_step [OF step(2) inv(1) step(3)]) (use inv(2) in \<open>auto simp: file_inv_def\<close>)
  qed
qed

lemma purge_files_run:
  "i < length (r_purgers s) \<Longrightarrow> r_purgers s ! i = PDelete v fs \<Longrightarrow>
     rcu_step\<^sup>*\<^sup>* s (s\<lparr>r_files := r_files s - set fs, r_purgers := (r_purgers s)[i := PDelete v []]\<rparr>)"
proof (induction fs arbitrary: s)
  case Nil
  then have "(r_purgers s)[i := PDelete v []] = r_purgers s" by (metis list_update_id)
  then have "s\<lparr>r_files := r_files s - set [], r_purgers := (r_purgers s)[i := PDelete v []]\<rparr> = s" by simp
  then show ?case by (metis rtranclp.rtrancl_refl)
next
  case (Cons f fs)
  let ?s = "s\<lparr>r_files := r_files s - {f}, r_purgers := (r_purgers s)[i := PDelete v fs]\<rparr>"
  have "rcu_step s ?s" by (rule rcu_step.purge_file [OF Cons.prems])
  moreover have "rcu_step\<^sup>*\<^sup>* ?s (?s\<lparr>r_files := r_files ?s - set fs, r_purgers := (r_purgers ?s)[i := PDelete v []]\<rparr>)"
    using Cons.prems by (intro Cons.IH) simp_all
  moreover have "?s\<lparr>r_files := r_files ?s - set fs, r_purgers := (r_purgers ?s)[i := PDelete v []]\<rparr> =
      s\<lparr>r_files := r_files s - set (f # fs), r_purgers := (r_purgers s)[i := PDelete v []]\<rparr>"
    by (rule rcu.equality) auto
  ultimately show ?case by (metis converse_rtranclp_into_rtranclp)
qed

text \<open>C29. Obsolete files do go away: in every reachable state in which no reader holds a version whose
  files wait to be purged, the purger can proceed by itself, without any step of the readers or the
  worker, until all these files are deleted.\<close>

theorem purge_completes:
  assumes "rcu_reachable s" and "PWait v fs \<in> set (r_purgers s)" and "\<forall>t. r_readers s t \<noteq> RHold v"
  shows "\<exists>s'. rcu_step\<^sup>*\<^sup>* s s' \<and> r_files s' = r_files s - set fs \<and> r_man s' = r_man s \<and> r_readers s' = r_readers s"
proof -
  obtain i where i: "i < length (r_purgers s)" "r_purgers s ! i = PWait v fs"
    using assms(2) by (auto simp: in_set_conv_nth)
  have refs: "r_refs s v = 0"
  proof (rule ccontr)
    assume "r_refs s v \<noteq> 0"
    moreover have "holders s v = {}" using assms(3) by (simp add: holders_def)
    moreover have "r_refs s v = int (card (holders s v)) \<or> r_refs s v = - 1"
      using rcu_reachable_inv(1) [OF assms(1)] unfolding refs_inv_def by blast
    ultimately have "r_refs s v = - 1" by simp
    then obtain p where p: "p \<in> set (r_purgers s)" "purger_version p = v" "deleting p"
      using rcu_reachable_purge [OF assms(1)] by (auto simp: purge_inv_def)
    have "inj_on purger_version (set (r_purgers s))"
      using rcu_reachable_purge [OF assms(1)] by (simp add: purge_inv_def distinct_map)
    then have "p = PWait v fs" by (rule inj_onD) (use p(1,2) assms(2) in simp_all)
    then show False using p(3) by simp
  qed
  let ?s = "s\<lparr>r_refs := (r_refs s)(v := - 1), r_purgers := (r_purgers s)[i := PDelete v fs]\<rparr>"
  have "rcu_step s ?s" by (rule rcu_step.purge_cas [OF i refs])
  moreover have "rcu_step\<^sup>*\<^sup>* ?s (?s\<lparr>r_files := r_files ?s - set fs, r_purgers := (r_purgers ?s)[i := PDelete v []]\<rparr>)"
    using i by (intro purge_files_run) simp_all
  ultimately have "rcu_step\<^sup>*\<^sup>* s (?s\<lparr>r_files := r_files ?s - set fs, r_purgers := (r_purgers ?s)[i := PDelete v []]\<rparr>)"
    by (rule converse_rtranclp_into_rtranclp)
  then show ?thesis
    by (intro exI [of _ "?s\<lparr>r_files := r_files ?s - set fs, r_purgers := (r_purgers ?s)[i := PDelete v []]\<rparr>"] conjI) simp_all
qed

theorem purge_completes_witness:
  "\<exists>s'. rcu_step\<^sup>*\<^sup>* run2 s' \<and> r_files s' = {''b''} \<and> r_man s' = r_man run2"
proof -
  have "rcu_reachable run2" using run1_reachable run2_step by (simp add: rcu_reachable_def)
  moreover have "PWait 1 [''a''] \<in> set (r_purgers run2)" "\<forall>t. r_readers run2 t \<noteq> RHold 1" "r_files run2 = {''b'', ''a''}"
    by (simp_all add: run2_def run1_def r_init_def)
  ultimately show ?thesis using purge_completes [of run2 1 "[''a'']"] by auto
qed

end
