(* ===== verification/Engine.thy ===== *)
theory Engine
  imports WAL Compactor Version Paths
begin

text \<open>
  \<open>internal/engine/db.go\<close>: the coordinator. The state holds the active and the immutable MemTable,
  the log, the flush queue, the current version, the files, and the purges that are still waiting.
  Requests (\<open>Get\<close>, \<open>Scan\<close>, \<open>Put\<close>, \<open>Delete\<close>) and turns of the background worker
  (\<open>flushWorker\<close>, \<open>maybeCompact\<close>, purges) are functions on it; a history interleaves them at that
  granularity. Clock readings, durations, random levels and the outcomes of opening files are
  arguments. \<open>None\<close> is an operation that does not return (a spinning or blocked goroutine).
\<close>

section \<open>State and construction\<close>

record DB =
  db_activeMT :: memtable
  db_immutableMT :: "memtable option"
  db_wal :: wal
  db_flushQ :: "memtable list"
  db_stopped :: bool
  db_flushThreshold :: int
  db_currentVersion :: Version
  db_sstDir :: string
  db_compactionThreshold :: int
  db_flushCount :: int
  db_disk :: disk
  db_purges :: "(Version \<times> string list) list"
  db_metrics :: EngineMetrics

datatype DBOption = WithSSTDir string | WithCompactionThreshold int | WithFlushThreshold int

fun apply_option :: "DBOption \<Rightarrow> DB \<Rightarrow> DB" where
  "apply_option (WithSSTDir dir) db = db\<lparr>db_sstDir := dir\<rparr>"
| "apply_option (WithCompactionThreshold threshold) db =
     (if 0 < threshold then db\<lparr>db_compactionThreshold := threshold\<rparr> else db)"
| "apply_option (WithFlushThreshold n) db = (if 0 < n then db\<lparr>db_flushThreshold := n\<rparr> else db)"

text \<open>
  \<open>NewDB\<close>: \<open>walOpened\<close> and \<open>recOpened\<close> are the outcomes of opening the log for appending and for
  recovery, \<open>mkdir\<close> the outcome of \<open>os.MkdirAll\<close>, \<open>now\<close> the clock at the start of the worker.
\<close>

definition NewDB ::
  "(nat \<Rightarrow> nat \<Rightarrow> bool) \<Rightarrow> os_file result \<Rightarrow> bytes result \<Rightarrow> DBOption list \<Rightarrow> (string \<Rightarrow> go_error option) \<Rightarrow>
   int \<Rightarrow> disk \<Rightarrow> EngineMetrics \<Rightarrow> DB result option" where
  "NewDB rnd walOpened recOpened opts mkdir now d em =
     (case NewWAL walOpened of
        Inl e \<Rightarrow> Some (Inl (Wrapped ''engine failed to initialize WAL'' e))
      | Inr w \<Rightarrow>
          (case Recover rnd recOpened NewMemTable of
             None \<Rightarrow> None
           | Some (Some e, mt) \<Rightarrow> Some (Inl (Wrapped ''engine failed to recover from WAL'' e))
           | Some (None, mt) \<Rightarrow>
               let db = fold apply_option opts
                     \<lparr>db_activeMT = mt, db_immutableMT = None, db_wal = w, db_flushQ = [],
                      db_stopped = False, db_flushThreshold = 4 * 1024 * 1024,
                      db_currentVersion = \<lparr>v_Manifest = \<lparr>m_L0Files = [], m_L1Files = []\<rparr>, v_Refs = 0\<rparr>,
                      db_sstDir = [], db_compactionThreshold = 4, db_flushCount = now, db_disk = d,
                      db_purges = [], db_metrics = em\<rparr>
               in if db_sstDir db \<noteq> [] then
                    (case mkdir (db_sstDir db) of
                       Some e \<Rightarrow> Some (Inl (Wrapped ''failed to create SSTable directory'' e))
                     | None \<Rightarrow> Some (Inr db))
                  else Some (Inr db)))"

definition generateSSTPath :: "DB \<Rightarrow> string \<Rightarrow> int \<Rightarrow> string" where
  "generateSSTPath db level n =
     (let fname = ''data-'' @ level @ ''-'' @ fmt_int n @ ''.sst'' in
      if db_sstDir db \<noteq> [] then filepath_Join (db_sstDir db) fname else fname)"

definition CurrentVersion :: "DB \<Rightarrow> Version" where
  "CurrentVersion db = db_currentVersion db"

section \<open>Reading\<close>

definition live :: "bytes option \<Rightarrow> bytes option" where
  "live r = (case r of Some v \<Rightarrow> if length v = 0 then None else Some v | None \<Rightarrow> None)"

text \<open>Searching the files of a level, newest first (the list is already reversed).\<close>

fun search_files :: "string \<Rightarrow> disk \<Rightarrow> bytes \<Rightarrow> string list \<Rightarrow> bytes option result" where
  "search_files msg d key [] = Inr None"
| "search_files msg d key (f # fs) =
     (case ReadSSTable d f key of
        Inl e \<Rightarrow> Inl (wrap_err msg e)
      | Inr (Some v) \<Rightarrow> Inr (Some v)
      | Inr None \<Rightarrow> search_files msg d key fs)"

text \<open>
  \<open>Get\<close>. A version that refuses \<open>Acquire\<close> is loaded again for ever. The reference is returned
  with the state, so that \<open>Release\<close> shows.
\<close>

definition db_Get :: "DB \<Rightarrow> bytes \<Rightarrow> (bytes option result \<times> DB) option" where
  "db_Get db key =
     (case mt_Get (db_activeMT db) key of
        None \<Rightarrow> None
      | Some (Some v) \<Rightarrow> Some (Inr (live (Some v)), db)
      | Some None \<Rightarrow>
          (case (case db_immutableMT db of None \<Rightarrow> Some None | Some im \<Rightarrow> mt_Get im key) of
             None \<Rightarrow> None
           | Some (Some v) \<Rightarrow> Some (Inr (live (Some v)), db)
           | Some None \<Rightarrow>
               let (ok, version) = v_Acquire (db_currentVersion db) in
               if \<not> ok then None
               else
                 let man = v_Manifest version;
                     r = (case search_files ''failed to read L0 SSTable'' (db_disk db) key (rev (m_L0Files man)) of
                            Inl e \<Rightarrow> Inl e
                          | Inr (Some v) \<Rightarrow> Inr (Some v)
                          | Inr None \<Rightarrow>
                              search_files ''failed to read L1 SSTable'' (db_disk db) key (rev (m_L1Files man)))
                 in Some (map_sum id live r, db\<lparr>db_currentVersion := v_Release version\<rparr>)))"

text \<open>The accumulator of \<open>Scan\<close>: the keys seen and the candidates.\<close>

type_synonym scan_acc = "bytes list \<times> (bytes \<times> bytes) list"

definition scan_add :: "bytes \<Rightarrow> bytes \<Rightarrow> bool \<Rightarrow> scan_acc \<Rightarrow> scan_acc" where
  "scan_add k v keep acc =
     (let (seen, candidates) = acc in
      if k \<in> set seen then acc
      else (k # seen, if keep then candidates @ [(k, v)] else candidates))"

definition scan_mem :: "(bytes \<times> bytes) list \<Rightarrow> scan_acc \<Rightarrow> scan_acc" where
  "scan_mem items acc = foldl (\<lambda>acc (k, v). scan_add k v (0 < length v) acc) acc items"

text \<open>The body of the loop of \<open>scanSST\<close>; \<open>False\<close> is \<open>break\<close>.\<close>

definition scan_body :: "bytes \<Rightarrow> bytes \<Rightarrow> SSTIterator \<Rightarrow> scan_acc \<Rightarrow> scan_acc \<times> bool" where
  "scan_body startKey endKey it acc =
     (let k = it_key it in
      if 0 < length endKey \<and> 0 < bytes_Compare k endKey then (acc, False)
      else if length startKey = 0 \<or> 0 \<le> bytes_Compare k startKey
      then (scan_add k (it_val it) (it_op it \<noteq> OpDelete \<and> 0 < length (it_val it)) acc, True)
      else (acc, True))"

definition scanSST :: "disk \<Rightarrow> bytes \<Rightarrow> bytes \<Rightarrow> string \<Rightarrow> scan_acc \<Rightarrow> (go_error option \<times> scan_acc) option" where
  "scanSST d startKey endKey filePath acc =
     (case NewSSTIterator d filePath 0 of
        Inl e \<Rightarrow> Some (Some e, acc)
      | Inr it \<Rightarrow>
          (case for_Next it_Next (scan_body startKey endKey) it acc of
             None \<Rightarrow> None
           | Some (acc', it') \<Rightarrow> Some (it_err it', acc')))"

fun scan_files :: "string \<Rightarrow> disk \<Rightarrow> bytes \<Rightarrow> bytes \<Rightarrow> string list \<Rightarrow> scan_acc \<Rightarrow> (go_error option \<times> scan_acc) option" where
  "scan_files msg d startKey endKey [] acc = Some (None, acc)"
| "scan_files msg d startKey endKey (f # fs) acc =
     (case scanSST d startKey endKey f acc of
        None \<Rightarrow> None
      | Some (Some e, acc') \<Rightarrow> Some (Some (Wrapped msg e), acc')
      | Some (None, acc') \<Rightarrow> scan_files msg d startKey endKey fs acc')"

text \<open>\<open>Scan\<close>; \<open>sort.Slice\<close> on candidates with distinct keys has one result, the sorted list.\<close>

definition db_Scan :: "DB \<Rightarrow> bytes \<Rightarrow> bytes \<Rightarrow> ((bytes \<times> bytes) list result \<times> DB) option" where
  "db_Scan db startKey endKey =
     (case mt_Scan (db_activeMT db) startKey endKey of
        None \<Rightarrow> None
      | Some act \<Rightarrow>
          (case (case db_immutableMT db of None \<Rightarrow> Some [] | Some im \<Rightarrow> mt_Scan im startKey endKey) of
             None \<Rightarrow> None
           | Some imm \<Rightarrow>
               let acc = scan_mem imm (scan_mem act ([], []));
                   (ok, version) = v_Acquire (db_currentVersion db);
                   man = v_Manifest version;
                   db' = db\<lparr>db_currentVersion := v_Release version\<rparr>
               in if \<not> ok then None
                  else case scan_files ''failed to scan L0 SSTable'' (db_disk db) startKey endKey (rev (m_L0Files man)) acc of
                      None \<Rightarrow> None
                    | Some (Some e, _) \<Rightarrow> Some (Inl e, db')
                    | Some (None, acc1) \<Rightarrow>
                        (case scan_files ''failed to scan L1 SSTable'' (db_disk db) startKey endKey (rev (m_L1Files man)) acc1 of
                           None \<Rightarrow> None
                         | Some (Some e, _) \<Rightarrow> Some (Inl e, db')
                         | Some (None, (_, candidates)) \<Rightarrow> Some (Inr (sort_key fst candidates), db'))))"

section \<open>Writing\<close>

text \<open>
  \<open>CheckFlush\<close>; \<open>dt\<close> is the measured duration. The queue has room for one table; a send to a full
  queue would block with the mutex held.
\<close>

definition CheckFlush :: "real \<Rightarrow> DB \<Rightarrow> DB option" where
  "CheckFlush dt db =
     (let active = db_activeMT db in
      if mt_Size active < db_flushThreshold db then Some db
      else if db_immutableMT db \<noteq> None then Some db
      else
        let frozen = mt_Freeze active; newMT = NewMemTable in
        if 1 \<le> length (db_flushQ db) then None
        else Some (db\<lparr>db_immutableMT := Some frozen, db_activeMT := newMT, db_flushQ := db_flushQ db @ [frozen],
          db_metrics := em_Set MemTableActiveBytes (mt_size newMT)
            (em_Observe MemTableSwapDuration dt (em_Inc MemTableSwapEvents (db_metrics db)))\<rparr>))"

text \<open>The retry loop of \<open>Put\<close> and \<open>Delete\<close>.\<close>

partial_function (option) put_loop ::
  "(nat \<Rightarrow> nat \<Rightarrow> bool) \<Rightarrow> real \<Rightarrow> DB \<Rightarrow> bytes \<Rightarrow> bytes \<Rightarrow> DB option" where
  "put_loop rnd dt db key val =
     (case mt_Put (rnd 0) (db_activeMT db) key val of
        None \<Rightarrow> None
      | Some (Some e, m) \<Rightarrow> put_loop (\<lambda>i. rnd (Suc i)) dt (db\<lparr>db_activeMT := m\<rparr>) key val
      | Some (None, m) \<Rightarrow>
          let db' = db\<lparr>db_activeMT := m\<rparr> in
          if db_flushThreshold db' \<le> mt_Size m then CheckFlush dt db' else Some db')"

declare put_loop.simps [code]

definition db_Put ::
  "(nat \<Rightarrow> nat \<Rightarrow> bool) \<Rightarrow> real \<Rightarrow> DB \<Rightarrow> bytes \<Rightarrow> bytes \<Rightarrow> (go_error option \<times> DB) option" where
  "db_Put rnd dt db key val =
     (case wal_Append (db_wal db) OpPut key val of
        (Some e, w) \<Rightarrow> Some (Some (Wrapped ''engine failed to append Put to WAL'' e), db\<lparr>db_wal := w\<rparr>)
      | (None, w) \<Rightarrow>
          (case put_loop rnd dt (db\<lparr>db_wal := w\<rparr>) key val of None \<Rightarrow> None | Some db' \<Rightarrow> Some (None, db')))"

definition db_Delete ::
  "(nat \<Rightarrow> nat \<Rightarrow> bool) \<Rightarrow> real \<Rightarrow> DB \<Rightarrow> bytes \<Rightarrow> (go_error option \<times> DB) option" where
  "db_Delete rnd dt db key =
     (case wal_Append (db_wal db) OpDelete key [] of
        (Some e, w) \<Rightarrow> Some (Some (Wrapped ''engine failed to append Delete to WAL'' e), db\<lparr>db_wal := w\<rparr>)
      | (None, w) \<Rightarrow>
          (case put_loop rnd dt (db\<lparr>db_wal := w\<rparr>) key [] of None \<Rightarrow> None | Some db' \<Rightarrow> Some (None, db')))"

section \<open>The background worker\<close>

text \<open>
  \<open>maybeCompact\<close>; a compaction that reports an error is only logged. The batch is all L0 files, and
  no flush can add one meanwhile, since this runs in the flush worker.
\<close>

definition maybeCompact :: "int \<Rightarrow> os_file result \<Rightarrow> DB \<Rightarrow> DB option" where
  "maybeCompact now opened db =
     (let man = v_Manifest (db_currentVersion db) in
      if int (length (m_L0Files man)) < db_compactionThreshold db then Some db
      else
        let l1Path = generateSSTPath db ''L1'' now; l0FilesToCompact = m_L0Files man in
        case CompactL0toL1 l0FilesToCompact opened l1Path (db_disk db) of
          None \<Rightarrow> None
        | Some (Some e, d) \<Rightarrow> Some (db\<lparr>db_disk := d\<rparr>)
        | Some (None, d) \<Rightarrow>
            let oldVersion = db_currentVersion db;
                remainingL0 = filter (\<lambda>f. f \<notin> set l0FilesToCompact) (m_L0Files (v_Manifest oldVersion));
                newManifest = \<lparr>m_L0Files = remainingL0, m_L1Files = m_L1Files (v_Manifest oldVersion) @ [l1Path]\<rparr>
            in Some (db\<lparr>db_disk := d, db_currentVersion := \<lparr>v_Manifest = newManifest, v_Refs = 0\<rparr>,
                        db_purges := db_purges db @ [(oldVersion, l0FilesToCompact)]\<rparr>))"

definition TriggerCompaction :: "int \<Rightarrow> os_file result \<Rightarrow> DB \<Rightarrow> DB option" where
  "TriggerCompaction now opened db = maybeCompact now opened db"

text \<open>One receive from \<open>flushQ\<close>; a flush that fails is only logged.\<close>

definition worker_flush :: "os_file result \<Rightarrow> int \<Rightarrow> os_file result \<Rightarrow> DB \<Rightarrow> DB option" where
  "worker_flush opened now compOpened db =
     (case db_flushQ db of
        [] \<Rightarrow> Some db
      | mt # q \<Rightarrow>
          let filepath = generateSSTPath db ''L0'' (db_flushCount db) in
          case FlushMemTable mt opened filepath (db_disk db) of
            None \<Rightarrow> None
          | Some (e, d) \<Rightarrow>
              let old = v_Manifest (db_currentVersion db);
                  newManifest = \<lparr>m_L0Files = m_L0Files old @ [filepath], m_L1Files = m_L1Files old\<rparr>;
                  db' = db\<lparr>db_flushQ := q, db_disk := d, db_flushCount := db_flushCount db + 1,
                           db_currentVersion := \<lparr>v_Manifest = newManifest, v_Refs = 0\<rparr>, db_immutableMT := None\<rparr>
              in if db_compactionThreshold db' \<le> int (length (m_L0Files newManifest))
                 then maybeCompact now compOpened db' else Some db')"

text \<open>A purging goroutine gets its turn; it goes on waiting while its version has readers.\<close>

definition worker_purge :: "DB \<Rightarrow> DB" where
  "worker_purge db =
     (case db_purges db of
        [] \<Rightarrow> db
      | (v, files) # ps \<Rightarrow>
          (case PurgeObsoleteFiles v files (db_disk db) of
             None \<Rightarrow> db
           | Some (_, d) \<Rightarrow> db\<lparr>db_disk := d, db_purges := ps\<rparr>))"

text \<open>The worker after the stop signal: it closes the queue and flushes what is in it.\<close>

fun drain_queue :: "os_file result list \<Rightarrow> memtable list \<Rightarrow> DB \<Rightarrow> DB option" where
  "drain_queue opened [] db = Some (db\<lparr>db_flushQ := []\<rparr>)"
| "drain_queue opened (mt # q) db =
     (case FlushMemTable mt (hd opened) (generateSSTPath db ''L0'' (db_flushCount db)) (db_disk db) of
        None \<Rightarrow> None
      | Some (e, d) \<Rightarrow> drain_queue (tl opened) q (db\<lparr>db_disk := d, db_flushCount := db_flushCount db + 1\<rparr>))"

text \<open>
  \<open>Close\<close>. While the immutable table is still there it waits for the worker, whose turn this is
  (\<open>o1\<close>, \<open>now1\<close>, \<open>c1\<close>). With the stop signal and a queued table both ready, \<open>select\<close> may take
  either case: \<open>pick\<close> says whether it takes the table first (\<open>o2\<close>, \<open>now2\<close>, \<open>c2\<close>).
\<close>

definition db_Close ::
  "real \<Rightarrow> os_file result \<Rightarrow> int \<Rightarrow> os_file result \<Rightarrow> bool \<Rightarrow> os_file result \<Rightarrow> int \<Rightarrow> os_file result \<Rightarrow> DB \<Rightarrow>
   (go_error option \<times> DB) option" where
  "db_Close dt o1 now1 c1 pick o2 now2 c2 db =
     (case wal_Close (db_wal db) (db_metrics db) dt of
        (Some e, w, em) \<Rightarrow>
          Some (Some (wrap_err ''failed to cleanly close WAL'' e), db\<lparr>db_wal := w, db_metrics := em\<rparr>)
      | (None, w, em) \<Rightarrow>
          let db1 = db\<lparr>db_wal := w, db_metrics := em\<rparr> in
          case (if 0 < mt_Size (db_activeMT db1) \<and> db_immutableMT db1 \<noteq> None
                then worker_flush o1 now1 c1 db1 else Some db1) of
            None \<Rightarrow> None
          | Some db2 \<Rightarrow>
              if 0 < mt_Size (db_activeMT db2) \<and> db_immutableMT db2 \<noteq> None then None
              else
                let active = db_activeMT db2;
                    db3 = (if 0 < mt_Size active
                           then db2\<lparr>db_immutableMT := Some active, db_flushQ := db_flushQ db2 @ [active]\<rparr> else db2);
                    db4 = db3\<lparr>db_stopped := True\<rparr>
                in case (if pick then worker_flush o2 now2 c2 db4 else Some db4) of
                     None \<Rightarrow> None
                   | Some db5 \<Rightarrow>
                       (case drain_queue [o2] (db_flushQ db5) db5 of
                          None \<Rightarrow> None
                        | Some db6 \<Rightarrow> Some (None, db6)))"

end
