(* ===== verification/Engine_Spec.thy ===== *)
theory Engine_Spec
  imports Engine
begin

text \<open>
  The engine against its specification. The abstract state is the map of all writes in the log; the
  layers (active and immutable table, L0 files, L1 files) hold it newest first. Each request answers
  from the map and each turn of the worker leaves the map alone.
\<close>

section \<open>Reading the layers\<close>

abbreviation put_ents :: "(bytes \<times> bytes) list list \<Rightarrow> sst_ent list list" where
  "put_ents ss \<equiv> map (map put_ent) ss"

definition view ::
  "(bytes \<times> bytes) list \<Rightarrow> (bytes \<times> bytes) list \<Rightarrow> (bytes \<times> bytes) list list \<Rightarrow> (bytes \<times> bytes) list list \<Rightarrow>
   (bytes \<times> bytes) list" where
  "view aes ies ss0 ss1 = aes @ ies @ concat (rev ss0) @ concat (rev ss1)"

definition short_keys :: "(bytes \<times> bytes) list \<Rightarrow> bool" where
  "short_keys es \<longleftrightarrow> (\<forall>e \<in> set es. fst e \<noteq> [] \<and> length (fst e) < 65530)"

lemma short_keys_append [simp]: "short_keys (a @ b) \<longleftrightarrow> short_keys a \<and> short_keys b"
  by (auto simp: short_keys_def)

lemma files_hold_Cons:
  "files_hold d (f # fs) (es # ss) \<longleftrightarrow> (\<exists>g. d f = Some g \<and> sst_holds (f_data g) es) \<and> files_hold d fs ss"
  by (simp add: files_hold_def)

lemma files_hold_rev: "files_hold d (rev fs) (rev ss) \<longleftrightarrow> files_hold d fs ss"
  by (simp add: files_hold_def)

lemma files_hold_append:
  "length fs = length ss \<Longrightarrow> files_hold d (fs @ gs) (ss @ ts) \<longleftrightarrow> files_hold d fs ss \<and> files_hold d gs ts"
  by (simp add: files_hold_def list_all2_append)

lemma files_hold_length: "files_hold d fs ss \<Longrightarrow> length fs = length ss"
  by (simp add: files_hold_def list_all2_lengthD)

lemma files_hold_cong:
  "files_hold d fs ss \<Longrightarrow> (\<And>f. f \<in> set fs \<Longrightarrow> d' f = d f) \<Longrightarrow> files_hold d' fs ss"
  unfolding files_hold_def by (auto elim!: list.rel_mono_strong)

lemma search_files_hold:
  assumes "files_hold d fs (put_ents ss)" and "short_keys (concat ss)"
  shows "search_files msg d key fs = Inr (map_of (concat ss) key)"
  using assms
proof (induction fs arbitrary: ss)
  case Nil
  then show ?case by (simp add: files_hold_def)
next
  case (Cons f fs)
  obtain es ss' where ss: "ss = es # ss'"
    using files_hold_length [OF Cons.prems(1)] by (cases ss) auto
  obtain g where g: "d f = Some g" "sst_holds (f_data g) (map put_ent es)" and rest: "files_hold d fs (put_ents ss')"
    using Cons.prems(1) by (auto simp: ss files_hold_Cons)
  have sk: "short_keys es" "short_keys (concat ss')" using Cons.prems(2) by (simp_all add: ss)
  have "length (fst (hd (map put_ent es))) < 65530" if "map put_ent es \<noteq> []"
    using that sk(1) by (cases es) (auto simp: short_keys_def put_ent_def)
  then have read: "ReadSSTable d f key = Inr (map_of es key)"
    using sst_lookup_eq [OF g(2)] g(1) by (simp add: ReadSSTable_def map_of_put_ent)
  show ?case
    using Cons.IH [OF rest sk(2)] read
    by (cases "map_of es key") (simp_all add: ss map_add_def split: option.splits)
qed

section \<open>Scanning the layers\<close>

definition scan_inv :: "(bytes \<times> bytes) list \<Rightarrow> scan_acc \<Rightarrow> bool" where
  "scan_inv L acc \<longleftrightarrow> set (fst acc) = fst ` set L \<and> distinct (map fst (snd acc)) \<and>
     (\<forall>k v. (k, v) \<in> set (snd acc) \<longleftrightarrow> map_of L k = Some v \<and> v \<noteq> [])"

lemma scan_inv_Nil: "scan_inv [] ([], [])"
  by (simp add: scan_inv_def)

lemma scan_add_inv:
  assumes "scan_inv L acc"
  shows "scan_inv (L @ [(k, v)]) (scan_add k v (v \<noteq> []) acc)"
proof -
  obtain seen cs where acc: "acc = (seen, cs)" by (cases acc)
  have inv: "set seen = fst ` set L" "distinct (map fst cs)"
    "\<And>k v. (k, v) \<in> set cs \<longleftrightarrow> map_of L k = Some v \<and> v \<noteq> []"
    using assms by (simp_all add: scan_inv_def acc)
  show ?thesis
  proof (cases "k \<in> set seen")
    case True
    then have "map_of L k \<noteq> None" using inv(1) by (simp add: map_of_eq_None_iff)
    then have "map_of (L @ [(k, v)]) = map_of L" by (auto simp: fun_eq_iff map_add_def split: option.splits)
    then show ?thesis
      using True inv by (auto simp: scan_inv_def scan_add_def acc)
  next
    case False
    then have none: "map_of L k = None" using inv(1) by (simp add: map_of_eq_None_iff)
    have "k \<notin> fst ` set cs"
    proof
      assume "k \<in> fst ` set cs"
      then obtain w where "(k, w) \<in> set cs" by auto
      then show False using inv(3) none by simp
    qed
    moreover have "map_of (L @ [(k, v)]) = (map_of L)(k \<mapsto> v)"
      using none by (auto simp: fun_eq_iff map_add_def split: option.splits)
    ultimately show ?thesis
      using False inv none by (auto simp: scan_inv_def scan_add_def acc)
  qed
qed

lemma scan_mem_inv: "scan_inv L acc \<Longrightarrow> scan_inv (L @ items) (scan_mem items acc)"
proof (induction items arbitrary: L acc)
  case (Cons e items)
  obtain k v where e: "e = (k, v)" by (cases e)
  have "scan_inv ((L @ [(k, v)]) @ items) (scan_mem items (scan_add k v (v \<noteq> []) acc))"
    by (rule Cons.IH [OF scan_add_inv [OF Cons.prems]])
  then show ?case by (simp add: scan_mem_def e)
qed (simp add: scan_mem_def)

text \<open>The loop over one file adds the entries of the range.\<close>

definition scan_step :: "bytes \<Rightarrow> bytes \<Rightarrow> sst_ent \<Rightarrow> scan_acc \<Rightarrow> scan_acc \<times> bool" where
  "scan_step a b e acc =
     (if b \<noteq> [] \<and> b < fst e then (acc, False)
      else if a = [] \<or> a \<le> fst e
      then (scan_add (fst e) (snd (snd e)) (fst (snd e) \<noteq> OpDelete \<and> snd (snd e) \<noteq> []) acc, True)
      else (acc, True))"

lemma scan_body_step: "scan_body a b it acc = scan_step a b (it_item it) acc"
  by (simp add: scan_body_def scan_step_def it_item_def go_cmp Let_def)

lemma fold_scan_step:
  assumes "ksorted es"
  shows "fold_break (scan_step a b) (map put_ent es) acc = scan_mem (filter (\<lambda>(k, v). in_range a b k) es) acc"
  using assms
proof (induction es arbitrary: acc)
  case (Cons e es)
  obtain k v where e: "e = (k, v)" by (cases e)
  show ?case
  proof (cases "b \<noteq> [] \<and> b < k")
    case True
    have "filter (\<lambda>(k, v). in_range a b k) (e # es) = []"
      using True Cons.prems by (auto simp: e filter_empty_conv in_range_def dest: order.strict_trans)
    then show ?thesis using True by (simp add: e put_ent_def scan_step_def scan_mem_def)
  next
    case False
    then have rng: "in_range a b k \<longleftrightarrow> a = [] \<or> a \<le> k" by (auto simp: in_range_def)
    have step: "scan_step a b (put_ent (k, v)) acc = (if in_range a b k then scan_add k v (v \<noteq> []) acc else acc, True)"
      using False by (auto simp: rng put_ent_def scan_step_def opcodes)
    have "ksorted es" using Cons.prems by simp
    from Cons.IH [OF this] show ?thesis
      by (simp add: e step scan_mem_def)
  qed
qed (simp add: scan_mem_def)

lemma scan_files_hold:
  assumes "files_hold d fs (put_ents ss)"
  shows "scan_files msg d a b fs acc = Some (None, scan_mem (filter (\<lambda>(k, v). in_range a b k) (concat ss)) acc)"
  using assms
proof (induction fs arbitrary: ss acc)
  case Nil
  then show ?case by (simp add: files_hold_def scan_mem_def)
next
  case (Cons f fs)
  obtain es ss' where ss: "ss = es # ss'"
    using files_hold_length [OF Cons.prems] by (cases ss) auto
  obtain g where g: "d f = Some g" "sst_holds (f_data g) (map put_ent es)" and rest: "files_hold d fs (put_ents ss')"
    using Cons.prems by (auto simp: ss files_hold_Cons)
  have srt: "ksorted es" using g(2) by (simp add: sst_holds_def sst_ok_def put_ent_def comp_def)
  obtain it where it: "NewSSTIterator d f 0 = Inr it" "it_at it (map put_ent es)" "it_err it = None"
    using NewSSTIterator_holds [of d f g "map put_ent es" 0] g by blast
  obtain it' where "for_Next it_Next (scan_body a b) it acc = Some (fold_break (scan_step a b) (map put_ent es) acc, it')"
    "it_err it' = None"
    using sst.for_Next_at [OF it(2), of "scan_body a b" "scan_step a b" acc] it(3) by (auto simp: scan_body_step)
  then have "scanSST d a b f acc = Some (None, scan_mem (filter (\<lambda>(k, v). in_range a b k) es) acc)"
    by (simp add: scanSST_def it(1) fold_scan_step [OF srt])
  then show ?case
    using Cons.IH [OF rest] by (simp add: ss scan_mem_def)
qed

lemma sorted_candidates:
  assumes "scan_inv L acc"
  shows "ksorted (sort_key fst (snd acc))" and "map_of (sort_key fst (snd acc)) k = live (map_of L k)"
proof -
  let ?s = "sort_key fst (snd acc)"
  have d: "distinct (map fst ?s)" using assms by (simp add: scan_inv_def distinct_map)
  have "sorted (map fst ?s)" by simp
  then show "ksorted ?s" using d by (simp add: strict_sorted_iff)
  have mem: "(k, v) \<in> set ?s \<longleftrightarrow> map_of L k = Some v \<and> v \<noteq> []" for k v
    using assms by (simp add: scan_inv_def)
  show "map_of ?s k = live (map_of L k)"
  proof (cases "live (map_of L k)")
    case None
    then have "(k, v) \<notin> set ?s" for v unfolding mem by (auto simp: live_def split: option.splits if_splits)
    then have "map_of ?s k = None" by (metis map_of_SomeD not_None_eq)
    then show ?thesis using None by simp
  next
    case (Some v)
    then have "(k, v) \<in> set ?s" unfolding mem by (auto simp: live_def split: option.splits if_splits)
    then show ?thesis using d Some by (simp add: map_of_is_SomeI del: set_sort)
  qed
qed

section \<open>The layers of a state\<close>

abbreviation db_L0 :: "DB \<Rightarrow> string list" where
  "db_L0 db \<equiv> m_L0Files (v_Manifest (db_currentVersion db))"

abbreviation db_L1 :: "DB \<Rightarrow> string list" where
  "db_L1 db \<equiv> m_L1Files (v_Manifest (db_currentVersion db))"

definition lay ::
  "DB \<Rightarrow> (bytes \<times> bytes) list \<Rightarrow> (bytes \<times> bytes) list \<Rightarrow> (bytes \<times> bytes) list list \<Rightarrow> (bytes \<times> bytes) list list \<Rightarrow> bool" where
  "lay db aes ies ss0 ss1 \<longleftrightarrow>
     mt_rel (db_activeMT db) aes \<and> \<not> mt_frozen (db_activeMT db) \<and>
     (case db_immutableMT db of
        None \<Rightarrow> ies = [] \<and> db_flushQ db = []
      | Some m \<Rightarrow> mt_rel m ies \<and> db_flushQ db = [m]) \<and>
     files_hold (db_disk db) (db_L0 db) (put_ents ss0) \<and> files_hold (db_disk db) (db_L1 db) (put_ents ss1) \<and>
     v_Refs (db_currentVersion db) = 0"

lemma acquire_release:
  assumes "v_Refs v = 0"
  shows "v_Acquire v = (True, v\<lparr>v_Refs := 1\<rparr>)" and "v_Release (v\<lparr>v_Refs := 1\<rparr>) = v"
  using assms by (simp_all add: v_Acquire_def v_Release_def refs_negative_def)

lemma concat_rev_hold:
  assumes "files_hold d fs (put_ents ss)"
  shows "files_hold d (rev fs) (put_ents (rev ss))"
  using assms files_hold_rev [of d fs "put_ents ss"] by (simp add: rev_map)

lemma live_simps [simp]: "live None = None" "live (Some v) = (if v = [] then None else Some v)"
  by (simp_all add: live_def)

lemma db_Get_lay:
  assumes lay: "lay db aes ies ss0 ss1" and short: "short_keys (view aes ies ss0 ss1)"
  shows "db_Get db key = Some (Inr (live (map_of (view aes ies ss0 ss1) key)), db)"
proof -
  let ?v = "db_currentVersion db"
  have act: "mt_Get (db_activeMT db) key = Some (map_of aes key)"
    using lay by (simp add: lay_def mt_Get_rel)
  have imm: "(case db_immutableMT db of None \<Rightarrow> Some None | Some im \<Rightarrow> mt_Get im key) = Some (map_of ies key)"
    using lay by (auto simp: lay_def mt_Get_rel split: option.splits)
  have refs: "v_Acquire ?v = (True, ?v\<lparr>v_Refs := 1\<rparr>)" "v_Release (?v\<lparr>v_Refs := 1\<rparr>) = ?v"
    using lay by (simp_all add: lay_def acquire_release)
  have l0: "search_files msg (db_disk db) key (rev (db_L0 db)) = Inr (map_of (concat (rev ss0)) key)" for msg
    using lay short by (intro search_files_hold concat_rev_hold) (simp_all add: lay_def view_def)
  have l1: "search_files msg (db_disk db) key (rev (db_L1 db)) = Inr (map_of (concat (rev ss1)) key)" for msg
    using lay short by (intro search_files_hold concat_rev_hold) (simp_all add: lay_def view_def)
  show ?thesis
    by (cases "map_of aes key"; cases "map_of ies key"; cases "map_of (concat (rev ss0)) key")
      (simp_all add: db_Get_def act imm refs l0 l1 view_def map_add_def Let_def)
qed

lemma db_Scan_lay:
  assumes lay: "lay db aes ies ss0 ss1"
  shows "\<exists>xs. db_Scan db a b = Some (Inr xs, db) \<and> ksorted xs \<and>
    (\<forall>k. map_of xs k = (if in_range a b k then live (map_of (view aes ies ss0 ss1) k) else None))"
proof -
  let ?v = "db_currentVersion db" and ?in = "filter (\<lambda>(k, v). in_range a b k)"
  have act: "mt_Scan (db_activeMT db) a b = Some (?in aes)"
    using lay by (simp add: lay_def mt_Scan_rel)
  have imm: "(case db_immutableMT db of None \<Rightarrow> Some [] | Some im \<Rightarrow> mt_Scan im a b) = Some (?in ies)"
    using lay by (auto simp: lay_def mt_Scan_rel split: option.splits)
  have refs: "v_Acquire ?v = (True, ?v\<lparr>v_Refs := 1\<rparr>)" "v_Release (?v\<lparr>v_Refs := 1\<rparr>) = ?v"
    using lay by (simp_all add: lay_def acquire_release)
  have l0: "scan_files msg (db_disk db) a b (rev (db_L0 db)) acc = Some (None, scan_mem (?in (concat (rev ss0))) acc)"
    for msg acc using lay by (intro scan_files_hold concat_rev_hold) (simp add: lay_def)
  have l1: "scan_files msg (db_disk db) a b (rev (db_L1 db)) acc = Some (None, scan_mem (?in (concat (rev ss1))) acc)"
    for msg acc using lay by (intro scan_files_hold concat_rev_hold) (simp add: lay_def)
  define acc where "acc = scan_mem (?in (concat (rev ss1))) (scan_mem (?in (concat (rev ss0)))
    (scan_mem (?in ies) (scan_mem (?in aes) ([], []))))"
  have inv: "scan_inv (?in (view aes ies ss0 ss1)) acc"
    using scan_mem_inv [OF scan_mem_inv [OF scan_mem_inv [OF scan_mem_inv [OF scan_inv_Nil]]],
        of "?in aes" "?in ies" "?in (concat (rev ss0))" "?in (concat (rev ss1))"]
    by (simp add: acc_def view_def)
  have "db_Scan db a b = Some (Inr (sort_key fst (snd acc)), db)"
    by (simp add: db_Scan_def act imm refs l0 l1 Let_def acc_def split: prod.splits)
  then show ?thesis
    using sorted_candidates [OF inv] by (auto simp: map_of_filter_key)
qed

end
