(* ===== verification/Engine_Inv.thy ===== *)
theory Engine_Inv
  imports Engine_Spec
begin

text \<open>
  The invariant of the engine, and that writes, sync ticks, flushes, compactions and purges keep it.
  \<open>rs\<close> are the records in the log and \<open>U\<close> the clock readings that compactions have used.
\<close>

section \<open>Sizes\<close>

definition lsize :: "(bytes \<times> bytes) list \<Rightarrow> nat" where
  "lsize es = sum_list (map (\<lambda>(k, v). 7 + length k + length v) es)"

lemma lsize_simps [simp]:
  "lsize [] = 0" "lsize ((k, v) # es) = 7 + length k + length v + lsize es" "lsize (a @ b) = lsize a + lsize b"
  by (simp_all add: lsize_def)

lemma lsize_upd: "lsize (upd k v es) \<le> lsize es + (7 + length k + length v)"
  by (induction k v es rule: upd.induct) auto

lemma lsize_mem: "(k, v) \<in> set es \<Longrightarrow> 7 + length k + length v \<le> lsize es"
  by (induction es) auto

lemma lsize_distinct_subset:
  assumes "distinct xs" and "set xs \<subseteq> set ys"
  shows "lsize xs \<le> lsize ys"
proof -
  let ?f = "\<lambda>(k :: bytes, v :: bytes). 7 + length k + length v"
  have "lsize xs = sum ?f (set xs)" using assms(1) by (simp add: lsize_def sum_list_distinct_conv_sum_set)
  also have "\<dots> \<le> sum ?f (set ys)" using assms(2) by (intro sum_mono2) auto
  also have "\<dots> \<le> lsize ys"
  proof (induction ys)
    case (Cons y ys)
    then show ?case by (cases "y \<in> set ys") (auto simp: insert_absorb lsize_def split: prod.splits)
  qed simp
  finally show ?thesis .
qed

lemma length_le_lsize: "length es \<le> lsize es"
  by (induction es) auto

lemma length_sst_data_put: "length (sst_data (map put_ent es)) = lsize es"
  by (induction es) (auto simp: sst_data_def put_ent_def length_sst_entry)

lemma sst_ok_put:
  assumes "ksorted es" and "short_keys es" and "lsize es < 4294967296"
  shows "sst_ok (map put_ent es)"
proof -
  have "ent_ok (put_ent e)" if "e \<in> set es" for e
    using that assms(2,3) lsize_mem [of "fst e" "snd e" es] by (force simp: ent_ok_def put_ent_def short_keys_def)
  then show ?thesis using assms by (simp add: sst_ok_def length_sst_data_put put_ent_def comp_def)
qed

lemma short_keys_upd: "short_keys (upd k v es) \<longleftrightarrow> k \<noteq> [] \<and> length k < 65530 \<and> short_keys (filter (\<lambda>e. fst e \<noteq> k) es)"
  by (induction k v es rule: upd.induct) (auto simp: short_keys_def)

section \<open>Compacted files\<close>

text \<open>What a compaction of L0 files without the empty key writes.\<close>

definition compact_ents :: "(bytes \<times> bytes) list list \<Rightarrow> (bytes \<times> bytes) list" where
  "compact_ents ss = map (\<lambda>e. (fst e, snd (snd e))) (compacted (put_ents ss))"

lemma newest_put: "newest (put_ents ss) k = map_option (\<lambda>v. (OpPut, v)) (map_of (concat (rev ss)) k)"
proof -
  have "map_of (map put_ent es) k = map_option (\<lambda>v. (OpPut, v)) (map_of es k)" for es
    by (induction es) (auto simp: put_ent_def)
  from this [of "concat (rev ss)"] show ?thesis by (simp add: newest_def rev_map map_concat)
qed

lemma compacted_put: "compacted (put_ents ss) = map put_ent (compact_ents ss)"
proof -
  have "fst (snd e) = OpPut" if "e \<in> set (compacted (put_ents ss))" for e
  proof -
    have "distinct (map fst (compacted (put_ents ss)))"
      using ksorted_merged [of "put_ents ss"] by (simp add: compacted_def strict_sorted_iff distinct_map inj_on_def)
    then have "map_of (compacted (put_ents ss)) (fst e) = Some (snd e)"
      using that by (simp add: map_of_is_SomeI)
    then show ?thesis by (cases e) (auto simp: map_of_compacted newest_put split: if_splits)
  qed
  then have "map (put_ent \<circ> (\<lambda>e. (fst e, snd (snd e)))) (compacted (put_ents ss)) = map id (compacted (put_ents ss))"
    by (intro map_cong) (auto simp: put_ent_def prod_eq_iff)
  then show ?thesis by (simp add: compact_ents_def)
qed

lemma map_of_compact_ents: "short_keys (concat ss) \<Longrightarrow> map_of (compact_ents ss) = map_of (concat (rev ss))"
proof
  fix k assume "short_keys (concat ss)"
  then have "k = [] \<Longrightarrow> map_of (concat (rev ss)) k = None"
    by (fastforce simp: short_keys_def map_of_eq_None_iff)
  moreover have "map_of (compact_ents ss) k = map_option snd (map_of (compacted (put_ents ss)) k)"
    unfolding compacted_put map_of_put_ent ..
  ultimately show "map_of (compact_ents ss) k = map_of (concat (rev ss)) k"
    by (cases "map_of (concat (rev ss)) k") (auto simp: map_of_compacted newest_put)
qed

lemma compact_ents_sub:
  shows "ksorted (compact_ents ss)" and "set (compact_ents ss) \<subseteq> set (concat ss)"
proof -
  have "ksorted (compacted (put_ents ss))"
    using ksorted_merged [of "put_ents ss"] by (simp add: compacted_def sorted_wrt_map sorted_wrt_filter)
  then show srt: "ksorted (compact_ents ss)" by (simp add: compact_ents_def comp_def)
  show "set (compact_ents ss) \<subseteq> set (concat ss)"
  proof
    fix e assume e: "e \<in> set (compact_ents ss)"
    have "distinct (map fst (compact_ents ss))" using srt by (simp add: strict_sorted_iff)
    then have "map_of (compact_ents ss) (fst e) = Some (snd e)" using e by (simp add: map_of_is_SomeI)
    then have "map_option snd (map_of (compacted (put_ents ss)) (fst e)) = Some (snd e)"
      unfolding compacted_put map_of_put_ent .
    then have "map_of (concat (rev ss)) (fst e) = Some (snd e)"
      by (auto simp: map_of_compacted newest_put split: if_splits)
    then show "e \<in> set (concat ss)" by (auto dest: map_of_SomeD)
  qed
qed

lemma compact_ents_fits:
  assumes "short_keys (concat ss)"
  shows "short_keys (compact_ents ss)" and "lsize (compact_ents ss) \<le> lsize (concat ss)"
proof -
  show "short_keys (compact_ents ss)" using assms compact_ents_sub(2) [of ss] by (auto simp: short_keys_def)
  have "distinct (compact_ents ss)"
    using compact_ents_sub(1) [of ss] by (simp add: strict_sorted_iff distinct_map)
  then show "lsize (compact_ents ss) \<le> lsize (concat ss)" by (rule lsize_distinct_subset [OF _ compact_ents_sub(2)])
qed

section \<open>File names\<close>

definition level_name :: "string \<Rightarrow> bool" where
  "level_name l \<longleftrightarrow> l = ''L0'' \<or> l = ''L1''"

lemma generateSSTPath_eq:
  assumes "level_name l" and "level_name l'"
  shows "generateSSTPath db l n = generateSSTPath db l' n' \<longleftrightarrow> l = l' \<and> n = n'"
proof -
  let ?name = "\<lambda>l n. ''data-'' @ l @ ''-'' @ fmt_int n @ ''.sst''"
  have name: "?name l n = ?name l' n' \<longleftrightarrow> l = l' \<and> n = n'"
    using assms by (auto simp: level_name_def fmt_int_inj)
  show ?thesis
  proof (cases "db_sstDir db = []")
    case True
    then show ?thesis using name by (simp add: generateSSTPath_def)
  next
    case False
    obtain pre where pre: "\<And>name. name \<noteq> [] \<Longrightarrow> name \<noteq> ''.'' \<Longrightarrow> name \<noteq> ''..'' \<Longrightarrow> CHR ''/'' \<notin> set name \<Longrightarrow>
        filepath_Join (db_sstDir db) name = pre @ name"
      using filepath_Join_plain [OF False] by blast
    have plain: "filepath_Join (db_sstDir db) (?name l n) = pre @ ?name l n" if "level_name l" for l n
      using that fmt_int_no_slash [of n] by (intro pre) (auto simp: level_name_def)
    show ?thesis
      using plain [OF assms(1), of n] plain [OF assms(2), of n'] name False
      by (simp add: generateSSTPath_def Let_def)
  qed
qed

lemmas path_eq [simp] = generateSSTPath_eq [of "''L0''" "''L0''"] generateSSTPath_eq [of "''L0''" "''L1''"]
  generateSSTPath_eq [of "''L1''" "''L0''"] generateSSTPath_eq [of "''L1''" "''L1''"]

lemma level_names [simp]: "level_name ''L0''" "level_name ''L1''"
  by (simp_all add: level_name_def)

definition purge_files :: "DB \<Rightarrow> string set" where
  "purge_files db = (\<Union>p \<in> set (db_purges db). set (snd p))"

definition path_inv :: "DB \<Rightarrow> int set \<Rightarrow> bool" where
  "path_inv db U \<longleftrightarrow>
     (\<forall>f \<in> set (db_L0 db) \<union> purge_files db. \<exists>i < db_flushCount db. f = generateSSTPath db ''L0'' i) \<and>
     (\<forall>f \<in> set (db_L1 db). \<exists>t \<in> U. f = generateSSTPath db ''L1'' t) \<and>
     set (db_L0 db) \<inter> purge_files db = {}"

lemma path_cong: "db_sstDir db' = db_sstDir db \<Longrightarrow> generateSSTPath db' = generateSSTPath db"
  by (simp add: fun_eq_iff generateSSTPath_def Let_def)

lemma path_inv_new:
  assumes "path_inv db U"
  shows "generateSSTPath db ''L0'' (db_flushCount db) \<notin> set (db_L0 db) \<union> set (db_L1 db) \<union> purge_files db"
    and "t \<notin> U \<Longrightarrow> generateSSTPath db ''L1'' t \<notin> set (db_L0 db) \<union> set (db_L1 db) \<union> purge_files db"
proof -
  have l0: "\<exists>i < db_flushCount db. f = generateSSTPath db ''L0'' i" if "f \<in> set (db_L0 db) \<union> purge_files db" for f
    using that assms by (simp add: path_inv_def)
  have l1: "\<exists>t \<in> U. f = generateSSTPath db ''L1'' t" if "f \<in> set (db_L1 db)" for f
    using that assms by (simp add: path_inv_def)
  show "generateSSTPath db ''L0'' (db_flushCount db) \<notin> set (db_L0 db) \<union> set (db_L1 db) \<union> purge_files db"
    using l0 l1 by force
  show "generateSSTPath db ''L1'' t \<notin> set (db_L0 db) \<union> set (db_L1 db) \<union> purge_files db" if "t \<notin> U"
    using l0 l1 that by force
qed

lemma path_inv_purge:
  assumes "path_inv db U" and "f \<in> purge_files db"
  shows "f \<notin> set (db_L0 db)" and "f \<notin> set (db_L1 db)"
proof -
  show "f \<notin> set (db_L0 db)" using assms by (auto simp: path_inv_def)
  obtain i where i: "f = generateSSTPath db ''L0'' i" using assms unfolding path_inv_def by blast
  show "f \<notin> set (db_L1 db)"
  proof
    assume "f \<in> set (db_L1 db)"
    then obtain t where "f = generateSSTPath db ''L1'' t" using assms(1) by (auto simp: path_inv_def)
    then show False using i by simp
  qed
qed

lemma path_inv_flush:
  assumes "path_inv db U"
  shows "path_inv (db\<lparr>db_flushQ := q, db_disk := d, db_flushCount := db_flushCount db + 1,
    db_currentVersion := \<lparr>v_Manifest = \<lparr>m_L0Files = db_L0 db @ [generateSSTPath db ''L0'' (db_flushCount db)],
      m_L1Files = db_L1 db\<rparr>, v_Refs = 0\<rparr>, db_immutableMT := None\<rparr>) U" (is "path_inv ?db U")
proof -
  let ?new = "generateSSTPath db ''L0'' (db_flushCount db)"
  have gen: "generateSSTPath ?db = generateSSTPath db" by (rule path_cong) simp
  have pur: "purge_files ?db = purge_files db" by (simp add: purge_files_def)
  have l0: "set (db_L0 ?db) = insert ?new (set (db_L0 db))" and l1: "db_L1 ?db = db_L1 db"
    and fc: "db_flushCount ?db = db_flushCount db + 1" by simp_all
  have "\<exists>i < db_flushCount db + 1. f = generateSSTPath db ''L0'' i"
    if f: "f \<in> insert ?new (set (db_L0 db)) \<union> purge_files db" for f
  proof (cases "f = ?new")
    case False
    obtain i where "i < db_flushCount db" "f = generateSSTPath db ''L0'' i"
      using f False assms unfolding path_inv_def by blast
    then show ?thesis by (intro exI [of _ i]) simp
  qed (rule exI [of _ "db_flushCount db"], simp)
  moreover have "insert ?new (set (db_L0 db)) \<inter> purge_files db = {}"
    using assms path_inv_new(1) [OF assms] unfolding path_inv_def by blast
  ultimately show ?thesis
    using assms unfolding path_inv_def gen pur l0 l1 fc by blast
qed

lemma files_hold_other:
  assumes "files_hold d fs ss" and "path \<notin> set fs" and "\<forall>p. p \<noteq> path \<longrightarrow> d' p = d p"
  shows "files_hold d' fs ss"
  using assms(1) by (rule files_hold_cong) (use assms(2,3) in metis)

section \<open>The invariant\<close>

definition wal_inv :: "wal \<Rightarrow> wal_rec list \<Rightarrow> bool" where
  "wal_inv w rs \<longleftrightarrow> bw_healthy (wal_writer w) \<and> wal_total w = wal_log rs \<and> \<not> wal_stopped w \<and>
     (\<exists>z. f_data (wal_file w) = f_durable (wal_file w) @ z)"

text \<open>The map the log stands for, and what the log may hold.\<close>

abbreviation log_map :: "wal_rec list \<Rightarrow> bytes \<Rightarrow> bytes option" where
  "log_map rs \<equiv> map_of (rev (map rec_entry rs))"

definition log_ok :: "wal_rec list \<Rightarrow> bool" where
  "log_ok rs \<longleftrightarrow> (\<forall>r \<in> set rs. rec_ok r) \<and> short_keys (map rec_entry rs) \<and> lsize (map rec_entry rs) < 2 ^ 32"

definition layers_ok :: "DB \<Rightarrow> wal_rec list \<Rightarrow> (bytes \<times> bytes) list \<Rightarrow> (bytes \<times> bytes) list \<Rightarrow> (bytes \<times> bytes) list list \<Rightarrow>
    (bytes \<times> bytes) list list \<Rightarrow> bool" where
  "layers_ok db rs aes ies ss0 ss1 \<longleftrightarrow> lay db aes ies ss0 ss1 \<and>
     map_of (view aes ies ss0 ss1) = log_map rs \<and> short_keys (view aes ies ss0 ss1) \<and>
     lsize (view aes ies ss0 ss1) \<le> lsize (map rec_entry rs)"

definition db_inv :: "DB \<Rightarrow> wal_rec list \<Rightarrow> int set \<Rightarrow> bool" where
  "db_inv db rs U \<longleftrightarrow> (\<exists>aes ies ss0 ss1. layers_ok db rs aes ies ss0 ss1) \<and> wal_inv (db_wal db) rs \<and> path_inv db U \<and>
     length (db_L0 db) + length (db_flushQ db) \<le> length rs"

lemma db_inv_Get: "db_inv db rs U \<Longrightarrow> db_Get db key = Some (Inr (live (log_map rs key)), db)"
  by (auto simp: db_inv_def layers_ok_def db_Get_lay)

lemma db_inv_Scan:
  assumes "db_inv db rs U"
  shows "\<exists>xs. db_Scan db a b = Some (Inr xs, db) \<and> ksorted xs \<and>
    (\<forall>k. map_of xs k = (if in_range a b k then live (log_map rs k) else None))"
proof -
  obtain aes ies ss0 ss1 where lay: "lay db aes ies ss0 ss1" and eq: "map_of (view aes ies ss0 ss1) = log_map rs"
    using assms by (auto simp: db_inv_def layers_ok_def)
  show ?thesis using db_Scan_lay [OF lay, of a b] unfolding eq .
qed

section \<open>Writes\<close>

lemma lay_put:
  assumes "lay db aes ies ss0 ss1" and "mt_rel m (upd k v aes)" and "\<not> mt_frozen m"
  shows "lay (db\<lparr>db_activeMT := m\<rparr>) (upd k v aes) ies ss0 ss1"
  using assms by (simp add: lay_def split: option.splits)

lemma CheckFlush_lay:
  assumes lay: "lay db aes ies ss0 ss1"
  shows "\<exists>db' aes' ies' q. CheckFlush dt db = Some db' \<and> lay db' aes' ies' ss0 ss1 \<and>
    view aes' ies' ss0 ss1 = view aes ies ss0 ss1 \<and> length (db_flushQ db') \<le> length (db_flushQ db) + 1 \<and>
    (\<exists>a i q m. db' = db\<lparr>db_activeMT := a, db_immutableMT := i, db_flushQ := q, db_metrics := m\<rparr>)"
proof (cases "mt_Size (db_activeMT db) < db_flushThreshold db \<or> db_immutableMT db \<noteq> None")
  case True
  then have "CheckFlush dt db = Some db" by (auto simp: CheckFlush_def Let_def)
  moreover have "db = db\<lparr>db_activeMT := db_activeMT db, db_immutableMT := db_immutableMT db,
      db_flushQ := db_flushQ db, db_metrics := db_metrics db\<rparr>" by simp
  ultimately show ?thesis using lay by (metis le_add1)
next
  case False
  let ?m = "em_Set MemTableActiveBytes (mt_size NewMemTable)
    (em_Observe MemTableSwapDuration dt (em_Inc MemTableSwapEvents (db_metrics db)))"
  let ?db = "db\<lparr>db_activeMT := NewMemTable, db_immutableMT := Some (mt_Freeze (db_activeMT db)),
    db_flushQ := [mt_Freeze (db_activeMT db)], db_metrics := ?m\<rparr>"
  have "ies = []" "db_flushQ db = []" using lay False by (auto simp: lay_def)
  then have "CheckFlush dt db = Some ?db" and "lay ?db [] aes ss0 ss1" and "view [] aes ss0 ss1 = view aes ies ss0 ss1"
    using False lay by (simp_all add: CheckFlush_def Let_def lay_def mt_rel_New mt_Freeze_rel view_def)
  moreover have "length (db_flushQ ?db) \<le> length (db_flushQ db) + 1" by simp
  ultimately show ?thesis by blast
qed

lemma put_loop_lay:
  assumes lay: "lay db aes ies ss0 ss1"
  shows "\<exists>db' aes' ies'. put_loop rnd dt db k v = Some db' \<and> lay db' aes' ies' ss0 ss1 \<and>
    view aes' ies' ss0 ss1 = view (upd k v aes) ies ss0 ss1 \<and> length (db_flushQ db') \<le> length (db_flushQ db) + 1 \<and>
    (\<exists>a i q m. db' = db\<lparr>db_activeMT := a, db_immutableMT := i, db_flushQ := q, db_metrics := m\<rparr>)"
proof -
  obtain m where m: "mt_Put (rnd 0) (db_activeMT db) k v = Some (None, m)" "mt_rel m (upd k v aes)" "\<not> mt_frozen m"
    using lay mt.put_rel [of "db_activeMT db" aes "rnd 0" k v] by (auto simp: lay_def)
  let ?db = "db\<lparr>db_activeMT := m\<rparr>"
  have lay1: "lay ?db (upd k v aes) ies ss0 ss1" by (rule lay_put [OF lay m(2,3)])
  have loop: "put_loop rnd dt db k v = (if db_flushThreshold db \<le> mt_Size m then CheckFlush dt ?db else Some ?db)"
    by (simp add: put_loop.simps [of rnd dt db] m(1))
  show ?thesis
  proof (cases "db_flushThreshold db \<le> mt_Size m")
    case True
    from CheckFlush_lay [OF lay1, of dt] show ?thesis by (auto simp: loop True)
  next
    case False
    have "?db = db\<lparr>db_activeMT := m, db_immutableMT := db_immutableMT db,
      db_flushQ := db_flushQ db, db_metrics := db_metrics db\<rparr>" by simp
    moreover have "put_loop rnd dt db k v = Some ?db" using loop False by simp
    moreover have "length (db_flushQ ?db) \<le> length (db_flushQ db) + 1" by simp
    ultimately show ?thesis using lay1 by blast
  qed
qed

lemma layers_put:
  assumes lay: "lay db aes ies ss0 ss1" and ok: "layers_ok db' rs aes ies ss0 ss1"
    and ent: "rec_entry r = (k, v)" "k \<noteq> []" "length k < 65530"
  shows "map_of (view (upd k v aes) ies ss0 ss1) = log_map (rs @ [r])"
    and "short_keys (view (upd k v aes) ies ss0 ss1)"
    and "lsize (view (upd k v aes) ies ss0 ss1) \<le> lsize (map rec_entry (rs @ [r]))"
proof -
  have "map_of (view (upd k v aes) ies ss0 ss1) = (map_of (view aes ies ss0 ss1))(k \<mapsto> v)"
    by (simp add: view_def fun_eq_iff map_add_def split: option.splits)
  then show "map_of (view (upd k v aes) ies ss0 ss1) = log_map (rs @ [r])"
    using ok ent(1) by (simp add: layers_ok_def)
  show "short_keys (view (upd k v aes) ies ss0 ss1)"
    using ok ent(2,3) by (simp add: layers_ok_def view_def short_keys_upd) (simp add: short_keys_def)
  show "lsize (view (upd k v aes) ies ss0 ss1) \<le> lsize (map rec_entry (rs @ [r]))"
    using ok lsize_upd [of k v aes] by (simp add: layers_ok_def view_def ent(1))
qed

lemma db_write_inv:
  assumes inv: "db_inv db rs U" and ent: "rec_entry (op, k, val) = (k, v)" "k \<noteq> []" "length k < 65530"
  shows "\<exists>w db'. wal_Append (db_wal db) op k val = (None, w) \<and> put_loop rnd dt (db\<lparr>db_wal := w\<rparr>) k v = Some db' \<and>
    db_inv db' (rs @ [(op, k, val)]) U \<and> f_durable (wal_file (db_wal db')) = f_durable (wal_file (db_wal db))"
proof -
  obtain aes ies ss0 ss1 where ok: "layers_ok db rs aes ies ss0 ss1" and w: "wal_inv (db_wal db) rs" and p: "path_inv db U"
    using inv by (auto simp: db_inv_def)
  obtain w' where w': "wal_Append (db_wal db) op k val = (None, w')" "bw_healthy (wal_writer w')"
    "wal_total w' = wal_total (db_wal db) @ wal_encode (op, k, val)"
    "f_durable (wal_file w') = f_durable (wal_file (db_wal db))"
    "\<exists>z. f_data (wal_file w') = f_data (wal_file (db_wal db)) @ z" "wal_stopped w' = wal_stopped (db_wal db)"
    using wal_Append_healthy [of "db_wal db" op k val] w unfolding wal_inv_def by metis
  have wi: "wal_inv w' (rs @ [(op, k, val)])" using w w'(2-6) by (auto simp: wal_inv_def)
  have lay: "lay (db\<lparr>db_wal := w'\<rparr>) aes ies ss0 ss1" using ok by (simp add: layers_ok_def lay_def split: option.splits)
  from put_loop_lay [OF lay, of rnd dt k v] obtain db' aes' ies' a i q m where
    db': "put_loop rnd dt (db\<lparr>db_wal := w'\<rparr>) k v = Some db'" "lay db' aes' ies' ss0 ss1"
      "view aes' ies' ss0 ss1 = view (upd k v aes) ies ss0 ss1" "length (db_flushQ db') \<le> length (db_flushQ db) + 1"
    and frame: "db' = db\<lparr>db_wal := w', db_activeMT := a, db_immutableMT := i, db_flushQ := q, db_metrics := m\<rparr>"
    by auto
  have "layers_ok db' (rs @ [(op, k, val)]) aes' ies' ss0 ss1"
    using layers_put [OF lay ok ent] db'(2-4) ok by (simp add: layers_ok_def)
  moreover have "path_inv db' U"
    using p path_cong [of db' db] by (simp add: path_inv_def purge_files_def frame)
  moreover have "length (db_L0 db') + length (db_flushQ db') \<le> length (rs @ [(op, k, val)])"
    using inv db'(4) by (simp add: db_inv_def frame)
  ultimately have "db_inv db' (rs @ [(op, k, val)]) U" using wi by (auto simp: db_inv_def frame)
  then show ?thesis using w'(1,4) db'(1) frame by (intro exI [of _ w'] exI [of _ db']) simp
qed

lemma db_Put_inv:
  assumes "db_inv db rs U" and "k \<noteq> []" and "length k < 65530"
  shows "\<exists>db'. db_Put rnd dt db k v = Some (None, db') \<and> db_inv db' (rs @ [(OpPut, k, v)]) U \<and>
    f_durable (wal_file (db_wal db')) = f_durable (wal_file (db_wal db))"
  using db_write_inv [OF assms(1), of OpPut k v v rnd dt] assms(2,3)
  by (auto simp: db_Put_def rec_entry_def opcodes)

lemma db_Delete_inv:
  assumes "db_inv db rs U" and "k \<noteq> []" and "length k < 65530"
  shows "\<exists>db'. db_Delete rnd dt db k = Some (None, db') \<and> db_inv db' (rs @ [(OpDelete, k, [])]) U \<and>
    f_durable (wal_file (db_wal db')) = f_durable (wal_file (db_wal db))"
  using db_write_inv [OF assms(1), of OpDelete k "[]" "[]" rnd dt] assms(2,3)
  by (auto simp: db_Delete_def rec_entry_def)

section \<open>Background work\<close>

text \<open>A tick of the log's sync loop, which shares the engine's metrics.\<close>

definition db_sync :: "real \<Rightarrow> DB \<Rightarrow> DB" where
  "db_sync dt db = (let (w, em) = wal_syncLoop (db_wal db) (db_metrics db) [Tick dt] in db\<lparr>db_wal := w, db_metrics := em\<rparr>)"

lemma db_sync_inv:
  assumes inv: "db_inv db rs U"
  shows "db_inv (db_sync dt db) rs U" and "f_durable (wal_file (db_wal (db_sync dt db))) = wal_log rs"
proof -
  obtain aes ies ss0 ss1 where ok: "layers_ok db rs aes ies ss0 ss1" and w: "wal_inv (db_wal db) rs" and p: "path_inv db U"
    using inv by (auto simp: db_inv_def)
  obtain w' em where w': "wal_flush (db_wal db) (db_metrics db) dt = (w', em)"
    "bw_healthy (wal_writer w')" "wal_total w' = wal_log rs" "f_durable (wal_file w') = wal_log rs"
    "f_data (wal_file w') = wal_log rs" "\<not> wal_stopped w'"
    using wal_flush_healthy [of "db_wal db" "db_metrics db" dt] w unfolding wal_inv_def by metis
  have eq: "db_sync dt db = db\<lparr>db_wal := w', db_metrics := em\<rparr>" by (simp add: db_sync_def w'(1))
  show "f_durable (wal_file (db_wal (db_sync dt db))) = wal_log rs" using w'(4) by (simp add: eq)
  have "layers_ok (db_sync dt db) rs aes ies ss0 ss1"
    using ok by (simp add: eq layers_ok_def lay_def split: option.splits)
  moreover have "path_inv (db_sync dt db) U"
    using p path_cong [of "db_sync dt db" db] by (simp add: path_inv_def purge_files_def eq)
  ultimately show "db_inv (db_sync dt db) rs U"
    using w' inv by (auto simp: db_inv_def wal_inv_def eq)
qed

lemma layers_fit:
  assumes "layers_ok db rs aes ies ss0 ss1" and "log_ok rs"
  shows "short_keys ies" and "lsize ies < 4294967296" and "short_keys (concat ss0)"
    and "lsize (concat ss0) < 4294967296"
proof -
  have set_rev: "set (concat (rev ss0)) = set (concat ss0)" by auto
  have lsz: "lsize (concat (rev ss0)) = lsize (concat ss0)" by (induction ss0) simp_all
  have bound: "lsize (map rec_entry rs) < 4294967296" using assms(2) by (simp add: log_ok_def)
  show "short_keys ies" and "lsize ies < 4294967296" and "lsize (concat ss0) < 4294967296"
    using assms(1) bound by (simp_all add: layers_ok_def view_def lsz)
  show "short_keys (concat ss0)" using assms(1) set_rev by (simp add: layers_ok_def view_def short_keys_def)
qed

lemma db_inv_count:
  assumes "db_inv db rs U" and "log_ok rs"
  shows "length (db_L0 db) + 1 < 18446744073709551616"
proof -
  have "length (db_L0 db) \<le> length rs" and "length rs \<le> lsize (map rec_entry rs)"
    using assms(1) length_le_lsize [of "map rec_entry rs"] by (simp_all add: db_inv_def)
  then show ?thesis using assms(2) by (simp add: log_ok_def)
qed

lemma CompactL0toL1_not_opened: "\<exists>e. CompactL0toL1 fs (Inl err) path d = Some (Some e, d)"
  by (simp add: CompactL0toL1_def split: sum.splits prod.splits)

lemma CompactL0toL1_result:
  assumes "files_hold d fs ss" and "length fs < 18446744073709551616" and "sst_ok (compacted ss)"
  shows "\<exists>e d'. CompactL0toL1 fs opened path d = Some (e, d') \<and> (\<forall>p. p \<noteq> path \<longrightarrow> d' p = d p) \<and>
    (e = None \<longrightarrow> (\<exists>g. d' path = Some g \<and> sst_holds (f_data g) (compacted ss)))"
proof (cases opened)
  case (Inl err)
  then show ?thesis using CompactL0toL1_not_opened [of fs err path d] by auto
next
  case (Inr f)
  then show ?thesis using CompactL0toL1_spec [OF assms, of f path] by auto
qed

text \<open>A compaction, whether it succeeds or fails, leaves the map alone.\<close>

lemma maybeCompact_layers:
  assumes ok: "layers_ok db rs aes ies ss0 ss1" and p: "path_inv db U" and log: "log_ok rs" and now: "now \<notin> U"
    and n: "length (db_L0 db) < 18446744073709551616"
  shows "\<exists>db' ss0' ss1'. maybeCompact now opened db = Some db' \<and> layers_ok db' rs aes ies ss0' ss1' \<and>
    path_inv db' (insert now U) \<and> db_wal db' = db_wal db \<and> db_flushQ db' = db_flushQ db \<and>
    length (db_L0 db') \<le> length (db_L0 db) \<and>
    db_activeMT db' = db_activeMT db \<and> db_immutableMT db' = db_immutableMT db"
proof (cases "int (length (db_L0 db)) < db_compactionThreshold db")
  case True
  have "path_inv db (insert now U)" using p by (auto simp: path_inv_def)
  then show ?thesis using True ok by (intro exI [of _ db]) (auto simp: maybeCompact_def Let_def)
next
  case False
  let ?l1 = "generateSSTPath db ''L1'' now"
  note fit = layers_fit [OF ok log]
  have hold: "files_hold (db_disk db) (db_L0 db) (put_ents ss0)" "files_hold (db_disk db) (db_L1 db) (put_ents ss1)"
    using ok by (simp_all add: layers_ok_def lay_def)
  have sst: "sst_ok (compacted (put_ents ss0))"
    unfolding compacted_put using compact_ents_fits [OF fit(3)] compact_ents_sub(1) [of ss0] fit(4)
    by (intro sst_ok_put) auto
  obtain e d' where c: "CompactL0toL1 (db_L0 db) opened ?l1 (db_disk db) = Some (e, d')"
    "\<forall>p. p \<noteq> ?l1 \<longrightarrow> d' p = db_disk db p"
    "e = None \<longrightarrow> (\<exists>g. d' ?l1 = Some g \<and> sst_holds (f_data g) (map put_ent (compact_ents ss0)))"
    using CompactL0toL1_result [OF hold(1) n sst] unfolding compacted_put by metis
  have keep: "files_hold d' (db_L0 db) (put_ents ss0)" "files_hold d' (db_L1 db) (put_ents ss1)"
    using path_inv_new(2) [OF p now] files_hold_other [OF hold(1) _ c(2)] files_hold_other [OF hold(2) _ c(2)] by simp_all
  show ?thesis
  proof (cases e)
    case (Some err)
    let ?db = "db\<lparr>db_disk := d'\<rparr>"
    have "maybeCompact now opened db = Some ?db" using False c(1) Some by (simp add: maybeCompact_def Let_def)
    moreover have "layers_ok ?db rs aes ies ss0 ss1"
      using ok keep by (simp add: layers_ok_def lay_def split: option.splits)
    moreover have "path_inv ?db (insert now U)"
      using p path_cong [of ?db db] by (auto simp: path_inv_def purge_files_def)
    ultimately show ?thesis by (intro exI [of _ ?db] exI [of _ ss0] exI [of _ ss1]) simp
  next
    case None
    let ?db = "db\<lparr>db_disk := d', db_currentVersion := \<lparr>v_Manifest = \<lparr>m_L0Files = [], m_L1Files = db_L1 db @ [?l1]\<rparr>,
      v_Refs = 0\<rparr>, db_purges := db_purges db @ [(db_currentVersion db, db_L0 db)]\<rparr>"
    obtain g where g: "d' ?l1 = Some g" "sst_holds (f_data g) (map put_ent (compact_ents ss0))" using c(3) None by blast
    have "maybeCompact now opened db = Some ?db" using False c(1) None by (simp add: maybeCompact_def Let_def)
    moreover have "layers_ok ?db rs aes ies [] (ss1 @ [compact_ents ss0])"
    proof -
      have "files_hold d' [?l1] [map put_ent (compact_ents ss0)]" using g by (simp add: files_hold_def)
      then have "files_hold d' (db_L1 db @ [?l1]) (put_ents (ss1 @ [compact_ents ss0]))"
        using keep(2) files_hold_length [OF keep(2)] by (simp add: files_hold_append)
      moreover have "files_hold d' [] (put_ents [])" by (simp add: files_hold_def)
      ultimately have "lay ?db aes ies [] (ss1 @ [compact_ents ss0])"
        using ok by (simp add: layers_ok_def lay_def split: option.splits)
      moreover have "lsize (concat (rev ss0)) = lsize (concat ss0)" by (induction ss0) simp_all
      ultimately show ?thesis
        using ok compact_ents_fits [OF fit(3)] map_of_compact_ents [OF fit(3)]
        by (simp add: layers_ok_def view_def)
    qed
    moreover have "path_inv ?db (insert now U)"
      using p path_cong [of ?db db] by (auto simp: path_inv_def purge_files_def)
    ultimately show ?thesis
      by (intro exI [of _ ?db] exI [of _ "[]"] exI [of _ "ss1 @ [compact_ents ss0]"]) simp
  qed
qed

lemma TriggerCompaction_inv:
  assumes "db_inv db rs U" and "log_ok rs" and "now \<notin> U"
  shows "\<exists>db'. TriggerCompaction now opened db = Some db' \<and> db_inv db' rs (insert now U) \<and> db_wal db' = db_wal db"
proof -
  obtain aes ies ss0 ss1 where l: "layers_ok db rs aes ies ss0 ss1" "path_inv db U"
    using assms(1) by (auto simp: db_inv_def)
  have n: "length (db_L0 db) < 18446744073709551616" using db_inv_count [OF assms(1,2)] by simp
  obtain db' ss0' ss1' where c: "maybeCompact now opened db = Some db'" "layers_ok db' rs aes ies ss0' ss1'"
    "path_inv db' (insert now U)" "db_wal db' = db_wal db" "db_flushQ db' = db_flushQ db" "length (db_L0 db') \<le> length (db_L0 db)"
    using maybeCompact_layers [OF l assms(2,3) n, of opened] by blast
  then have "db_inv db' rs (insert now U)" using assms(1) unfolding db_inv_def by auto
  then show ?thesis using c by (simp add: TriggerCompaction_def)
qed

text \<open>A flush turns the immutable table into the newest L0 file.\<close>

definition flushed_db :: "DB \<Rightarrow> disk \<Rightarrow> DB" where
  "flushed_db db d = db\<lparr>db_flushQ := [], db_disk := d, db_flushCount := db_flushCount db + 1,
     db_currentVersion := \<lparr>v_Manifest = \<lparr>m_L0Files = db_L0 db @ [generateSSTPath db ''L0'' (db_flushCount db)],
       m_L1Files = db_L1 db\<rparr>, v_Refs = 0\<rparr>,
     db_immutableMT := None\<rparr>"

lemma flushed_db_layers:
  assumes ok: "layers_ok db rs aes ies ss0 ss1" and p: "path_inv db U" and log: "log_ok rs" and f: "healthy f"
    and imm: "db_immutableMT db = Some m"
  shows "\<exists>d'. worker_flush (Inr f) now c db =
      (if db_compactionThreshold db \<le> int (length (db_L0 db)) + 1 then maybeCompact now c (flushed_db db d')
       else Some (flushed_db db d')) \<and> layers_ok (flushed_db db d') rs aes [] (ss0 @ [ies]) ss1"
proof -
  let ?l0 = "generateSSTPath db ''L0'' (db_flushCount db)"
  have m: "mt_rel m ies" "db_flushQ db = [m]" using ok imm by (simp_all add: layers_ok_def lay_def)
  have "sst_ok (map put_ent ies)" using mt_rel_sorted [OF m(1)] layers_fit [OF ok log] by (intro sst_ok_put)
  from FlushMemTable_spec [OF m(1) this, of f ?l0 "db_disk db"] f obtain d' g where
    fl: "FlushMemTable m (Inr f) ?l0 (db_disk db) = Some (None, d')" "\<forall>p. p \<noteq> ?l0 \<longrightarrow> d' p = db_disk db p"
      "d' ?l0 = Some g" "sst_holds (f_data g) (map put_ent ies)" by auto
  have hold: "files_hold (db_disk db) (db_L0 db) (put_ents ss0)" "files_hold (db_disk db) (db_L1 db) (put_ents ss1)"
    using ok by (simp_all add: layers_ok_def lay_def)
  have keep: "files_hold d' (db_L0 db) (put_ents ss0)" "files_hold d' (db_L1 db) (put_ents ss1)"
    using path_inv_new(1) [OF p] files_hold_other [OF hold(1) _ fl(2)] files_hold_other [OF hold(2) _ fl(2)] by simp_all
  have "files_hold d' [?l0] [map put_ent ies]" using fl(3,4) by (simp add: files_hold_def)
  then have "files_hold d' (db_L0 db @ [?l0]) (put_ents (ss0 @ [ies]))"
    using keep(1) files_hold_length [OF keep(1)] by (simp add: files_hold_append)
  then have "layers_ok (flushed_db db d') rs aes [] (ss0 @ [ies]) ss1"
    using ok keep(2) by (simp add: layers_ok_def lay_def view_def flushed_db_def)
  moreover have "worker_flush (Inr f) now c db =
      (if db_compactionThreshold db \<le> int (length (db_L0 db)) + 1 then maybeCompact now c (flushed_db db d')
       else Some (flushed_db db d'))"
    by (simp add: worker_flush_def m(2) fl(1) Let_def flushed_db_def add.commute)
  ultimately show ?thesis by blast
qed

lemma worker_flush_layers:
  assumes ok: "layers_ok db rs aes ies ss0 ss1" and p: "path_inv db U" and log: "log_ok rs" and now: "now \<notin> U"
    and f: "healthy f" and n: "length (db_L0 db) + 1 < 18446744073709551616"
  shows "\<exists>db' ss0' ss1'. worker_flush (Inr f) now compOpened db = Some db' \<and> layers_ok db' rs aes [] ss0' ss1' \<and>
    path_inv db' (insert now U) \<and> db_wal db' = db_wal db \<and> db_activeMT db' = db_activeMT db \<and>
    db_flushQ db' = [] \<and> db_immutableMT db' = None \<and> length (db_L0 db') \<le> length (db_L0 db) + length (db_flushQ db)"
proof (cases "db_immutableMT db")
  case None
  have "path_inv db (insert now U)" using p by (auto simp: path_inv_def)
  moreover have "ies = []" "db_flushQ db = []" using ok None by (simp_all add: layers_ok_def lay_def)
  ultimately show ?thesis using ok None by (auto simp: worker_flush_def)
next
  case (Some m)
  obtain d' where step: "worker_flush (Inr f) now compOpened db =
      (if db_compactionThreshold db \<le> int (length (db_L0 db)) + 1 then maybeCompact now compOpened (flushed_db db d')
       else Some (flushed_db db d'))" and ok': "layers_ok (flushed_db db d') rs aes [] (ss0 @ [ies]) ss1"
    using flushed_db_layers [OF ok p log f Some] by blast
  have p': "path_inv (flushed_db db d') U" unfolding flushed_db_def by (rule path_inv_flush [OF p])
  have l0: "length (db_L0 (flushed_db db d')) = length (db_L0 db) + length (db_flushQ db)"
    and other: "db_wal (flushed_db db d') = db_wal db" "db_activeMT (flushed_db db d') = db_activeMT db"
      "db_flushQ (flushed_db db d') = []" "db_immutableMT (flushed_db db d') = None"
    using ok Some by (simp_all add: flushed_db_def layers_ok_def lay_def)
  have n': "length (db_L0 (flushed_db db d')) < 18446744073709551616" using n by (simp add: flushed_db_def)
  show ?thesis
  proof (cases "db_compactionThreshold db \<le> int (length (db_L0 db)) + 1")
    case True
    from maybeCompact_layers [OF ok' p' log now n', of compOpened] show ?thesis
      unfolding step if_P [OF True] other l0 by metis
  next
    case False
    have "path_inv (flushed_db db d') (insert now U)" using p' by (auto simp: path_inv_def)
    then show ?thesis using ok' other l0 unfolding step if_not_P [OF False] by (metis order.refl)
  qed
qed

lemma worker_flush_inv:
  assumes inv: "db_inv db rs U" and "log_ok rs" and "now \<notin> U" and "healthy f"
  shows "\<exists>db'. worker_flush (Inr f) now compOpened db = Some db' \<and> db_inv db' rs (insert now U) \<and>
    db_wal db' = db_wal db \<and> db_activeMT db' = db_activeMT db \<and> db_flushQ db' = [] \<and> db_immutableMT db' = None"
proof -
  obtain aes ies ss0 ss1 where l: "layers_ok db rs aes ies ss0 ss1" "path_inv db U"
    using inv by (auto simp: db_inv_def)
  obtain db' ss0' ss1' where c: "worker_flush (Inr f) now compOpened db = Some db'" "layers_ok db' rs aes [] ss0' ss1'"
    "path_inv db' (insert now U)" "db_wal db' = db_wal db" "db_activeMT db' = db_activeMT db" "db_flushQ db' = []"
    "db_immutableMT db' = None" "length (db_L0 db') \<le> length (db_L0 db) + length (db_flushQ db)"
    using worker_flush_layers [OF l assms(2-4) db_inv_count [OF assms(1,2)], of compOpened] by blast
  then have "db_inv db' rs (insert now U)" using inv unfolding db_inv_def by auto
  then show ?thesis using c by blast
qed

text \<open>A purge deletes only files that no later manifest mentions.\<close>

lemma worker_purge_inv:
  assumes inv: "db_inv db rs U"
  shows "db_inv (worker_purge db) rs U" and "db_wal (worker_purge db) = db_wal db"
proof -
  show "db_wal (worker_purge db) = db_wal db"
    by (simp add: worker_purge_def split: list.splits prod.splits option.splits)
  obtain aes ies ss0 ss1 where ok: "layers_ok db rs aes ies ss0 ss1" and w: "wal_inv (db_wal db) rs" and p: "path_inv db U"
    using inv by (auto simp: db_inv_def)
  show "db_inv (worker_purge db) rs U"
  proof (cases "\<exists>v files ps. db_purges db = (v, files) # ps \<and> v_Refs v = 0")
    case True
    then obtain v files ps where pur: "db_purges db = (v, files) # ps" "v_Refs v = 0" by blast
    let ?db = "db\<lparr>db_disk := remove_files (db_disk db) files, db_purges := ps\<rparr>"
    have eq: "worker_purge db = ?db" using pur by (simp add: worker_purge_def PurgeObsoleteFiles_def)
    have sub: "set files \<subseteq> purge_files db" using pur by (auto simp: purge_files_def)
    have hold: "files_hold (db_disk db) (db_L0 db) (put_ents ss0)" "files_hold (db_disk db) (db_L1 db) (put_ents ss1)"
      using ok by (simp_all add: layers_ok_def lay_def)
    have "files_hold (db_disk ?db) (db_L0 db) (put_ents ss0)"
      by (rule files_hold_cong [OF hold(1)]) (use sub path_inv_purge(1) [OF p] in \<open>auto simp: remove_files_apply\<close>)
    moreover have "files_hold (db_disk ?db) (db_L1 db) (put_ents ss1)"
      by (rule files_hold_cong [OF hold(2)]) (use sub path_inv_purge(2) [OF p] in \<open>auto simp: remove_files_apply\<close>)
    ultimately have "layers_ok ?db rs aes ies ss0 ss1" using ok by (simp add: layers_ok_def lay_def split: option.splits)
    moreover have "path_inv ?db U"
      using p path_cong [of ?db db] by (auto simp: path_inv_def purge_files_def pur)
    ultimately show ?thesis using w inv by (auto simp: eq db_inv_def)
  next
    case False
    then have "worker_purge db = db"
      by (auto simp: worker_purge_def PurgeObsoleteFiles_def split: list.splits)
    then show ?thesis using inv by simp
  qed
qed

end
