(* ===== verification/Engine_Run.thy ===== *)
theory Engine_Run
  imports Engine_Inv
begin

text \<open>
  Histories of the engine: requests interleaved with turns of the log's sync loop, the flush worker,
  compactions and purges. Against them stands an abstract machine whose state is a map; it answers
  requests from the map and does nothing on background turns.
\<close>

section \<open>Opening\<close>

lemma fold_options:
  "\<exists>a b c. fold apply_option opts db = db\<lparr>db_sstDir := a, db_compactionThreshold := b, db_flushThreshold := c\<rparr> \<and>
     (0 < db_compactionThreshold db \<longrightarrow> 0 < b)"
proof (induction opts arbitrary: db)
  case Nil
  have "db = db\<lparr>db_sstDir := db_sstDir db, db_compactionThreshold := db_compactionThreshold db,
    db_flushThreshold := db_flushThreshold db\<rparr>" by simp
  then show ?case by (metis fold_simps(1))
next
  case (Cons opt opts)
  have "\<exists>a b c. apply_option opt db = db\<lparr>db_sstDir := a, db_compactionThreshold := b, db_flushThreshold := c\<rparr> \<and>
      (0 < db_compactionThreshold db \<longrightarrow> 0 < b)"
  proof (cases opt)
    case (WithSSTDir x)
    then show ?thesis by (intro exI [of _ x] exI [of _ "db_compactionThreshold db"] exI [of _ "db_flushThreshold db"]) simp
  next
    case (WithCompactionThreshold x)
    then show ?thesis by (intro exI [of _ "db_sstDir db"] exI [of _ "if 0 < x then x else db_compactionThreshold db"]
          exI [of _ "db_flushThreshold db"]) simp
  next
    case (WithFlushThreshold x)
    then show ?thesis by (intro exI [of _ "db_sstDir db"] exI [of _ "db_compactionThreshold db"]
          exI [of _ "if 0 < x then x else db_flushThreshold db"]) simp
  qed
  then obtain a b c where "apply_option opt db = db\<lparr>db_sstDir := a, db_compactionThreshold := b, db_flushThreshold := c\<rparr>"
    "0 < db_compactionThreshold db \<longrightarrow> 0 < b" by blast
  with Cons.IH [of "apply_option opt db"] show ?case by auto
qed

lemma lsize_apply_ops: "lsize (apply_ops es ops) \<le> lsize es + lsize ops"
proof (induction ops arbitrary: es)
  case (Cons op ops)
  obtain k v where op: "op = (k, v)" by (cases op)
  show ?case using Cons [of "upd k v es"] lsize_upd [of k v es] by (simp add: op)
qed simp

lemma short_keys_apply_ops: "short_keys ops \<Longrightarrow> short_keys (apply_ops [] ops)"
proof -
  assume ops: "short_keys ops"
  have "fst e \<noteq> [] \<and> length (fst e) < 65530" if "e \<in> set (apply_ops [] ops)" for e
  proof -
    have "fst e \<in> fst ` set ops" using that keys_apply_ops [of "[]" ops] by auto
    then show ?thesis using ops by (auto simp: short_keys_def)
  qed
  then show ?thesis by (simp add: short_keys_def)
qed

text \<open>A database opened on any cut of a log holds the complete records before the cut.\<close>

lemma NewDB_layers:
  assumes log: "log_ok rs" and mk: "\<forall>dir. mkdir dir = None"
  shows "\<exists>db. NewDB rnd (Inr wfile) (Inr (take n (wal_log rs))) opts mkdir now d em = Some (Inr db) \<and>
    layers_ok db (take (complete_records n rs) rs) (apply_ops [] (map rec_entry (take (complete_records n rs) rs))) [] [] [] \<and>
    NewWAL (Inr wfile) = Inr (db_wal db) \<and> path_inv db {} \<and> db_L0 db = [] \<and> db_flushQ db = [] \<and> 0 < db_compactionThreshold db"
proof -
  let ?rs = "take (complete_records n rs) rs"
  let ?es = "apply_ops [] (map rec_entry ?rs)"
  obtain m where m: "recover_loop rnd (take n (wal_log rs)) NewMemTable = Some (None, m)" "\<not> mt_frozen m" "mt_rel m ?es"
    using recover_prefix [OF _ mt_rel_New New_not_frozen, of rs rnd n] log by (auto simp: log_ok_def)
  obtain w where w: "NewWAL (Inr wfile) = Inr w" by (simp add: NewWAL_def)
  let ?db0 = "\<lparr>db_activeMT = m, db_immutableMT = None, db_wal = w, db_flushQ = [],
    db_stopped = False, db_flushThreshold = 4 * 1024 * 1024,
    db_currentVersion = \<lparr>v_Manifest = \<lparr>m_L0Files = [], m_L1Files = []\<rparr>, v_Refs = 0\<rparr>,
    db_sstDir = [], db_compactionThreshold = 4, db_flushCount = now, db_disk = d,
    db_purges = [], db_metrics = em\<rparr>"
  obtain a b c where opt: "fold apply_option opts ?db0 =
      ?db0\<lparr>db_sstDir := a, db_compactionThreshold := b, db_flushThreshold := c\<rparr>" "0 < b"
    using fold_options [of opts ?db0] by auto
  let ?db = "?db0\<lparr>db_sstDir := a, db_compactionThreshold := b, db_flushThreshold := c\<rparr>"
  have new: "NewDB rnd (Inr wfile) (Inr (take n (wal_log rs))) opts mkdir now d em = Some (Inr ?db)"
    using mk by (simp add: NewDB_def w Recover_def m(1) opt(1) [simplified] Let_def)
  have short: "short_keys (map rec_entry ?rs)"
    using log by (auto simp: log_ok_def short_keys_def dest!: in_set_takeD)
  have "layers_ok ?db ?rs ?es [] [] []"
    using m(2,3) short_keys_apply_ops [OF short] lsize_apply_ops [of "[]" "map rec_entry ?rs"]
    by (simp add: layers_ok_def lay_def view_def files_hold_def map_of_apply_ops)
  then show ?thesis using new w opt(2) by (intro exI [of _ ?db]) (simp add: path_inv_def purge_files_def)
qed

lemma NewDB_inv:
  assumes log: "log_ok rs" and mk: "\<forall>dir. mkdir dir = None"
    and wfile: "healthy wfile" "f_data wfile = wal_log rs" "f_durable wfile = wal_log rs"
  shows "\<exists>db. NewDB rnd (Inr wfile) (Inr (f_data wfile)) opts mkdir now d em = Some (Inr db) \<and> db_inv db rs {}"
proof -
  have all: "complete_records (length (wal_log rs)) rs = length rs" by (simp add: complete_records_all)
  obtain db where db: "NewDB rnd (Inr wfile) (Inr (f_data wfile)) opts mkdir now d em = Some (Inr db)"
    "layers_ok db rs (apply_ops [] (map rec_entry rs)) [] [] []" "NewWAL (Inr wfile) = Inr (db_wal db)" "path_inv db {}"
    "db_L0 db = []" "db_flushQ db = []"
    using NewDB_layers [OF log mk, of rnd wfile "length (wal_log rs)" opts now d em] wfile(2) by (auto simp: all)
  have "db_wal db = \<lparr>wal_writer = NewWriterSize wfile (4 * 1024 * 1024), wal_stopped = False\<rparr>"
    using db(3) by (simp add: NewWAL_def)
  then have "wal_inv (db_wal db) rs"
    using wfile by (simp add: NewWriterSize_def wal_inv_def bw_healthy_def wal_total_def bw_total_def)
  then show ?thesis using db by (auto simp: db_inv_def)
qed

section \<open>Histories\<close>

datatype db_event =
    EvPut bytes bytes "nat \<Rightarrow> nat \<Rightarrow> bool" real
  | EvDelete bytes "nat \<Rightarrow> nat \<Rightarrow> bool" real
  | EvGet bytes
  | EvScan bytes bytes
  | EvSync real
  | EvFlush os_file int "os_file result"
  | EvCompact int "os_file result"
  | EvPurge

datatype db_resp =
    RAck "go_error option"
  | RGet "bytes option result"
  | RScan "(bytes \<times> bytes) list result"
  | RNone

definition quiet :: "DB option \<Rightarrow> (db_resp \<times> DB) option" where
  "quiet r = map_option (\<lambda>db. (RNone, db)) r"

fun db_step :: "db_event \<Rightarrow> DB \<Rightarrow> (db_resp \<times> DB) option" where
  "db_step (EvPut k v rnd dt) db = map_option (\<lambda>(e, db'). (RAck e, db')) (db_Put rnd dt db k v)"
| "db_step (EvDelete k rnd dt) db = map_option (\<lambda>(e, db'). (RAck e, db')) (db_Delete rnd dt db k)"
| "db_step (EvGet k) db = map_option (\<lambda>(r, db'). (RGet r, db')) (db_Get db k)"
| "db_step (EvScan a b) db = map_option (\<lambda>(r, db'). (RScan r, db')) (db_Scan db a b)"
| "db_step (EvSync dt) db = Some (RNone, db_sync dt db)"
| "db_step (EvFlush f now opened) db = quiet (worker_flush (Inr f) now opened db)"
| "db_step (EvCompact now opened) db = quiet (TriggerCompaction now opened db)"
| "db_step EvPurge db = Some (RNone, worker_purge db)"

fun db_run :: "DB \<Rightarrow> db_event list \<Rightarrow> (db_resp list \<times> DB) option" where
  "db_run db [] = Some ([], db)"
| "db_run db (ev # evs) =
     (case db_step ev db of
        None \<Rightarrow> None
      | Some (r, db') \<Rightarrow> (case db_run db' evs of None \<Rightarrow> None | Some (rs, db'') \<Rightarrow> Some (r # rs, db'')))"

text \<open>The abstract machine.\<close>

fun spec_step :: "db_event \<Rightarrow> (bytes \<Rightarrow> bytes option) \<Rightarrow> db_resp \<times> (bytes \<Rightarrow> bytes option)" where
  "spec_step (EvPut k v rnd dt) M = (RAck None, M(k := live (Some v)))"
| "spec_step (EvDelete k rnd dt) M = (RAck None, M(k := None))"
| "spec_step (EvGet k) M = (RGet (Inr (M k)), M)"
| "spec_step (EvScan a b) M = (RScan (Inr (spec_scan M a b)), M)"
| "spec_step ev M = (RNone, M)"

fun spec_run :: "(bytes \<Rightarrow> bytes option) \<Rightarrow> db_event list \<Rightarrow> db_resp list \<times> (bytes \<Rightarrow> bytes option)" where
  "spec_run M [] = ([], M)"
| "spec_run M (ev # evs) =
     (let (r, M') = spec_step ev M; (rs, M'') = spec_run M' evs in (r # rs, M''))"

text \<open>
  What a history may contain: writes with keys of 1 to 65529 bytes, working files for the flushes,
  any outcome for the files of compactions. \<open>writes\<close> are its log records, \<open>clocks\<close> the readings of
  the clock that name L1 files.
\<close>

fun ev_ok :: "db_event \<Rightarrow> bool" where
  "ev_ok (EvPut k v rnd dt) = (k \<noteq> [] \<and> length k < 65530)"
| "ev_ok (EvDelete k rnd dt) = (k \<noteq> [] \<and> length k < 65530)"
| "ev_ok (EvFlush f now opened) = healthy f"
| "ev_ok ev = True"

fun write_of :: "db_event \<Rightarrow> wal_rec list" where
  "write_of (EvPut k v rnd dt) = [(OpPut, k, v)]"
| "write_of (EvDelete k rnd dt) = [(OpDelete, k, [])]"
| "write_of ev = []"

fun clock_of :: "db_event \<Rightarrow> int list" where
  "clock_of (EvFlush f now opened) = [now]"
| "clock_of (EvCompact now opened) = [now]"
| "clock_of ev = []"

definition writes :: "db_event list \<Rightarrow> wal_rec list" where
  "writes evs = concat (map write_of evs)"

definition clocks :: "db_event list \<Rightarrow> int list" where
  "clocks evs = concat (map clock_of evs)"

lemma writes_clocks_simps [simp]:
  "writes [] = []" "writes (ev # evs) = write_of ev @ writes evs" "writes (evs @ evs') = writes evs @ writes evs'"
  "clocks [] = []" "clocks (ev # evs) = clock_of ev @ clocks evs" "clocks (evs @ evs') = clocks evs @ clocks evs'"
  by (simp_all add: writes_def clocks_def)

section \<open>The simulation\<close>

abbreviation live_map :: "wal_rec list \<Rightarrow> bytes \<Rightarrow> bytes option" where
  "live_map rs \<equiv> (\<lambda>k. live (log_map rs k))"

lemma finite_live: "finite (dom (live_map rs))"
proof (rule finite_subset)
  show "dom (live_map rs) \<subseteq> dom (log_map rs)" by (auto simp: live_def split: option.splits)
qed (simp add: finite_dom_map_of)

lemma db_step_sim:
  assumes inv: "db_inv db rs U" and log: "log_ok (rs @ write_of ev)" and ev: "ev_ok ev" and cl: "set (clock_of ev) \<inter> U = {}"
  shows "\<exists>r db'. db_step ev db = Some (r, db') \<and> db_inv db' (rs @ write_of ev) (U \<union> set (clock_of ev)) \<and>
    spec_step ev (live_map rs) = (r, live_map (rs @ write_of ev)) \<and>
    length (f_durable (wal_file (db_wal db))) \<le> length (f_durable (wal_file (db_wal db')))"
proof -
  have mono: "length (f_durable (wal_file (db_wal db))) \<le> length (wal_log rs)"
    using inv unfolding db_inv_def wal_inv_def wal_total_def bw_total_def by (metis append_assoc length_append le_add1)
  show ?thesis
  proof (cases ev)
    case (EvPut k v rnd dt)
    have "live_map (rs @ [(OpPut, k, v)]) = (live_map rs)(k := live (Some v))"
      by (auto simp: fun_eq_iff rec_entry_def opcodes)
    then show ?thesis using db_Put_inv [OF inv, of k rnd dt v] ev by (auto simp: EvPut)
  next
    case (EvDelete k rnd dt)
    have "live_map (rs @ [(OpDelete, k, [])]) = (live_map rs)(k := None)" by (auto simp: fun_eq_iff rec_entry_def)
    then show ?thesis using db_Delete_inv [OF inv, of k rnd dt] ev by (auto simp: EvDelete)
  next
    case (EvGet k)
    then show ?thesis using inv by (simp add: db_inv_Get [OF inv])
  next
    case (EvScan a b)
    then show ?thesis
      using db_inv_Scan [OF inv, of a b] inv spec_scan_eq [OF finite_live, of _ a b rs] by auto
  next
    case (EvSync dt)
    then show ?thesis using db_sync_inv [OF inv, of dt] mono by simp
  next
    case (EvFlush f now opened)
    then show ?thesis using worker_flush_inv [OF inv _ _ _, of now f opened] log ev cl by (auto simp: quiet_def)
  next
    case (EvCompact now opened)
    then show ?thesis using TriggerCompaction_inv [OF inv, of now opened] log cl by (auto simp: quiet_def)
  next
    case EvPurge
    then show ?thesis using worker_purge_inv [OF inv] by simp
  qed
qed

lemma log_ok_prefix: "log_ok (rs @ rs') \<Longrightarrow> log_ok rs"
  by (simp add: log_ok_def)

lemma db_run_sim:
  assumes "db_inv db rs U" and "log_ok (rs @ writes evs)" and "\<forall>ev \<in> set evs. ev_ok ev"
    and "distinct (clocks evs)" and "set (clocks evs) \<inter> U = {}"
  shows "\<exists>resps db'. db_run db evs = Some (resps, db') \<and> db_inv db' (rs @ writes evs) (U \<union> set (clocks evs)) \<and>
    spec_run (live_map rs) evs = (resps, live_map (rs @ writes evs)) \<and>
    length (f_durable (wal_file (db_wal db))) \<le> length (f_durable (wal_file (db_wal db')))"
  using assms
proof (induction evs arbitrary: db rs U)
  case (Cons ev evs)
  have log: "log_ok (rs @ write_of ev)" using Cons.prems(2) log_ok_prefix [of "rs @ write_of ev"] by simp
  obtain r db1 where s: "db_step ev db = Some (r, db1)" "db_inv db1 (rs @ write_of ev) (U \<union> set (clock_of ev))"
    "spec_step ev (live_map rs) = (r, live_map (rs @ write_of ev))"
    "length (f_durable (wal_file (db_wal db))) \<le> length (f_durable (wal_file (db_wal db1)))"
    using db_step_sim [OF Cons.prems(1) log] Cons.prems(3,5) by (auto simp: Int_Un_distrib2)
  obtain resps db2 where t: "db_run db1 evs = Some (resps, db2)"
    "db_inv db2 ((rs @ write_of ev) @ writes evs) (U \<union> set (clock_of ev) \<union> set (clocks evs))"
    "spec_run (live_map (rs @ write_of ev)) evs = (resps, live_map ((rs @ write_of ev) @ writes evs))"
    "length (f_durable (wal_file (db_wal db1))) \<le> length (f_durable (wal_file (db_wal db2)))"
    using Cons.IH [OF s(2)] Cons.prems by (force simp: Int_Un_distrib2 Int_Un_distrib)
  have "db_run db (ev # evs) = Some (r # resps, db2)" using s(1) t(1) by simp
  moreover have "spec_run (live_map rs) (ev # evs) = (r # resps, live_map (rs @ writes (ev # evs)))"
    using s(3) t(3) by simp
  moreover have "db_inv db2 (rs @ writes (ev # evs)) (U \<union> set (clocks (ev # evs)))"
    using t(2) by (simp add: Un_assoc)
  ultimately show ?case using s(4) t(4) by auto
qed simp

section \<open>Properties\<close>

text \<open>C1. Refinement of a map. Open the engine on a log \<open>rs\<close> with any options and run any history of
  requests, sync ticks, flushes, compactions (which may fail) and purges, interleaved in any order.
  Opening succeeds, every operation returns, every write is acknowledged without error, and every
  \<open>Get\<close> and \<open>Scan\<close> answers exactly as a map that starts with the contents of the log, to which
  \<open>Put\<close> binds a key (an empty value unbinds it) and from which \<open>Delete\<close> removes it.\<close>

theorem engine_refines_map:
  assumes "log_ok (rs @ writes evs)" and "\<forall>ev \<in> set evs. ev_ok ev" and "distinct (clocks evs)"
    and "healthy wfile" and "f_data wfile = wal_log rs" and "f_durable wfile = wal_log rs"
    and "\<forall>dir. mkdir dir = None"
  shows "\<exists>db resps db'. NewDB rnd (Inr wfile) (Inr (f_data wfile)) opts mkdir now d em = Some (Inr db) \<and>
    db_run db evs = Some (resps, db') \<and> resps = fst (spec_run (live_map rs) evs)"
proof -
  obtain db where "NewDB rnd (Inr wfile) (Inr (f_data wfile)) opts mkdir now d em = Some (Inr db)" "db_inv db rs {}"
    using NewDB_inv [OF log_ok_prefix [OF assms(1)] assms(7,4,5,6)] by blast
  moreover from db_run_sim [OF this(2) assms(1,2,3)]
  obtain resps db' where "db_run db evs = Some (resps, db')" "spec_run (live_map rs) evs = (resps, live_map (rs @ writes evs))"
    by auto
  ultimately show ?thesis by auto
qed

definition small_history :: "db_event list" where
  "small_history = [EvPut [1] [10] (\<lambda>_ _. False) 0, EvFlush empty_os_file 5 (Inr empty_os_file),
     EvDelete [1] (\<lambda>_ _. True) 0, EvPut [2] [20] (\<lambda>_ _. False) 0, EvGet [1], EvScan [] []]"

lemma small_history_ok:
  "log_ok ([] @ writes small_history)" "\<forall>ev \<in> set small_history. ev_ok ev" "distinct (clocks small_history)"
  by (simp_all add: small_history_def log_ok_def rec_ok_def rec_entry_def short_keys_def healthy_def empty_os_file_def)

theorem engine_refines_map_witness:
  "\<exists>db resps db'. NewDB (\<lambda>_ _. False) (Inr empty_os_file) (Inr (f_data empty_os_file)) [WithFlushThreshold 2]
      (\<lambda>_. None) 7 (\<lambda>_. None) NewEngineMetrics = Some (Inr db) \<and>
    db_run db small_history = Some (resps, db') \<and> resps = fst (spec_run (live_map []) small_history)"
  using engine_refines_map [OF small_history_ok, of empty_os_file "\<lambda>_. None" "\<lambda>_ _. False" "[WithFlushThreshold 2]"
      7 "\<lambda>_. None" NewEngineMetrics]
  by (simp add: healthy_def empty_os_file_def)

text \<open>C3. Crash recovery. In any history from an empty log that passes a sync tick, stop the process
  at the end of the history and keep any cut of the log file that contains the synced bytes: opening
  the engine on it succeeds, and its \<open>Get\<close> answers from a prefix of the acknowledged writes that
  contains every write made before the tick, in order and without gaps.\<close>

theorem engine_crash_recovery:
  assumes "log_ok (writes (before @ after))" and "\<forall>ev \<in> set (before @ after). ev_ok ev"
    and "distinct (clocks (before @ after))" and "healthy wfile" and "f_data wfile = []" and "f_durable wfile = []"
    and "\<forall>dir. mkdir dir = None"
    and "NewDB rnd (Inr wfile) (Inr []) opts mkdir now d em = Some (Inr db)"
    and "db_run db (before @ EvSync dt # after) = Some (resps, db')"
    and "length (f_durable (wal_file (db_wal db'))) \<le> n"
  shows "\<exists>j db''. length (writes before) \<le> j \<and>
    NewDB rnd' (Inr wfile') (Inr (take n (f_data (wal_file (db_wal db'))))) opts' mkdir now' d' em' = Some (Inr db'') \<and>
    (\<forall>k. db_Get db'' k = Some (Inr (live_map (take j (writes (before @ after))) k), db''))"
proof -
  define rs where "rs = writes (before @ after)"
  have log: "log_ok rs" using assms(1) by (simp add: rs_def)
  have db: "db_inv db [] {}"
    using NewDB_inv [of "[]" mkdir wfile rnd opts now d em] assms(4-8) by (auto simp: log_ok_def short_keys_def)
  obtain r1 db1 where r1: "db_run db before = Some (r1, db1)" "db_inv db1 (writes before) (set (clocks before))"
    using db_run_sim [OF db, of before] assms(1-3) log_ok_prefix [of "writes before"] by auto
  have split: "db_run db (evs @ evs') = (case db_run db evs of None \<Rightarrow> None | Some (r, db1) \<Rightarrow>
      map_option (\<lambda>(r', db2). (r @ r', db2)) (db_run db1 evs'))" for db evs evs'
    by (induction evs arbitrary: db) (auto simp: option.map_id id_def [symmetric] split: option.splits)
  note sync = db_sync_inv [OF r1(2), of dt]
  obtain r2 where r2: "db_run (db_sync dt db1) after = Some (r2, db')"
    using assms(9) r1(1) by (auto simp: split split: option.splits)
  have fin: "db_inv db' rs (set (clocks before) \<union> set (clocks after))"
      "length (wal_log (writes before)) \<le> length (f_durable (wal_file (db_wal db')))"
    using db_run_sim [OF sync(1), of after] assms(1-3) r2 by (auto simp: sync(2) rs_def)
  let ?f = "f_data (wal_file (db_wal db'))"
  let ?n = "min n (length ?f)"
  have w: "?f @ bw_buf (wal_writer (db_wal db')) = wal_log rs" "length (f_durable (wal_file (db_wal db'))) \<le> length ?f"
    using fin(1) by (auto simp: db_inv_def wal_inv_def wal_total_def bw_total_def)
  have cut: "take n ?f = take ?n (wal_log rs)" using w(1) [symmetric] by (simp add: min_def)
  have "length (wal_log (take (length (writes before)) rs)) \<le> ?n"
    using fin(2) w(2) assms(10) by (simp add: rs_def)
  then have j: "length (writes before) \<le> complete_records ?n rs"
    by (intro complete_records_ge) (simp_all add: rs_def)
  obtain db'' where db'': "NewDB rnd' (Inr wfile') (Inr (take n ?f)) opts' mkdir now' d' em' = Some (Inr db'')"
    "layers_ok db'' (take (complete_records ?n rs) rs) (apply_ops [] (map rec_entry (take (complete_records ?n rs) rs))) [] [] []"
    using NewDB_layers [OF log assms(7)] unfolding cut by blast
  have "db_Get db'' k = Some (Inr (live_map (take (complete_records ?n rs) rs) k), db'')" for k
    using db''(2) by (auto simp: layers_ok_def db_Get_lay)
  then show ?thesis using j db''(1) unfolding rs_def by blast
qed

theorem engine_crash_recovery_witness:
  "\<exists>db resps db' j db''.
    NewDB (\<lambda>_ _. False) (Inr empty_os_file) (Inr []) [] (\<lambda>_. None) 7 (\<lambda>_. None) NewEngineMetrics = Some (Inr db) \<and>
    db_run db (small_history @ EvSync 0 # [EvPut [3] [30] (\<lambda>_ _. False) 0]) = Some (resps, db') \<and> 3 \<le> j \<and>
    NewDB (\<lambda>_ _. False) (Inr empty_os_file) (Inr (take (length (f_durable (wal_file (db_wal db')))) (f_data (wal_file (db_wal db')))))
      [] (\<lambda>_. None) 8 (\<lambda>_. None) NewEngineMetrics = Some (Inr db'') \<and>
    (\<forall>k. db_Get db'' k = Some (Inr (live_map (take j (writes (small_history @ [EvPut [3] [30] (\<lambda>_ _. False) 0]))) k), db''))"
proof -
  let ?after = "[EvPut [3] [30] (\<lambda>_ _. False) 0]"
  have ok: "log_ok (writes (small_history @ ?after))" "\<forall>ev \<in> set (small_history @ ?after). ev_ok ev"
    "distinct (clocks (small_history @ ?after))"
    by (simp_all add: small_history_def log_ok_def rec_ok_def rec_entry_def short_keys_def healthy_def empty_os_file_def)
  have e: "healthy empty_os_file" "f_data empty_os_file = []" "f_durable empty_os_file = []" "\<forall>dir. (\<lambda>_. None) dir = None"
    by (simp_all add: healthy_def empty_os_file_def)
  obtain db where db: "NewDB (\<lambda>_ _. False) (Inr empty_os_file) (Inr []) [] (\<lambda>_. None) 7 (\<lambda>_. None) NewEngineMetrics = Some (Inr db)"
    "db_inv db [] {}"
    using NewDB_inv [of "[]" "\<lambda>_. None" empty_os_file "\<lambda>_ _. False" "[]" 7 "\<lambda>_. None" NewEngineMetrics] e
    by (auto simp: log_ok_def short_keys_def)
  obtain resps db' where run: "db_run db (small_history @ EvSync 0 # ?after) = Some (resps, db')"
    using db_run_sim [OF db(2), of "small_history @ EvSync 0 # ?after"] ok by auto
  have "length (writes small_history) = 3" by (simp add: small_history_def)
  then show ?thesis
    using engine_crash_recovery [OF ok e db(1) run order.refl, of "\<lambda>_ _. False" empty_os_file "[]" 8 "\<lambda>_. None" NewEngineMetrics]
      db(1) run by metis
qed

end
