(* ===== verification/Engine_Props.thy ===== *)
theory Engine_Props
  imports Engine_Run
begin

text \<open>
  Shutdown, the bound on the number of L0 files, when a write returns, and what a failed flush does.
\<close>

section \<open>Shutdown\<close>

text \<open>The worker does not look at the active table, the log, the metrics or the stop flag.\<close>

definition framed_db :: "memtable \<Rightarrow> wal \<Rightarrow> EngineMetrics \<Rightarrow> bool \<Rightarrow> DB \<Rightarrow> DB" where
  "framed_db a w em s db = db\<lparr>db_activeMT := a, db_wal := w, db_metrics := em, db_stopped := s\<rparr>"

lemma framed_db_simps [simp]:
  "db_activeMT (framed_db a w em s db) = a" "db_wal (framed_db a w em s db) = w"
  "db_immutableMT (framed_db a w em s db) = db_immutableMT db" "db_flushQ (framed_db a w em s db) = db_flushQ db"
  "db_disk (framed_db a w em s db) = db_disk db" "db_currentVersion (framed_db a w em s db) = db_currentVersion db"
  "db_flushCount (framed_db a w em s db) = db_flushCount db"
  "db_compactionThreshold (framed_db a w em s db) = db_compactionThreshold db"
  "db_purges (framed_db a w em s db) = db_purges db"
  "generateSSTPath (framed_db a w em s db) = generateSSTPath db"
  by (simp_all add: framed_db_def generateSSTPath_def fun_eq_iff Let_def)

lemma maybeCompact_framed:
  "maybeCompact now c (framed_db a w em s db) = map_option (framed_db a w em s) (maybeCompact now c db)"
  by (auto simp: maybeCompact_def Let_def framed_db_def [of _ _ _ _ "_\<lparr>db_disk := _\<rparr>"] split: option.splits)
    (auto simp: framed_db_def)

lemma worker_flush_framed:
  "worker_flush opened now c (framed_db a w em s db) = map_option (framed_db a w em s) (worker_flush opened now c db)"
proof (cases "db_flushQ db")
  case (Cons m q)
  let ?path = "generateSSTPath db ''L0'' (db_flushCount db)"
  show ?thesis
  proof (cases "FlushMemTable m opened ?path (db_disk db)")
    case (Some r)
    obtain e d where r: "r = (e, d)" by (cases r)
    let ?up = "\<lambda>db. db\<lparr>db_flushQ := q, db_disk := d, db_flushCount := db_flushCount db + 1,
      db_currentVersion := \<lparr>v_Manifest = \<lparr>m_L0Files = db_L0 db @ [?path], m_L1Files = db_L1 db\<rparr>, v_Refs = 0\<rparr>,
      db_immutableMT := None\<rparr>"
    have "?up (framed_db a w em s db) = framed_db a w em s (?up db)" by (simp add: framed_db_def)
    then show ?thesis
      using maybeCompact_framed [of now c a w em s "?up db"] Some
      by (simp add: worker_flush_def Cons r Let_def)
  qed (simp add: worker_flush_def Cons)
qed (simp add: worker_flush_def)

lemma wal_Close_inv:
  assumes "wal_inv w rs"
  obtains w' em' where "wal_Close w em dt = (None, w', em')"
    and "f_data (wal_file w') = wal_log rs" and "f_durable (wal_file w') = wal_log rs" and "f_closed (wal_file w')"
proof -
  have h: "bw_healthy (wal_writer (w\<lparr>wal_stopped := True\<rparr>))" using assms by (simp add: wal_inv_def)
  obtain w1 em1 where w1: "wal_flush (w\<lparr>wal_stopped := True\<rparr>) em dt = (w1, em1)" "bw_healthy (wal_writer w1)"
    "f_durable (wal_file w1) = wal_total w" "f_data (wal_file w1) = wal_total w"
    using wal_flush_healthy [OF h, of em dt] by (metis wal_total_def wal.select_convs(1) wal.update_convs(2) wal.surjective)
  let ?w = "w1\<lparr>wal_writer := (wal_writer w1)\<lparr>bw_file := (wal_file w1)\<lparr>f_closed := True\<rparr>\<rparr>\<rparr>"
  have "wal_Close w em dt = (None, ?w, em1)"
    using assms w1(1,2) by (simp add: wal_Close_def wal_inv_def file_Close_def bw_healthy_def healthy_def)
  moreover have "f_data (wal_file ?w) = wal_log rs" "f_durable (wal_file ?w) = wal_log rs" "f_closed (wal_file ?w)"
    using assms w1(3,4) by (simp_all add: wal_inv_def)
  ultimately show ?thesis by (rule that)
qed

text \<open>The state in which \<open>Close\<close> has queued the active table, as the worker sees it.\<close>

lemma close_queue_layers:
  assumes "layers_ok db rs aes ies ss0 ss1" and "db_immutableMT db = None" and "path_inv db U"
  defines "q \<equiv> db\<lparr>db_activeMT := NewMemTable, db_immutableMT := Some (db_activeMT db), db_flushQ := [db_activeMT db]\<rparr>"
  shows "layers_ok q rs [] aes ss0 ss1" and "path_inv q U"
proof -
  show "layers_ok q rs [] aes ss0 ss1"
    using assms(1,2) by (auto simp: q_def layers_ok_def lay_def view_def mt_rel_New)
  show "path_inv q U"
    using assms(3) path_cong [of q db] by (simp add: q_def path_inv_def purge_files_def)
qed

lemma drain_queue_layers:
  assumes "layers_ok db rs aes ies ss0 ss1" and "log_ok rs"
  shows "\<exists>db'. drain_queue [Inr f] (db_flushQ db) (framed_db a w em s db) = Some db' \<and> db_wal db' = w"
proof (cases "db_immutableMT db")
  case None
  then show ?thesis using assms(1) by (simp add: layers_ok_def lay_def)
next
  case (Some m)
  then have m: "mt_rel m ies" "db_flushQ db = [m]" using assms(1) by (simp_all add: layers_ok_def lay_def)
  have "sst_ok (map put_ent ies)" using mt_rel_sorted [OF m(1)] layers_fit [OF assms] by (intro sst_ok_put)
  from FlushMemTable_spec [OF m(1) this, of f "generateSSTPath db ''L0'' (db_flushCount db)" "db_disk db"]
  obtain e d where "FlushMemTable m (Inr f) (generateSSTPath db ''L0'' (db_flushCount db)) (db_disk db) = Some (e, d)" by blast
  then show ?thesis by (simp add: m(2))
qed

lemma close_wait_layers:
  assumes inv: "db_inv db rs U" and log: "log_ok rs" and now: "now \<notin> U" and f: "healthy f"
  shows "\<exists>db2 aes ies ss0 ss1. (if 0 < mt_Size (db_activeMT db) \<and> db_immutableMT db \<noteq> None
      then worker_flush (Inr f) now c (framed_db a w em s db) else Some (framed_db a w em s db)) = Some (framed_db a w em s db2) \<and>
    layers_ok db2 rs aes ies ss0 ss1 \<and> path_inv db2 (insert now U) \<and> length (db_L0 db2) \<le> length rs \<and>
    db_activeMT db2 = db_activeMT db \<and> (0 < mt_Size (db_activeMT db) \<longrightarrow> db_immutableMT db2 = None)"
proof (cases "0 < mt_Size (db_activeMT db) \<and> db_immutableMT db \<noteq> None")
  case True
  obtain db' where db': "worker_flush (Inr f) now c db = Some db'" "db_inv db' rs (insert now U)"
    "db_activeMT db' = db_activeMT db" "db_immutableMT db' = None"
    using worker_flush_inv [OF inv log now f] by blast
  then have "worker_flush (Inr f) now c (framed_db a w em s db) = Some (framed_db a w em s db')"
    by (simp add: worker_flush_framed)
  moreover obtain aes ies ss0 ss1 where "layers_ok db' rs aes ies ss0 ss1" "path_inv db' (insert now U)" "length (db_L0 db') \<le> length rs"
    using db'(2) by (auto simp: db_inv_def)
  ultimately show ?thesis unfolding if_P [OF True] using db'(3,4) by blast
next
  case False
  obtain aes ies ss0 ss1 where "layers_ok db rs aes ies ss0 ss1" "path_inv db U" "length (db_L0 db) \<le> length rs"
    using inv by (auto simp: db_inv_def)
  moreover from this(2) have "path_inv db (insert now U)" by (auto simp: path_inv_def)
  ultimately show ?thesis unfolding if_not_P [OF False] using False by (intro exI [of _ db]) auto
qed

lemma close_drain_layers:
  assumes q: "layers_ok q rs aes ies ss0 ss1" "path_inv q U" and log: "log_ok rs" and now: "now \<notin> U" and f: "healthy f"
    and n: "length (db_L0 q) + 1 < 18446744073709551616"
  shows "\<exists>db'. (case (if pick then worker_flush (Inr f) now c (framed_db a w em s q) else Some (framed_db a w em s q)) of
      None \<Rightarrow> None | Some db5 \<Rightarrow> (case drain_queue [Inr f] (db_flushQ db5) db5 of None \<Rightarrow> None | Some db6 \<Rightarrow> Some (None, db6))) =
      Some (None, db') \<and> db_wal db' = w"
proof (cases pick)
  case True
  obtain db5 where "worker_flush (Inr f) now c q = Some db5" "db_flushQ db5 = []"
    using worker_flush_layers [OF q log now f n, of c] by blast
  then show ?thesis using True by (simp add: worker_flush_framed)
next
  case False
  then show ?thesis using drain_queue_layers [OF q(1) log, of f a w em s] by auto
qed

lemma db_Close_inv:
  assumes inv: "db_inv db rs U" and log: "log_ok rs" and now: "now1 \<notin> U" "now2 \<notin> insert now1 U"
    and f: "healthy f1" "healthy f2"
  shows "\<exists>db'. db_Close dt (Inr f1) now1 c1 pick (Inr f2) now2 c2 db = Some (None, db') \<and>
    f_data (wal_file (db_wal db')) = wal_log rs \<and> f_durable (wal_file (db_wal db')) = wal_log rs \<and>
    f_closed (wal_file (db_wal db'))"
proof -
  have wi: "wal_inv (db_wal db) rs" using inv by (simp add: db_inv_def)
  have small: "length rs + 1 < 18446744073709551616"
    using length_le_lsize [of "map rec_entry rs"] log by (simp add: log_ok_def)
  obtain w em where w: "wal_Close (db_wal db) (db_metrics db) dt = (None, w, em)"
    "f_data (wal_file w) = wal_log rs" "f_durable (wal_file w) = wal_log rs" "f_closed (wal_file w)"
    using wal_Close_inv [OF wi] by blast
  let ?a = "db_activeMT db" and ?s = "db_stopped db"
  have db1: "db\<lparr>db_wal := w, db_metrics := em\<rparr> = framed_db ?a w em ?s db" by (simp add: framed_db_def)
  obtain db2 aes ies ss0 ss1 where db2: "(if 0 < mt_Size ?a \<and> db_immutableMT db \<noteq> None
        then worker_flush (Inr f1) now1 c1 (framed_db ?a w em ?s db) else Some (framed_db ?a w em ?s db)) =
      Some (framed_db ?a w em ?s db2)"
    and ok2: "layers_ok db2 rs aes ies ss0 ss1" and p2: "path_inv db2 (insert now1 U)" and n2: "length (db_L0 db2) \<le> length rs"
    and act2: "db_activeMT db2 = ?a" and imm2: "0 < mt_Size ?a \<longrightarrow> db_immutableMT db2 = None"
    using close_wait_layers [OF inv log now(1) f(1), of c1 ?a w em ?s] by blast
  define q where "q = (if 0 < mt_Size ?a then db2\<lparr>db_activeMT := NewMemTable, db_immutableMT := Some ?a, db_flushQ := [?a]\<rparr> else db2)"
  have "\<exists>qa qi. layers_ok q rs qa qi ss0 ss1" "path_inv q (insert now1 U)" "db_L0 q = db_L0 db2"
    using close_queue_layers [OF ok2 _ p2] imm2 ok2 p2 unfolding q_def act2 by (cases "0 < mt_Size ?a"; auto)+
  then obtain qa qi where q: "layers_ok q rs qa qi ss0 ss1" "path_inv q (insert now1 U)" "length (db_L0 q) + 1 < 18446744073709551616"
    using n2 small by auto
  have db4: "(if 0 < mt_Size ?a then (framed_db ?a w em ?s db2)\<lparr>db_immutableMT := Some ?a, db_flushQ := db_flushQ db2 @ [?a]\<rparr>
      else framed_db ?a w em ?s db2)\<lparr>db_stopped := True\<rparr> = framed_db ?a w em True q"
    using ok2 imm2 by (cases "0 < mt_Size ?a") (simp_all add: q_def framed_db_def layers_ok_def lay_def)
  have idle: "(0 < mt_Size ?a \<and> db_immutableMT db2 \<noteq> None) = False" using imm2 by auto
  have "db_Close dt (Inr f1) now1 c1 pick (Inr f2) now2 c2 db =
     (case (if pick then worker_flush (Inr f2) now2 c2 (framed_db ?a w em True q) else Some (framed_db ?a w em True q)) of
      None \<Rightarrow> None | Some db5 \<Rightarrow> (case drain_queue [Inr f2] (db_flushQ db5) db5 of None \<Rightarrow> None | Some db6 \<Rightarrow> Some (None, db6)))"
    by (simp only: db_Close_def w(1) prod.case option.case Let_def db1 framed_db_simps db2 db4 idle if_False)
  then show ?thesis using close_drain_layers [OF q(1,2) log now(2) f(2) q(3), of pick c2 ?a w em True] w(2-4) by auto
qed

text \<open>C4. Clean shutdown. After any history, \<open>Close\<close> returns nil whether the worker or the stop signal
  is taken first and whatever becomes of the compaction files; the log then holds every acknowledged
  write durably, and opening the engine again on it gives \<open>Get\<close> answers from exactly these writes.\<close>

theorem close_then_reopen:
  assumes "log_ok (writes evs)" and "\<forall>ev \<in> set evs. ev_ok ev" and "distinct (now2 # now1 # clocks evs)"
    and "healthy wfile" and "f_data wfile = []" and "f_durable wfile = []"
    and "\<forall>dir. mkdir dir = None" and "healthy f1" and "healthy f2"
    and "NewDB rnd (Inr wfile) (Inr []) opts mkdir now d em = Some (Inr db)"
    and "db_run db evs = Some (resps, db')"
  shows "\<exists>db'' db2. db_Close dt (Inr f1) now1 c1 pick (Inr f2) now2 c2 db' = Some (None, db'') \<and>
    f_durable (wal_file (db_wal db'')) = wal_log (writes evs) \<and>
    NewDB rnd' (Inr wfile') (Inr (f_data (wal_file (db_wal db'')))) opts' mkdir now' d' em' = Some (Inr db2) \<and>
    (\<forall>k. db_Get db2 k = Some (Inr (live_map (writes evs) k), db2))"
proof -
  have "db_inv db [] {}"
    using NewDB_inv [of "[]" mkdir wfile rnd opts now d em] assms(4-7,10) by (auto simp: log_ok_def short_keys_def)
  then have inv: "db_inv db' (writes evs) (set (clocks evs))"
    using db_run_sim [of db "[]" "{}" evs] assms(1-3,11) by auto
  obtain db'' where db'': "db_Close dt (Inr f1) now1 c1 pick (Inr f2) now2 c2 db' = Some (None, db'')"
    "f_data (wal_file (db_wal db'')) = wal_log (writes evs)" "f_durable (wal_file (db_wal db'')) = wal_log (writes evs)"
    using db_Close_inv [OF inv assms(1) _ _ assms(8,9), of now1 now2 dt c1 pick c2] assms(3) by auto
  obtain db2 where db2: "NewDB rnd' (Inr wfile') (Inr (wal_log (writes evs))) opts' mkdir now' d' em' = Some (Inr db2)"
    "layers_ok db2 (writes evs) (apply_ops [] (map rec_entry (writes evs))) [] [] []"
    using NewDB_layers [OF assms(1,7), of rnd' wfile' "length (wal_log (writes evs))" opts' now' d' em']
    by (auto simp: complete_records_all)
  then have "\<forall>k. db_Get db2 k = Some (Inr (live_map (writes evs) k), db2)"
    by (auto simp: layers_ok_def db_Get_lay)
  then show ?thesis using db'' db2(1) by auto
qed

theorem close_then_reopen_witness:
  "\<exists>db resps db' db'' db2.
    NewDB (\<lambda>_ _. False) (Inr empty_os_file) (Inr []) [] (\<lambda>_. None) 7 (\<lambda>_. None) NewEngineMetrics = Some (Inr db) \<and>
    db_run db small_history = Some (resps, db') \<and>
    db_Close 0 (Inr empty_os_file) 8 (Inr empty_os_file) False (Inr empty_os_file) 9 (Inr empty_os_file) db' = Some (None, db'') \<and>
    NewDB (\<lambda>_ _. False) (Inr empty_os_file) (Inr (f_data (wal_file (db_wal db'')))) [] (\<lambda>_. None) 9 (\<lambda>_. None) NewEngineMetrics =
      Some (Inr db2) \<and>
    db_Get db2 [1] = Some (Inr None, db2) \<and> db_Get db2 [2] = Some (Inr (Some [20]), db2)"
proof -
  have e: "healthy empty_os_file" "f_data empty_os_file = []" "f_durable empty_os_file = []" "\<forall>dir. (\<lambda>_. None) dir = None"
    by (simp_all add: healthy_def empty_os_file_def)
  obtain db where db: "NewDB (\<lambda>_ _. False) (Inr empty_os_file) (Inr []) [] (\<lambda>_. None) 7 (\<lambda>_. None) NewEngineMetrics = Some (Inr db)"
    "db_inv db [] {}"
    using NewDB_inv [of "[]" "\<lambda>_. None" empty_os_file "\<lambda>_ _. False" "[]" 7 "\<lambda>_. None" NewEngineMetrics] e
    by (auto simp: log_ok_def short_keys_def)
  obtain resps db' where run: "db_run db small_history = Some (resps, db')"
    using db_run_sim [OF db(2), of small_history] small_history_ok by auto
  have cl: "distinct (9 # 8 # clocks small_history)" by (simp add: small_history_def)
  have "live_map (writes small_history) [1] = None" "live_map (writes small_history) [2] = Some [20]"
    by (simp_all add: small_history_def rec_entry_def opcodes)
  then show ?thesis
    using close_then_reopen [OF small_history_ok(1) [simplified] small_history_ok(2) cl e e(1) e(1) db(1) run,
        of 0 "Inr empty_os_file" False "Inr empty_os_file" "\<lambda>_ _. False" empty_os_file "[]" 9 "\<lambda>_. None" NewEngineMetrics]
      db(1) run by (elim exE conjE) (intro exI conjI, assumption+, simp_all)
qed

section \<open>When a write returns\<close>

lemma put_loop_frozen:
  assumes "put_loop rnd dt db k v = Some db'"
  shows "\<not> mt_frozen (db_activeMT db)"
proof (rule put_loop.raw_induct [where P = "\<lambda>rnd dt db k v db'. \<not> mt_frozen (db_activeMT db)", OF _ assms])
  fix loop :: "(nat \<Rightarrow> nat \<Rightarrow> bool) \<Rightarrow> real \<Rightarrow> DB \<Rightarrow> bytes \<Rightarrow> bytes \<Rightarrow> DB option" and rnd dt db k v db'
  assume hyp: "\<And>rnd dt db k v db'. loop rnd dt db k v = Some db' \<Longrightarrow> \<not> mt_frozen (db_activeMT db)"
    and body: "(case mt_Put (rnd 0) (db_activeMT db) k v of None \<Rightarrow> None
      | Some (None, m) \<Rightarrow> let db' = db\<lparr>db_activeMT := m\<rparr> in
          if db_flushThreshold db' \<le> mt_Size m then CheckFlush dt db' else Some db'
      | Some (Some e, m) \<Rightarrow> loop (\<lambda>i. rnd (Suc i)) dt (db\<lparr>db_activeMT := m\<rparr>) k v) = Some db'"
  show "\<not> mt_frozen (db_activeMT db)"
  proof
    assume fr: "mt_frozen (db_activeMT db)"
    with body have "loop (\<lambda>i. rnd (Suc i)) dt db k v = Some db'" by (simp add: mt_Put_frozen)
    then show False using hyp fr by blast
  qed
qed


lemma open_db_exists:
  "\<exists>db. NewDB rnd (Inr empty_os_file) (Inr []) opts (\<lambda>_. None) now d em = Some (Inr db) \<and> db_inv db [] {}"
  using NewDB_inv [of "[]" "\<lambda>_. None" empty_os_file rnd opts now d em]
  by (auto simp: log_ok_def short_keys_def healthy_def empty_os_file_def)


section \<open>A failed flush\<close>

text \<open>C27. A flush whose file cannot be created is only logged: the worker still drops the immutable
  table and installs the name of the missing file in the manifest, after which every \<open>Get\<close> of a key
  that is not in the active table returns an error, also for keys of older, intact files.\<close>

theorem failed_flush_breaks_reads:
  assumes "db_flushQ db = [m]" and "db_disk db (generateSSTPath db ''L0'' (db_flushCount db)) = None"
    and "int (length (db_L0 db)) + 1 < db_compactionThreshold db" and "mt_Get (db_activeMT db) key = Some None"
  shows "\<exists>db' err db''. worker_flush (Inl e) now c db = Some db' \<and> db_immutableMT db' = None \<and>
    db_Get db' key = Some (Inl err, db'')"
proof -
  let ?l0 = "generateSSTPath db ''L0'' (db_flushCount db)"
  let ?db = "db\<lparr>db_flushQ := [], db_flushCount := db_flushCount db + 1,
    db_currentVersion := \<lparr>v_Manifest = \<lparr>m_L0Files = db_L0 db @ [?l0], m_L1Files = db_L1 db\<rparr>, v_Refs = 0\<rparr>,
    db_immutableMT := None\<rparr>"
  have "worker_flush (Inl e) now c db = Some ?db"
    using assms(1,3) by (simp add: worker_flush_def FlushMemTable_def Let_def)
  moreover have "\<exists>err. search_files msg (db_disk ?db) key (rev (db_L0 ?db)) = Inl err" for msg
    using assms(2) by (simp add: ReadSSTable_def)
  then obtain err where "search_files ''failed to read L0 SSTable'' (db_disk ?db) key (rev (db_L0 ?db)) = Inl err" by blast
  then have "db_Get ?db key = Some (Inl err, ?db)"
    using assms(4) by (simp add: db_Get_def v_Acquire_def v_Release_def refs_negative_def)
  ultimately show ?thesis by fastforce
qed

text \<open>A database that has just been opened on an empty log.\<close>

definition fresh_db :: DB where
  "fresh_db = \<lparr>db_activeMT = NewMemTable, db_immutableMT = None,
     db_wal = \<lparr>wal_writer = NewWriterSize empty_os_file (4 * 1024 * 1024), wal_stopped = False\<rparr>, db_flushQ = [],
     db_stopped = False, db_flushThreshold = 4 * 1024 * 1024,
     db_currentVersion = \<lparr>v_Manifest = \<lparr>m_L0Files = [], m_L1Files = []\<rparr>, v_Refs = 0\<rparr>,
     db_sstDir = [], db_compactionThreshold = 4, db_flushCount = 7, db_disk = (\<lambda>_. None),
     db_purges = [], db_metrics = NewEngineMetrics\<rparr>"

lemma NewDB_fresh:
  "NewDB rnd (Inr empty_os_file) (Inr []) [] mkdir 7 (\<lambda>_. None) NewEngineMetrics = Some (Inr fresh_db)"
  by (simp add: NewDB_def NewWAL_def Recover_def fresh_db_def Let_def)

theorem failed_flush_breaks_reads_witness:
  "\<exists>db' err db''. worker_flush (Inl ErrNotExist) 8 (Inr empty_os_file)
      (fresh_db\<lparr>db_immutableMT := Some one_entry_table, db_flushQ := [one_entry_table]\<rparr>) = Some db' \<and>
    db_immutableMT db' = None \<and> db_Get db' [1] = Some (Inl err, db'')"
  by (rule failed_flush_breaks_reads) (simp_all add: fresh_db_def mt_Get_rel [OF mt_rel_New])

section \<open>The number of L0 files\<close>

lemma CheckFlush_version:
  "CheckFlush dt db = Some db' \<Longrightarrow> db_currentVersion db' = db_currentVersion db \<and>
     db_compactionThreshold db' = db_compactionThreshold db"
  by (auto simp: CheckFlush_def Let_def split: if_splits)

lemma put_loop_version:
  assumes "mt_rel (db_activeMT db) es" and "put_loop rnd dt db k v = Some db'"
  shows "db_currentVersion db' = db_currentVersion db \<and> db_compactionThreshold db' = db_compactionThreshold db"
proof -
  obtain m where "mt_Put (rnd 0) (db_activeMT db) k v = Some (None, m)"
    using mt.put_rel [OF assms(1), of "rnd 0" k v] put_loop_frozen [OF assms(2)] by auto
  then show ?thesis
    using assms(2) by (subst (asm) put_loop.simps) (auto simp: Let_def dest: CheckFlush_version split: if_splits)
qed

text \<open>A compaction whose file can be written empties L0.\<close>

lemma maybeCompact_L0:
  assumes ok: "layers_ok db rs aes ies ss0 ss1" and log: "log_ok rs" and f: "healthy f"
    and n: "length (db_L0 db) < 18446744073709551616" and run: "maybeCompact now (Inr f) db = Some db'"
  shows "db_compactionThreshold db' = db_compactionThreshold db \<and>
    (db_L0 db' = [] \<or> int (length (db_L0 db')) < db_compactionThreshold db)"
proof (cases "int (length (db_L0 db)) < db_compactionThreshold db")
  case True
  then show ?thesis using run by (simp add: maybeCompact_def Let_def)
next
  case False
  note fit = layers_fit [OF ok log]
  have hold: "files_hold (db_disk db) (db_L0 db) (put_ents ss0)" using ok by (simp add: layers_ok_def lay_def)
  have sst: "sst_ok (compacted (put_ents ss0))"
    unfolding compacted_put using compact_ents_fits [OF fit(3)] compact_ents_sub(1) [of ss0] fit(4)
    by (intro sst_ok_put) auto
  from CompactL0toL1_spec [OF hold n sst, of f "generateSSTPath db ''L1'' now"] f
  obtain d' where "CompactL0toL1 (db_L0 db) (Inr f) (generateSSTPath db ''L1'' now) (db_disk db) = Some (None, d')" by auto
  then show ?thesis using run False by (auto simp: maybeCompact_def Let_def)
qed

lemma worker_flush_L0:
  assumes inv: "db_inv db rs U" and log: "log_ok rs" and now: "now \<notin> U" and f: "healthy f" "healthy g"
    and run: "worker_flush (Inr f) now (Inr g) db = Some db'" and less: "int (length (db_L0 db)) < db_compactionThreshold db"
  shows "db_compactionThreshold db' = db_compactionThreshold db \<and> int (length (db_L0 db')) < db_compactionThreshold db"
proof -
  obtain aes ies ss0 ss1 where ok: "layers_ok db rs aes ies ss0 ss1" and p: "path_inv db U"
    using inv by (auto simp: db_inv_def)
  show ?thesis
  proof (cases "db_immutableMT db")
    case None
    then have "db' = db" using ok run by (simp add: layers_ok_def lay_def worker_flush_def)
    then show ?thesis using less by simp
  next
    case (Some m)
    obtain d' where step: "worker_flush (Inr f) now (Inr g) db =
        (if db_compactionThreshold db \<le> int (length (db_L0 db)) + 1 then maybeCompact now (Inr g) (flushed_db db d')
         else Some (flushed_db db d'))" and ok': "layers_ok (flushed_db db d') rs aes [] (ss0 @ [ies]) ss1"
      using flushed_db_layers [OF ok p log f(1) Some] by blast
    have thr: "db_compactionThreshold (flushed_db db d') = db_compactionThreshold db"
      and len: "length (db_L0 (flushed_db db d')) = length (db_L0 db) + 1" by (simp_all add: flushed_db_def)
    have n: "length (db_L0 (flushed_db db d')) < 18446744073709551616" using db_inv_count [OF inv log] len by simp
    show ?thesis
    proof (cases "db_compactionThreshold db \<le> int (length (db_L0 db)) + 1")
      case True
      then have "maybeCompact now (Inr g) (flushed_db db d') = Some db'" using run step by simp
      from maybeCompact_L0 [OF ok' log f(2) n this] less show ?thesis unfolding thr by auto
    next
      case False
      then have "db' = flushed_db db d'" using run step by simp
      then show ?thesis using False thr len by simp
    qed
  qed
qed

fun comp_ok :: "db_event \<Rightarrow> bool" where
  "comp_ok (EvFlush f now opened) = (\<exists>g. opened = Inr g \<and> healthy g)"
| "comp_ok (EvCompact now opened) = (\<exists>g. opened = Inr g \<and> healthy g)"
| "comp_ok ev = True"

lemma db_step_L0:
  assumes inv: "db_inv db rs U" and log: "log_ok (rs @ write_of ev)" and ev: "ev_ok ev" "comp_ok ev" and cl: "set (clock_of ev) \<inter> U = {}"
    and run: "db_step ev db = Some (r, db')" and less: "int (length (db_L0 db)) < db_compactionThreshold db"
  shows "int (length (db_L0 db')) < db_compactionThreshold db'"
proof -
  obtain aes ies ss0 ss1 where ok: "layers_ok db rs aes ies ss0 ss1" using inv by (auto simp: db_inv_def)
  have rel: "mt_rel (db_activeMT (db\<lparr>db_wal := w\<rparr>)) aes" for w using ok by (simp add: layers_ok_def lay_def)
  have log': "log_ok rs" by (rule log_ok_prefix [OF log])
  note n = db_inv_count [OF inv log']
  show ?thesis
  proof (cases ev)
    case (EvPut k v rnd dt)
    then show ?thesis using run less by (auto simp: db_Put_def dest!: put_loop_version [OF rel] split: prod.splits option.splits)
  next
    case (EvDelete k rnd dt)
    then show ?thesis using run less by (auto simp: db_Delete_def dest!: put_loop_version [OF rel] split: prod.splits option.splits)
  next
    case (EvGet k)
    then show ?thesis using run less db_inv_Get [OF inv, of k] by simp
  next
    case (EvScan a b)
    then show ?thesis using run less db_inv_Scan [OF inv, of a b] by auto
  next
    case (EvSync dt)
    then show ?thesis using run less by (auto simp: db_sync_def split: prod.splits)
  next
    case (EvFlush f now opened)
    then show ?thesis
      using run less ev cl worker_flush_L0 [OF inv log', of now f] by (auto simp: quiet_def)
  next
    case (EvCompact now opened)
    then obtain g where g: "healthy g" "maybeCompact now (Inr g) db = Some db'"
      using run ev by (auto simp: quiet_def TriggerCompaction_def)
    then show ?thesis using maybeCompact_L0 [OF ok log' g(1) _ g(2)] n less by auto
  next
    case EvPurge
    then show ?thesis using run less by (auto simp: worker_purge_def split: list.splits prod.splits option.splits)
  qed
qed

text \<open>C25. While the files of compactions can be written, the number of L0 files is below the
  compaction threshold after every history: each flush that reaches it compacts L0 away.\<close>

theorem l0_files_bounded:
  assumes "log_ok (rs @ writes evs)" and "\<forall>ev \<in> set evs. ev_ok ev \<and> comp_ok ev" and "distinct (clocks evs)"
    and "healthy wfile" and "f_data wfile = wal_log rs" and "f_durable wfile = wal_log rs" and "\<forall>dir. mkdir dir = None"
    and "NewDB rnd (Inr wfile) (Inr (f_data wfile)) opts mkdir now d em = Some (Inr db)"
    and "db_run db evs = Some (resps, db')"
  shows "int (length (db_L0 db')) < db_compactionThreshold db'"
proof -
  have log: "log_ok rs" by (rule log_ok_prefix [OF assms(1)])
  have inv: "db_inv db rs {}" using NewDB_inv [OF log assms(7,4-6), of rnd opts now d em] assms(8) by auto
  have l0: "int (length (db_L0 db)) < db_compactionThreshold db"
    using NewDB_layers [OF log assms(7), of rnd wfile "length (wal_log rs)" opts now d em] assms(5,8) by auto
  have "int (length (db_L0 db')) < db_compactionThreshold db'"
    if "db_inv db rs U" "log_ok (rs @ writes evs)" "\<forall>ev \<in> set evs. ev_ok ev \<and> comp_ok ev" "distinct (clocks evs)"
      "set (clocks evs) \<inter> U = {}" "int (length (db_L0 db)) < db_compactionThreshold db" "db_run db evs = Some (resps, db')"
    for db rs U evs resps
    using that
  proof (induction evs arbitrary: db rs U resps)
    case (Cons ev evs)
    have lg: "log_ok (rs @ write_of ev)" using Cons.prems(2) log_ok_prefix [of "rs @ write_of ev"] by simp
    have cl: "set (clock_of ev) \<inter> U = {}" using Cons.prems(5) by auto
    have evok: "ev_ok ev" "comp_ok ev" using Cons.prems(3) by simp_all
    obtain r db1 where s: "db_step ev db = Some (r, db1)" "db_inv db1 (rs @ write_of ev) (U \<union> set (clock_of ev))"
      using db_step_sim [OF Cons.prems(1) lg evok(1) cl] by blast
    obtain resps' where rest: "db_run db1 evs = Some (resps', db')" using Cons.prems(7) s(1) by (auto split: option.splits)
    show ?case
      by (rule Cons.IH [OF s(2) _ _ _ _ db_step_L0 [OF Cons.prems(1) lg evok cl s(1) Cons.prems(6)] rest])
        (use Cons.prems in auto)
  qed simp
  from this [OF inv assms(1-3) _ l0 assms(9)] show ?thesis by simp
qed

theorem l0_files_bounded_witness:
  "\<exists>resps db'. db_run fresh_db small_history = Some (resps, db') \<and>
    int (length (db_L0 db')) < db_compactionThreshold db'"
proof -
  have e: "healthy empty_os_file" "f_data empty_os_file = wal_log []" "f_durable empty_os_file = wal_log []" "\<forall>dir. (\<lambda>_. None) dir = None"
    by (simp_all add: healthy_def empty_os_file_def)
  have ok: "\<forall>ev \<in> set small_history. ev_ok ev \<and> comp_ok ev"
    by (simp add: small_history_def healthy_def empty_os_file_def)
  have new: "NewDB (\<lambda>_ _. False) (Inr empty_os_file) (Inr (f_data empty_os_file)) [] (\<lambda>_. None) 7 (\<lambda>_. None) NewEngineMetrics =
      Some (Inr fresh_db)" using NewDB_fresh by (simp add: empty_os_file_def)
  have inv: "db_inv fresh_db [] {}" using open_db_exists NewDB_fresh by (metis option.inject sum.inject(2))
  obtain resps db' where run: "db_run fresh_db small_history = Some (resps, db')"
    using db_run_sim [OF inv, of small_history] small_history_ok by auto
  show ?thesis using run l0_files_bounded [OF small_history_ok(1) ok small_history_ok(3) e new run] by blast
qed

end
