(* ===== verification/Service.thy ===== *)
theory Service
  imports Client Engine_Props
begin

text \<open>
  The parts put together: the engine as the storage of the server, and clients that talk to it over
  the wire. The contract \<open>storage_map\<close> is discharged for the engine.
\<close>

section \<open>The engine as a storage\<close>

text \<open>\<open>rnd\<close> and \<open>dt\<close> are the random draws and the measured duration of the operation.\<close>

definition db_storage :: "(nat \<Rightarrow> nat \<Rightarrow> bool) \<Rightarrow> real \<Rightarrow> DB Storage" where
  "db_storage rnd dt = \<lparr>st_Put = (\<lambda>k v db. db_Put rnd dt db k v), st_Get = (\<lambda>k db. db_Get db k),
     st_Delete = (\<lambda>k db. db_Delete rnd dt db k), st_Scan = (\<lambda>a b db. db_Scan db a b)\<rparr>"

definition db_rel :: "DB \<Rightarrow> (bytes \<Rightarrow> bytes option) \<Rightarrow> bool" where
  "db_rel db M \<longleftrightarrow> (\<exists>rs U. db_inv db rs U \<and> M = live_map rs)"

definition db_key :: "bytes \<Rightarrow> bool" where
  "db_key k \<longleftrightarrow> k \<noteq> [] \<and> length k < 65530"

lemma live_map_put: "live_map (rs @ [(OpPut, k, v)]) = (live_map rs)(k := bind_value v)"
  by (auto simp: fun_eq_iff rec_entry_def opcodes bind_value_def)

lemma live_map_delete: "live_map (rs @ [(OpDelete, k, [])]) = (live_map rs)(k := None)"
  by (auto simp: fun_eq_iff rec_entry_def)

lemma db_relI: "db_inv db rs U \<Longrightarrow> db_rel db (live_map rs)"
  by (auto simp: db_rel_def)

interpretation dbs: storage_map "db_storage rnd dt" db_rel db_key for rnd dt
proof unfold_locales
  fix db M k v
  assume "db_rel db M"
  then obtain rs U where db: "db_inv db rs U" "M = live_map rs" by (auto simp: db_rel_def)
  show "\<exists>db'. st_Put (db_storage rnd dt) k v db = Some (None, db') \<and> db_rel db' (M(k := bind_value v))" if k: "db_key k"
  proof -
    obtain db' where "db_Put rnd dt db k v = Some (None, db')" "db_inv db' (rs @ [(OpPut, k, v)]) U"
      using db_Put_inv [OF db(1), of k rnd dt v] k by (auto simp: db_key_def)
    then show ?thesis using db_relI [of db' "rs @ [(OpPut, k, v)]" U] unfolding live_map_put db(2) by (simp add: db_storage_def)
  qed
  show "\<exists>db'. st_Delete (db_storage rnd dt) k db = Some (None, db') \<and> db_rel db' (M(k := None))" if k: "db_key k"
  proof -
    obtain db' where "db_Delete rnd dt db k = Some (None, db')" "db_inv db' (rs @ [(OpDelete, k, [])]) U"
      using db_Delete_inv [OF db(1), of k rnd dt] k by (auto simp: db_key_def)
    then show ?thesis using db_relI [of db' "rs @ [(OpDelete, k, [])]" U] unfolding live_map_delete db(2) by (simp add: db_storage_def)
  qed
  show "\<exists>db'. st_Get (db_storage rnd dt) k db = Some (Inr (M k), db') \<and> db_rel db' M"
    using db_inv_Get [OF db(1), of k] db by (auto simp: db_storage_def db_rel_def)
next
  fix db M a b
  assume "db_rel db M"
  then obtain rs U where db: "db_inv db rs U" "M = live_map rs" by (auto simp: db_rel_def)
  show "\<exists>db'. st_Scan (db_storage rnd dt) a b db = Some (Inr (spec_scan M a b), db') \<and> db_rel db' M"
    using db_inv_Scan [OF db(1), of a b] spec_scan_eq [OF finite_live, of _ a b rs] db
    by (auto simp: db_storage_def db_rel_def)
qed


lemma fresh_db_rel: "db_rel fresh_db (\<lambda>_. None)"
proof -
  have "db_inv fresh_db [] {}" using open_db_exists NewDB_fresh by (metis option.inject sum.inject(2))
  moreover have "(\<lambda>_. None) = live_map []" by (simp add: fun_eq_iff)
  ultimately show ?thesis unfolding db_rel_def by blast
qed

section \<open>Sessions on the engine\<close>



section \<open>Clients of the engine\<close>

datatype client_op = CPut bytes bytes | CGet bytes | CDelete bytes | CScan bytes bytes | CEcho bytes

datatype client_out =
    OAck "unit result"
  | OGet "bytes option result"
  | OScan "(bytes \<times> bytes) list result"
  | OEcho "bytes result"

fun client_step :: "(conn \<Rightarrow> 'p \<Rightarrow> conn \<times> 'p) \<Rightarrow> client_op \<Rightarrow> 'p Client \<Rightarrow> client_out \<times> 'p Client" where
  "client_step x (CPut k v) c = map_prod OAck id (client_Put x c k v)"
| "client_step x (CGet k) c = map_prod OGet id (client_Get x c k)"
| "client_step x (CDelete k) c = map_prod OAck id (client_Delete x c k)"
| "client_step x (CScan a b) c = map_prod OScan id (client_Scan x c a b)"
| "client_step x (CEcho p) c = map_prod OEcho id (client_Echo x c p)"

text \<open>A program of client calls; \<open>x i\<close> is the peer during the \<open>i\<close>-th.\<close>

fun client_run :: "(nat \<Rightarrow> conn \<Rightarrow> 'p \<Rightarrow> conn \<times> 'p) \<Rightarrow> client_op list \<Rightarrow> 'p Client \<Rightarrow> client_out list \<times> 'p Client" where
  "client_run x [] c = ([], c)"
| "client_run x (op # ops) c =
     (let (out, c1) = client_step (x 0) op c; (outs, c2) = client_run (\<lambda>i. x (Suc i)) ops c1 in (out # outs, c2))"

fun client_spec :: "client_op \<Rightarrow> (bytes \<Rightarrow> bytes option) \<Rightarrow> client_out \<times> (bytes \<Rightarrow> bytes option)" where
  "client_spec (CPut k v) M = (OAck (Inr ()), M(k := bind_value v))"
| "client_spec (CGet k) M = (OGet (Inr (M k)), M)"
| "client_spec (CDelete k) M = (OAck (Inr ()), M(k := None))"
| "client_spec (CScan a b) M = (OScan (Inr (spec_scan M a b)), M)"
| "client_spec (CEcho p) M = (OEcho (Inr p), M)"

fun client_outs :: "client_op list \<Rightarrow> (bytes \<Rightarrow> bytes option) \<Rightarrow> client_out list" where
  "client_outs [] M = []"
| "client_outs (op # ops) M = (let (out, M') = client_spec op M in out # client_outs ops M')"

text \<open>Keys of 1 to 65529 bytes, payloads of at most 4 MiB.\<close>

fun op_ok :: "client_op \<Rightarrow> bool" where
  "op_ok (CPut k v) = (db_key k \<and> length k + length v \<le> 4 * 1024 * 1024)"
| "op_ok (CGet k) = db_key k"
| "op_ok (CDelete k) = db_key k"
| "op_ok (CScan a b) = (length a < 65536 \<and> length a + length b \<le> 4 * 1024 * 1024)"
| "op_ok (CEcho p) = (length p \<le> 4 * 1024 * 1024)"

definition map_fits :: "nat \<Rightarrow> (bytes \<Rightarrow> bytes option) \<Rightarrow> bool" where
  "map_fits n M \<longleftrightarrow> finite (dom M) \<and> card (dom M) \<le> n \<and>
     (\<forall>k v. M k = Some v \<longrightarrow> length k < 65536 \<and> length v < 4294967296)"

lemma map_fits_upd:
  assumes "map_fits n M" and "length k < 65536" and "\<And>v. x = Some v \<Longrightarrow> length v < 4294967296"
  shows "map_fits (Suc n) (M(k := x))"
proof -
  have "dom (M(k := x)) \<subseteq> insert k (dom M)" by auto
  then have "card (dom (M(k := x))) \<le> card (insert k (dom M))"
    using assms(1) by (intro card_mono) (auto simp: map_fits_def)
  also have "\<dots> \<le> Suc n" using assms(1) by (auto simp: map_fits_def card_insert_if)
  finally show ?thesis using assms by (auto simp: map_fits_def)
qed

lemma spec_scan_fits:
  assumes "map_fits n M"
  shows "length (spec_scan M a b) \<le> n"
    and "\<forall>e \<in> set (spec_scan M a b). length (fst e) < 65536 \<and> length (snd e) < 4294967296"
proof -
  let ?K = "{k \<in> dom M. in_range a b k}"
  have fin: "finite (dom M)" using assms by (simp add: map_fits_def)
  then have "card ?K \<le> card (dom M)" by (intro card_mono) auto
  then show "length (spec_scan M a b) \<le> n" using assms by (simp add: spec_scan_def map_fits_def)
  show "\<forall>e \<in> set (spec_scan M a b). length (fst e) < 65536 \<and> length (snd e) < 4294967296"
    using assms fin by (auto simp: spec_scan_def map_fits_def)
qed

lemma client_step_map:
  assumes idle: "client_idle c cn" and peer: "cl_peer c = (em, db)" and rel: "db_rel db M"
    and ok: "op_ok op" and fits: "map_fits n M" "n < 65536"
  shows "\<exists>em' db'. client_step (serve_one (db_storage rnd dt)) op c = (fst (client_spec op M), served c cn [] em' db') \<and>
    db_rel db' (snd (client_spec op M)) \<and> map_fits (Suc n) (snd (client_spec op M))"
proof -
  have mono: "map_fits (Suc n) M" using fits(1) by (auto simp: map_fits_def)
  show ?thesis
  proof (cases op)
    case (CPut k v)
    have r: "rq_fits (4 * 1024 * 1024) (RqPut k v)" "db_key k" "length k < 65536" "length v < 4294967296"
      using ok by (auto simp: CPut rq_fits_def db_key_def)
    have "map_fits (Suc n) (M(k := bind_value v))"
      using r(3,4) by (intro map_fits_upd [OF fits(1)]) (auto simp: bind_value_def split: if_splits)
    moreover obtain em' db' where "client_Put (serve_one (db_storage rnd dt)) c k v = (Inr (), served c cn [] em' db')"
      "db_rel db' (M(k := bind_value v))" using dbs.client_Put_map [OF idle peer rel r(1,2), of rnd dt] by blast
    ultimately show ?thesis by (intro exI [of _ em'] exI [of _ db']) (simp add: CPut)
  next
    case (CGet k)
    have r: "rq_fits (4 * 1024 * 1024) (RqGet k)" "length k \<noteq> 65535" using ok by (auto simp: CGet rq_fits_def db_key_def)
    have "\<And>v. M k = Some v \<Longrightarrow> length v < 4294967296" using fits(1) by (auto simp: map_fits_def)
    from dbs.client_Get_map [OF idle peer rel r(1) this, of rnd dt]
    obtain em' db' where "client_Get (serve_one (db_storage rnd dt)) c k = (Inr (M k), served c cn [] em' db')" "db_rel db' M"
      unfolding if_not_P [OF r(2)] by blast
    then show ?thesis using mono by (intro exI [of _ em'] exI [of _ db']) (simp add: CGet)
  next
    case (CDelete k)
    have r: "rq_fits (4 * 1024 * 1024) (RqDelete k)" "db_key k" "length k < 65536"
      using ok by (auto simp: CDelete rq_fits_def db_key_def)
    have "map_fits (Suc n) (M(k := None))" using r(3) by (intro map_fits_upd [OF fits(1)]) auto
    moreover obtain em' db' where "client_Delete (serve_one (db_storage rnd dt)) c k = (Inr (), served c cn [] em' db')"
      "db_rel db' (M(k := None))" using dbs.client_Delete_map [OF idle peer rel r(1,2), of rnd dt] by blast
    ultimately show ?thesis by (intro exI [of _ em'] exI [of _ db']) (simp add: CDelete)
  next
    case (CScan a b)
    have r: "rq_fits (4 * 1024 * 1024) (RqScan a b)" using ok by (simp add: CScan rq_fits_def)
    have n: "length (spec_scan M a b) mod 65536 = length (spec_scan M a b)"
      using spec_scan_fits(1) [OF fits(1), of a b] fits(2) by simp
    obtain em' db' where "client_Scan (serve_one (db_storage rnd dt)) c a b = (Inr (spec_scan M a b), served c cn [] em' db')"
      "db_rel db' M"
      using dbs.client_Scan_map [OF idle peer rel r spec_scan_fits(2) [OF fits(1)], of rnd dt] unfolding Let_def n by auto
    then show ?thesis using mono by (intro exI [of _ em'] exI [of _ db']) (simp add: CScan)
  next
    case (CEcho p)
    have r: "rq_fits (4 * 1024 * 1024) (RqEcho [] p)" using ok by (simp add: CEcho rq_fits_def)
    obtain em' db' where "client_Echo (serve_one (db_storage rnd dt)) c p = (Inr p, served c cn [] em' db')" "db_rel db' M"
      using dbs.client_Echo_map [OF idle peer rel r, of rnd dt] by blast
    then show ?thesis using mono by (intro exI [of _ em'] exI [of _ db']) (simp add: CEcho)
  qed
qed

lemma client_run_map:
  assumes "client_idle c cn" and "cl_peer c = (em, db)" and "db_rel db M" and "\<forall>op \<in> set ops. op_ok op"
    and "map_fits n M" and "n + length ops < 65536"
  shows "fst (client_run (\<lambda>i. serve_one (db_storage (rnd i) (dts i))) ops c) = client_outs ops M"
  using assms
proof (induction ops arbitrary: c em db M n rnd dts)
  case (Cons op ops)
  have op: "op_ok op" "n < 65536" using Cons.prems(4,6) by simp_all
  obtain em' db' where s: "client_step (serve_one (db_storage (rnd 0) (dts 0))) op c = (fst (client_spec op M), served c cn [] em' db')"
    "db_rel db' (snd (client_spec op M))" "map_fits (Suc n) (snd (client_spec op M))"
    using client_step_map [OF Cons.prems(1-3) op(1) Cons.prems(5) op(2)] by blast
  have "fst (client_run (\<lambda>i. serve_one (db_storage (rnd (Suc i)) (dts (Suc i)))) ops (served c cn [] em' db')) =
      client_outs ops (snd (client_spec op M))"
    using Cons.IH [OF served_idle(1) [OF Cons.prems(1)] served_idle(2) [OF Cons.prems(1)] s(2) _ s(3)] Cons.prems(4,6) by simp
  then show ?case using s(1) by (simp add: Let_def split_beta)
qed simp

text \<open>C2. End to end. A client connected to a server whose engine was opened on an empty log calls any
  sequence of fewer than 65536 operations with keys of 1 to 65529 bytes and payloads of at most 4 MiB:
  every call returns without error and with what a map gives; \<open>Get\<close> returns the last value written,
  \<open>Scan\<close> the live entries of the range in key order.\<close>

theorem client_calls_refine_map:
  assumes "healthy wfile" and "f_data wfile = []" and "f_durable wfile = []" and "\<forall>dir. mkdir dir = None"
    and "NewDB r0 (Inr wfile) (Inr []) opts mkdir now d em0 = Some (Inr db)"
    and "client_idle c cn" and "cl_peer c = (em, db)"
    and "\<forall>op \<in> set ops. op_ok op" and "length ops < 65536"
  shows "fst (client_run (\<lambda>i. serve_one (db_storage (rnd i) (dts i))) ops c) = client_outs ops (\<lambda>_. None)"
proof -
  have "db_inv db [] {}"
    using NewDB_inv [of "[]" mkdir wfile r0 opts now d em0] assms(1-5) by (auto simp: log_ok_def short_keys_def)
  then have "db_rel db (\<lambda>_. None)" using db_relI [of db "[]" "{}"] by simp
  moreover have "map_fits 0 (\<lambda>_. None)" by (simp add: map_fits_def)
  ultimately show ?thesis using client_run_map [OF assms(6,7) _ assms(8), of "\<lambda>_. None" 0] assms(9) by simp
qed

theorem client_calls_refine_map_witness:
  "fst (client_run (\<lambda>i. serve_one (db_storage (\<lambda>_ _. False) 0)) [CPut [2] [20], CPut [1] [10], CDelete [2], CGet [1], CGet [2]]
      (idle_client (NewEngineMetrics, fresh_db))) =
    [OAck (Inr ()), OAck (Inr ()), OAck (Inr ()), OGet (Inr (Some [10])), OGet (Inr None)]"
proof -
  have e: "healthy empty_os_file" "f_data empty_os_file = []" "f_durable empty_os_file = []" "\<forall>dir. (\<lambda>_. None) dir = None"
    by (simp_all add: healthy_def empty_os_file_def)
  show ?thesis
    using client_calls_refine_map [OF e NewDB_fresh idle_client(1) idle_client(2),
        of "[CPut [2] [20], CPut [1] [10], CDelete [2], CGet [1], CGet [2]]" "\<lambda>_ _ _. False" "\<lambda>_. 0"]
    by (simp add: db_key_def bind_value_def)
qed

text \<open>The longest key on the engine: written and found there, reported absent by the client.\<close>

lemma put_get_longest:
  assumes "v \<noteq> []"
  shows "\<exists>db. db_Put rnd dt fresh_db k v = Some (None, db) \<and> db_Get db k = Some (Inr (Some v), db)"
proof -
  have inv: "db_inv fresh_db [] {}" using open_db_exists NewDB_fresh by (metis option.inject sum.inject(2))
  then have wi: "bw_healthy (wal_writer (db_wal fresh_db))" by (simp add: db_inv_def wal_inv_def)
  obtain w where w: "wal_Append (db_wal fresh_db) OpPut k v = (None, w)" using wal_Append_healthy [OF wi, of OpPut k v] by metis
  have lay: "lay (fresh_db\<lparr>db_wal := w\<rparr>) [] [] [] []" by (simp add: lay_def fresh_db_def mt_rel_New files_hold_def)
  from put_loop_lay [OF lay, of rnd dt k v] obtain db aes ies where
    db: "put_loop rnd dt (fresh_db\<lparr>db_wal := w\<rparr>) k v = Some db" "lay db aes ies [] []" "view aes ies [] [] = view (upd k v []) [] [] []"
    by auto
  have one: "aes @ ies = [(k, v)]" using db(3) by (simp add: view_def)
  have act: "mt_Get (db_activeMT db) k = Some (map_of aes k)" using db(2) by (simp add: lay_def mt_Get_rel)
  have imm: "(case db_immutableMT db of None \<Rightarrow> Some None | Some im \<Rightarrow> mt_Get im k) = Some (map_of ies k)"
    using db(2) by (auto simp: lay_def mt_Get_rel split: option.splits)
  have "db_Get db k = Some (Inr (Some v), db)"
  proof (cases aes)
    case Nil
    then show ?thesis using one act imm assms by (simp add: db_Get_def)
  next
    case (Cons e es)
    then show ?thesis using one act assms by (simp add: db_Get_def)
  qed
  moreover have "db_Put rnd dt fresh_db k v = Some (None, db)" using w db(1) by (simp add: db_Put_def)
  ultimately show ?thesis by blast
qed

theorem get_hides_longest_key_witness:
  "\<exists>db. db_Put (\<lambda>_ _. False) 0 fresh_db (replicate 65535 7) [9] = Some (None, db) \<and>
    client_Get (serve_one (db_storage (\<lambda>_ _. False) 0)) (idle_client (NewEngineMetrics, db)) (replicate 65535 7) =
      (Inr None, served (idle_client (NewEngineMetrics, db)) \<lparr>cn_in = [], cn_out = [], cn_limit = None, cn_closed = False\<rparr>
        (replicate 65535 7 @ [9]) (em_Inc TCPRequestsGetOk NewEngineMetrics) db)"
proof -
  obtain db where db: "db_Put (\<lambda>_ _. False) 0 fresh_db (replicate 65535 7) [9] = Some (None, db)"
    "db_Get db (replicate 65535 7) = Some (Inr (Some [9]), db)"
    using put_get_longest [of "[9]" "\<lambda>_ _. False" 0 "replicate 65535 7"] by auto
  then have "st_Get (db_storage (\<lambda>_ _. False) 0) (replicate 65535 7) db = Some (Inr (Some [9]), db)" by (simp add: db_storage_def)
  from get_hides_longest_key [OF idle_client(1) idle_client(2) this] db(1) show ?thesis by (intro exI [of _ db]) simp
qed

end
