(* ===== verification/Cmd_Server.thy ===== *)
theory Cmd_Server
  imports Service Engine_Props
begin

text \<open>
  \<open>cmd/server/main.go\<close>: the wiring of engine, TLS configuration and server from the command line, and the
  process from then on as a step relation: the main goroutine in \<open>Start\<close>, the goroutine that waits for a
  termination signal, and the requests and background turns of the engine. The two goroutines are not
  synchronised, so their steps interleave freely.
\<close>

section \<open>From the command line to a server\<close>

record flags =
  fl_port :: int
  fl_udpPort :: int
  fl_metricsPort :: int
  fl_walDir :: string
  fl_sstDir :: string
  fl_tlsCert :: string
  fl_tlsKey :: string
  fl_tlsCA :: string
  fl_genCerts :: bool

definition default_flags :: flags where
  "default_flags = \<lparr>fl_port = 9000, fl_udpPort = 9001, fl_metricsPort = 2112, fl_walDir = ''data/wal'',
     fl_sstDir = ''data/sst'', fl_tlsCert = [], fl_tlsKey = [], fl_tlsCA = [], fl_genCerts = False\<rparr>"

text \<open>What the operating system and the cryptographic library answer.\<close>

record env =
  e_crypto :: crypto
  e_mkdir :: "string \<Rightarrow> go_error option"
  e_gen :: "nat \<Rightarrow> ecdsa_PrivateKey result"
  e_now :: "nat \<Rightarrow> int"
  e_opened :: "string \<Rightarrow> os_file result"
  e_walOpened :: "string \<Rightarrow> os_file result"
  e_recOpened :: "string \<Rightarrow> bytes result"
  e_clock :: int
  e_rnd :: "nat \<Rightarrow> nat \<Rightarrow> bool"
  e_dt :: real
  e_disk :: disk
  e_metrics :: EngineMetrics

text \<open>The telemetry callback; its observer state is the log.\<close>

definition main_telemetry :: "string list telemetry_fn" where
  "main_telemetry op payload from logs =
     (if op = OpHeartbeat then logs @ [''Telemetry: Node heartbeat received from '' @ from]
      else if op = OpTelemetry then
        logs @ [''Telemetry: Metric report ('' @ fmt_int (int (length payload)) @ '' bytes) from '' @ from @ '': '' @
          map (\<lambda>b. char_of (unat b)) payload]
      else logs)"

definition local_addr :: "int \<Rightarrow> string" where
  "local_addr port = ''127.0.0.1:'' @ fmt_int port"

definition udp_options :: "flags \<Rightarrow> string list ServerOption list" where
  "udp_options fl =
     (if 0 < fl_udpPort fl then [SrvWithUDP (local_addr (fl_udpPort fl)), SrvWithTelemetryHandler (Some main_telemetry)] else [])"

definition tls_options :: "crypto \<Rightarrow> disk \<Rightarrow> flags \<Rightarrow> string list ServerOption list result" where
  "tls_options lib d fl =
     (if fl_tlsCert fl \<noteq> [] \<and> fl_tlsKey fl \<noteq> [] then
        bind_wrap ''failed to load TLS configuration'' (LoadServerTLSConfig lib d (fl_tlsCert fl) (fl_tlsKey fl) (fl_tlsCA fl))
          (\<lambda>tlsConfig. Inr [SrvWithTLS (Some tlsConfig)])
      else Inr [])"

text \<open>How \<open>main\<close> goes up to the start of the goroutines: \<open>log.Fatalf\<close>, certificates written, or the engine
  and the server with the address of the metrics endpoint. \<open>None\<close>: opening the engine does not return.\<close>

datatype main_outcome =
    Fatal go_error
  | CertsWritten disk
  | Serving DB "(DB, string list) Server" "string option"

definition main_setup :: "env \<Rightarrow> flags \<Rightarrow> main_outcome option" where
  "main_setup env fl =
     (if fl_genCerts fl then
        (case GenerateAndSaveDevCerts (e_crypto env) (e_mkdir env) (e_gen env) (e_now env) (e_opened env) ''.'' (e_disk env) of
           (Some e, d) \<Rightarrow> Some (Fatal (Wrapped ''failed to generate development mTLS certificates'' e))
         | (None, d) \<Rightarrow> Some (CertsWritten d))
      else case e_mkdir env (fl_walDir fl) of
        Some e \<Rightarrow> Some (Fatal (Wrapped ''failed to create WAL directory'' e))
      | None \<Rightarrow>
          let walPath = fl_walDir fl @ ''/forest.wal'' in
          case NewDB (e_rnd env) (e_walOpened env walPath) (e_recOpened env walPath) [WithSSTDir (fl_sstDir fl)]
              (e_mkdir env) (e_clock env) (e_disk env) (e_metrics env) of
            None \<Rightarrow> None
          | Some (Inl e) \<Rightarrow> Some (Fatal (Wrapped ''failed to initialize storage engine'' e))
          | Some (Inr dbEngine) \<Rightarrow>
              (case tls_options (e_crypto env) (e_disk env) fl of
                 Inl e \<Rightarrow> Some (Fatal e)
               | Inr tlsOpts \<Rightarrow>
                   Some (Serving dbEngine
                     (NewServer (e_metrics env) (local_addr (fl_port fl)) (db_storage (e_rnd env) (e_dt env)) (udp_options fl @ tlsOpts))
                     (if 0 < fl_metricsPort fl then Some (local_addr (fl_metricsPort fl)) else None))))"

section \<open>The running process\<close>

text \<open>Where the main goroutine and the signal goroutine are.\<close>

datatype main_pc = Starting | Accepting | Gone

datatype sig_pc = AwaitSignal | DownMetrics | StopNet | CloseDB | ExitOS

text \<open>The last two fields record the history of the engine up to \<open>Close\<close> and its answers.\<close>

record proc =
  pr_db :: DB
  pr_server :: "(DB, string list) Server"
  pr_main :: main_pc
  pr_sig :: sig_pc
  pr_hist :: "db_event list"
  pr_resps :: "db_resp list"

definition boot :: "DB \<Rightarrow> (DB, string list) Server \<Rightarrow> proc" where
  "boot db srv = \<lparr>pr_db = db, pr_server = srv, pr_main = Starting, pr_sig = AwaitSignal, pr_hist = [], pr_resps = []\<rparr>"

text \<open>The circumstances of the call of \<open>dbEngine.Close\<close>.\<close>

record close_env =
  ce_dt :: real
  ce_o1 :: "os_file result"
  ce_now1 :: int
  ce_c1 :: "os_file result"
  ce_pick :: bool
  ce_o2 :: "os_file result"
  ce_now2 :: int
  ce_c2 :: "os_file result"

definition close_with :: "close_env \<Rightarrow> DB \<Rightarrow> (go_error option \<times> DB) option" where
  "close_with ce db = db_Close (ce_dt ce) (ce_o1 ce) (ce_now1 ce) (ce_c1 ce) (ce_pick ce) (ce_o2 ce) (ce_now2 ce) (ce_c2 ce) db"

text \<open>After \<open>Close\<close> the worker and the sync loop are gone, but connections are still served.\<close>

fun late_event :: "db_event \<Rightarrow> bool" where
  "late_event (EvSync dt) = False"
| "late_event (EvFlush f now opened) = False"
| "late_event (EvCompact now opened) = False"
| "late_event ev = True"

text \<open>An error of \<open>Stop\<close> or \<open>Close\<close> is only logged. \<open>Start\<close> returns nil when the listener is closed, and then
  \<open>main\<close> returns, which ends the process like \<open>os.Exit\<close> does.\<close>

inductive main_step :: "close_env \<Rightarrow> proc \<Rightarrow> proc \<Rightarrow> bool" for ce where
  start: "pr_main p = Starting \<Longrightarrow>
    server_Start listen resolved udp [] (pr_server p) = ((None, conns, u), l, srv) \<Longrightarrow>
    main_step ce p (p\<lparr>pr_main := Accepting, pr_server := srv\<rparr>)"
| start_fails: "pr_main p = Starting \<Longrightarrow>
    server_Start listen resolved udp [] (pr_server p) = ((Some (Some e), conns, u), l, srv) \<Longrightarrow>
    main_step ce p (p\<lparr>pr_main := Gone\<rparr>)"
| serve: "pr_main p \<noteq> Gone \<Longrightarrow> pr_sig p \<noteq> ExitOS \<Longrightarrow> db_step ev (pr_db p) = Some (r, db') \<Longrightarrow>
    main_step ce p (p\<lparr>pr_db := db', pr_hist := pr_hist p @ [ev], pr_resps := pr_resps p @ [r]\<rparr>)"
| serve_late: "pr_main p \<noteq> Gone \<Longrightarrow> pr_sig p = ExitOS \<Longrightarrow> late_event ev \<Longrightarrow> db_step ev (pr_db p) = Some (r, db') \<Longrightarrow>
    main_step ce p (p\<lparr>pr_db := db'\<rparr>)"
| signal: "pr_main p \<noteq> Gone \<Longrightarrow> pr_sig p = AwaitSignal \<Longrightarrow> main_step ce p (p\<lparr>pr_sig := DownMetrics\<rparr>)"
| metrics_down: "pr_main p \<noteq> Gone \<Longrightarrow> pr_sig p = DownMetrics \<Longrightarrow> main_step ce p (p\<lparr>pr_sig := StopNet\<rparr>)"
| stop: "pr_main p \<noteq> Gone \<Longrightarrow> pr_sig p = StopNet \<Longrightarrow>
    main_step ce p (p\<lparr>pr_sig := CloseDB, pr_server := snd (server_Stop (pr_server p))\<rparr>)"
| close: "pr_main p \<noteq> Gone \<Longrightarrow> pr_sig p = CloseDB \<Longrightarrow> close_with ce (pr_db p) = Some (e, db') \<Longrightarrow>
    main_step ce p (p\<lparr>pr_sig := ExitOS, pr_db := db'\<rparr>)"
| exit: "pr_main p \<noteq> Gone \<Longrightarrow> pr_sig p = ExitOS \<Longrightarrow> main_step ce p (p\<lparr>pr_main := Gone\<rparr>)"
| start_returns: "pr_main p = Accepting \<Longrightarrow> sv_listener (pr_server p) = None \<Longrightarrow> main_step ce p (p\<lparr>pr_main := Gone\<rparr>)"

abbreviation main_steps :: "close_env \<Rightarrow> proc \<Rightarrow> proc \<Rightarrow> bool" where
  "main_steps ce \<equiv> (main_step ce)\<^sup>*\<^sup>*"

lemma server_options_stopped: "sv_stopped (fold apply_server_option os s) = sv_stopped s"
proof (induction os arbitrary: s)
  case (Cons opt os)
  then show ?case by (cases opt) (auto split: option.splits)
qed simp

lemma NewServer_not_stopped: "\<not> sv_stopped (NewServer em addr st os)"
  by (simp add: NewServer_def server_options_stopped)

section \<open>Which connections are protected\<close>

text \<open>C40. How the server that \<open>main\<close> starts is protected. Certificate and key together give TLS, and client
  certificates are then demanded exactly when a CA was given too; with only one of the two flags the
  server runs in the clear, without a complaint. The addresses are the loopback address with the ports
  of the flags; UDP is off for a port that is not positive.\<close>

theorem main_protection:
  assumes "main_setup env fl = Some (Serving db srv metricsAddr)"
  shows "sv_addr srv = local_addr (fl_port fl) \<and>
    sv_udpAddr srv = (if 0 < fl_udpPort fl then local_addr (fl_udpPort fl) else []) \<and>
    (if fl_tlsCert fl = [] \<or> fl_tlsKey fl = [] then sv_tlsConfig srv = None
     else \<exists>cfg. sv_tlsConfig srv = Some cfg \<and> tls_MinVersion cfg = VersionTLS13 \<and>
       (tls_ClientAuth cfg = RequireAndVerifyClientCert \<longleftrightarrow> fl_tlsCA fl \<noteq> []))"
proof -
  obtain opts where opts: "tls_options (e_crypto env) (e_disk env) fl = Inr opts"
    and srv: "srv = NewServer (e_metrics env) (local_addr (fl_port fl)) (db_storage (e_rnd env) (e_dt env)) (udp_options fl @ opts)"
    using assms by (auto simp: main_setup_def Let_def split: if_splits option.splits sum.splits prod.splits)
  show ?thesis
  proof (cases "fl_tlsCert fl = [] \<or> fl_tlsKey fl = []")
    case True
    then have "opts = []" using opts by (auto simp: tls_options_def)
    then show ?thesis using True by (simp add: srv NewServer_def udp_options_def)
  next
    case False
    then obtain cfg where cfg: "LoadServerTLSConfig (e_crypto env) (e_disk env) (fl_tlsCert fl) (fl_tlsKey fl) (fl_tlsCA fl) = Inr cfg"
      "opts = [SrvWithTLS (Some cfg)]" using opts by (auto simp: tls_options_def bind_wrap_Inr)
    have "tls_MinVersion cfg = VersionTLS13" "tls_ClientAuth cfg = RequireAndVerifyClientCert \<longleftrightarrow> fl_tlsCA fl \<noteq> []"
      using server_config_auth [OF cfg(1)] by auto
    then show ?thesis using False cfg(2) by (simp add: srv NewServer_def udp_options_def)
  qed
qed

section \<open>A closed log\<close>

text \<open>Once the log file is closed nothing changes it any more.\<close>

lemma bw_Flush_closed: "f_closed (bw_file w) \<Longrightarrow> bw_file (snd (bw_Flush w)) = bw_file w"
  by (simp add: bw_Flush_def file_Write_def)

lemma bw_write_loop_closed: "f_closed (bw_file w) \<Longrightarrow> bw_write_loop w p nn = (r, m, w') \<Longrightarrow> bw_file w' = bw_file w"
proof (induction w p nn rule: bw_write_loop.induct)
  case (1 w p nn)
  show ?case
  proof (cases "bw_Available w < length p \<and> bw_err w = None")
    case False
    then show ?thesis using 1(4) by (subst (asm) bw_write_loop.simps) auto
  next
    case go: True
    have wr: "file_Write (bw_file w) p = (0, Some ErrFileClosed, bw_file w)" using 1(3) by (simp add: file_Write_def)
    show ?thesis
    proof (cases "bw_buf w = []")
      case True
      then show ?thesis using 1(4) go wr by (simp add: bw_write_loop.simps [of w] bw_write_loop_err) auto
    next
      case False
      let ?v = "w\<lparr>bw_buf := bw_buf w @ take (bw_Available w) p\<rparr>"
      have "bw_file (snd (bw_Flush ?v)) = bw_file w" using 1(3) bw_Flush_closed [of ?v] by simp
      then show ?thesis
        using 1(2) [OF go False refl refl] 1(3,4) go False by (simp add: bw_write_loop.simps [of w] Let_def)
    qed
  qed
qed

lemma bw_Write_closed: "bw_Write w p = (n, e, w') \<Longrightarrow> f_closed (bw_file w) \<Longrightarrow> bw_file w' = bw_file w"
  by (cases "bw_write_loop w p 0") (auto simp: bw_Write_def dest: bw_write_loop_closed split: if_splits)

lemma wal_Append_closed: "f_closed (wal_file w) \<Longrightarrow> wal_Append w op k v = (e, w') \<Longrightarrow> wal_file w' = wal_file w"
  by (auto simp: wal_Append_def split: prod.splits option.splits) (metis bw_Write_closed)+

lemma put_loop_wal:
  assumes "put_loop rnd dt db k v = Some db'"
  shows "db_wal db' = db_wal db"
proof (rule put_loop.raw_induct [where P = "\<lambda>rnd dt db k v db'. db_wal db' = db_wal db", OF _ assms])
  fix loop :: "(nat \<Rightarrow> nat \<Rightarrow> bool) \<Rightarrow> real \<Rightarrow> DB \<Rightarrow> bytes \<Rightarrow> bytes \<Rightarrow> DB option" and rnd dt db k v db'
  assume hyp: "\<And>rnd dt db k v db'. loop rnd dt db k v = Some db' \<Longrightarrow> db_wal db' = db_wal db"
    and body: "(case mt_Put (rnd 0) (db_activeMT db) k v of None \<Rightarrow> None
      | Some (None, m) \<Rightarrow> let db' = db\<lparr>db_activeMT := m\<rparr> in
          if db_flushThreshold db' \<le> mt_Size m then CheckFlush dt db' else Some db'
      | Some (Some e, m) \<Rightarrow> loop (\<lambda>i. rnd (Suc i)) dt (db\<lparr>db_activeMT := m\<rparr>) k v) = Some db'"
  show "db_wal db' = db_wal db"
    using body by (auto simp: CheckFlush_def Let_def dest!: hyp split: option.splits prod.splits if_splits)
qed

lemma db_read_wal:
  "db_Get db k = Some (r, db') \<Longrightarrow> db_wal db' = db_wal db"
  "db_Scan db a b = Some (s, db') \<Longrightarrow> db_wal db' = db_wal db"
  "db_wal (worker_purge db) = db_wal db"
  by (auto simp: db_Get_def db_Scan_def worker_purge_def Let_def split: option.splits prod.splits if_splits list.splits)

lemma db_write_closed:
  assumes "f_closed (wal_file (db_wal db))"
  shows "db_Put rnd dt db k v = Some (e, db') \<Longrightarrow> wal_file (db_wal db') = wal_file (db_wal db)"
    and "db_Delete rnd dt db k = Some (e, db') \<Longrightarrow> wal_file (db_wal db') = wal_file (db_wal db)"
  by (auto simp: db_Put_def db_Delete_def dest!: put_loop_wal wal_Append_closed [OF assms] split: option.splits prod.splits)

lemma late_event_closed:
  assumes "f_closed (wal_file (db_wal db))" and "late_event ev" and "db_step ev db = Some (r, db')"
  shows "wal_file (db_wal db') = wal_file (db_wal db)"
  using assms by (cases ev) (auto dest: db_write_closed db_read_wal(1,2) simp: db_read_wal(3))

section \<open>Shutting down\<close>

lemma db_run_snoc:
  "db_run db evs = Some (rs, db') \<Longrightarrow> db_step ev db' = Some (r, db'') \<Longrightarrow> db_run db (evs @ [ev]) = Some (rs @ [r], db'')"
  by (induction evs arbitrary: db rs) (auto split: option.splits)

text \<open>The invariant of the process: up to \<open>Close\<close> its engine is what the recorded history gives; from then on
  the log file is the one \<open>Close\<close> left.\<close>

definition proc_inv :: "close_env \<Rightarrow> DB \<Rightarrow> proc \<Rightarrow> bool" where
  "proc_inv ce db0 p \<longleftrightarrow>
     (if pr_sig p = ExitOS
      then \<exists>db e db'. db_run db0 (pr_hist p) = Some (pr_resps p, db) \<and> close_with ce db = Some (e, db') \<and>
        (f_closed (wal_file (db_wal db')) \<longrightarrow> wal_file (db_wal (pr_db p)) = wal_file (db_wal db'))
      else db_run db0 (pr_hist p) = Some (pr_resps p, pr_db p))"

lemma main_step_inv:
  assumes "main_step ce p q" and "proc_inv ce db0 p"
  shows "proc_inv ce db0 q"
  using assms(1)
proof cases
  case (serve ev r db')
  then show ?thesis using assms(2) db_run_snoc by (simp add: proc_inv_def)
next
  case (serve_late ev r db')
  then obtain db e db'' where inv: "db_run db0 (pr_hist p) = Some (pr_resps p, db)" "close_with ce db = Some (e, db'')"
    "f_closed (wal_file (db_wal db'')) \<longrightarrow> wal_file (db_wal (pr_db p)) = wal_file (db_wal db'')"
    using assms(2) by (auto simp: proc_inv_def)
  have "f_closed (wal_file (db_wal db'')) \<longrightarrow> wal_file (db_wal db') = wal_file (db_wal db'')"
    using inv(3) late_event_closed [OF _ serve_late(4,5)] by auto
  then show ?thesis using inv(1,2) serve_late(1,3) by (auto simp: proc_inv_def)
next
  case (close e db')
  then show ?thesis using assms(2) by (auto simp: proc_inv_def)
qed (use assms(2) in \<open>auto simp: proc_inv_def\<close>)

lemma main_steps_inv: "main_steps ce (boot db srv) p \<Longrightarrow> proc_inv ce db p"
proof (induction rule: rtranclp_induct)
  case base
  show ?case by (simp add: boot_def proc_inv_def)
qed (rule main_step_inv)

lemma reopen_map:
  assumes "log_ok rs" and "\<forall>dir. mkdir dir = None"
  shows "\<exists>db. NewDB rnd (Inr wfile) (Inr (wal_log rs)) opts mkdir now d em = Some (Inr db) \<and>
    (\<forall>k. db_Get db k = Some (Inr (live_map rs k), db))"
  using NewDB_layers [OF assms, of rnd wfile "length (wal_log rs)" opts now d em]
  by (auto simp: complete_records_all layers_ok_def db_Get_lay)

text \<open>What the signal goroutine does when nothing else moves, up to the call of \<open>Close\<close>.\<close>

lemma signal_to_close:
  assumes "pr_main p \<noteq> Gone" and "pr_sig p = AwaitSignal"
  shows "main_steps ce p (p\<lparr>pr_sig := CloseDB, pr_server := snd (server_Stop (pr_server p))\<rparr>)"
proof -
  have "main_step ce p (p\<lparr>pr_sig := DownMetrics\<rparr>)" using assms by (rule main_step.signal)
  moreover have "main_step ce (p\<lparr>pr_sig := DownMetrics\<rparr>) (p\<lparr>pr_sig := StopNet\<rparr>)"
    using main_step.metrics_down [of "p\<lparr>pr_sig := DownMetrics\<rparr>" ce] assms(1) by simp
  moreover have "main_step ce (p\<lparr>pr_sig := StopNet\<rparr>) (p\<lparr>pr_sig := CloseDB, pr_server := snd (server_Stop (pr_server p))\<rparr>)"
    using main_step.stop [of "p\<lparr>pr_sig := StopNet\<rparr>" ce] assms(1) by simp
  ultimately show ?thesis by (meson rtranclp.rtrancl_into_rtrancl rtranclp.rtrancl_refl)
qed

text \<open>C6. Termination by signal. When the signal goroutine gets as far as \<open>os.Exit\<close>, every write that was
  acknowledged before \<open>Close\<close> is durable, whatever requests were served meanwhile and are still served
  until the process is gone; the next start finds exactly these writes.\<close>

theorem signal_keeps_writes:
  assumes "main_setup env fl = Some (Serving db srv metricsAddr)"
    and "e_walOpened env = (\<lambda>_. Inr wfile)" and "e_recOpened env = (\<lambda>_. Inr (f_data wfile))"
    and "\<forall>dir. e_mkdir env dir = None"
    and "healthy wfile" and "f_data wfile = wal_log rs" and "f_durable wfile = wal_log rs"
    and "main_steps ce (boot db srv) p" and "pr_sig p = ExitOS"
    and "log_ok (rs @ writes (pr_hist p))" and "\<forall>ev \<in> set (pr_hist p). ev_ok ev"
    and "distinct (ce_now2 ce # ce_now1 ce # clocks (pr_hist p))"
    and "ce_o1 ce = Inr f1" and "healthy f1" and "ce_o2 ce = Inr f2" and "healthy f2"
  shows "f_durable (wal_file (db_wal (pr_db p))) = wal_log (rs @ writes (pr_hist p)) \<and>
    (\<exists>db2. NewDB rnd' (Inr wfile') (Inr (f_data (wal_file (db_wal (pr_db p))))) opts' (e_mkdir env) now' d' em' = Some (Inr db2) \<and>
      (\<forall>k. db_Get db2 k = Some (Inr (live_map (rs @ writes (pr_hist p)) k), db2)))"
proof -
  let ?rs = "rs @ writes (pr_hist p)"
  have "NewDB (e_rnd env) (Inr wfile) (Inr (f_data wfile)) [WithSSTDir (fl_sstDir fl)] (e_mkdir env) (e_clock env) (e_disk env)
      (e_metrics env) = Some (Inr db)"
    using assms(1-3) by (auto simp: main_setup_def Let_def split: if_splits option.splits sum.splits prod.splits)
  then have inv0: "db_inv db rs {}"
    using NewDB_inv [OF log_ok_prefix [OF assms(10)] assms(4-7), of "e_rnd env" "[WithSSTDir (fl_sstDir fl)]" "e_clock env" "e_disk env" "e_metrics env"]
    by auto
  obtain db1 e db2 where run: "db_run db (pr_hist p) = Some (pr_resps p, db1)" "close_with ce db1 = Some (e, db2)"
    "f_closed (wal_file (db_wal db2)) \<longrightarrow> wal_file (db_wal (pr_db p)) = wal_file (db_wal db2)"
    using main_steps_inv [OF assms(8)] assms(9) by (auto simp: proc_inv_def)
  have inv1: "db_inv db1 ?rs (set (clocks (pr_hist p)))"
    using db_run_sim [OF inv0 assms(10,11)] assms(12) run(1) by auto
  obtain db' where db': "close_with ce db1 = Some (None, db')" "f_data (wal_file (db_wal db')) = wal_log ?rs"
    "f_durable (wal_file (db_wal db')) = wal_log ?rs" "f_closed (wal_file (db_wal db'))"
    using db_Close_inv [OF inv1 assms(10) _ _ assms(14,16), of "ce_now1 ce" "ce_now2 ce" "ce_dt ce" "ce_c1 ce" "ce_pick ce" "ce_c2 ce"]
      assms(12) unfolding close_with_def assms(13,15) by auto
  then have "wal_file (db_wal (pr_db p)) = wal_file (db_wal db')" using run(2,3) by simp
  then show ?thesis using db'(2,3) reopen_map [OF assms(10,4)] by simp
qed

text \<open>C7. The same signal can lose acknowledged writes. \<open>Stop\<close> closes the listener, so \<open>Start\<close> returns nil in the
  main goroutine and \<open>main\<close> returns: the process can be gone before the signal goroutine has called
  \<open>dbEngine.Close\<close>. A write that was acknowledged and still sits in the log buffer is then lost.\<close>

theorem signal_race_loses_write:
  assumes "db_inv (pr_db p) rs U" and "log_ok rs" and "bw_buf (wal_writer (db_wal (pr_db p))) = []"
    and "pr_main p = Accepting" and "pr_sig p = AwaitSignal" and "\<not> sv_stopped (pr_server p)"
    and "k \<noteq> []" and "length k < 65530" and "length (wal_encode (OpPut, k, v)) \<le> bw_cap (wal_writer (db_wal (pr_db p)))"
    and "\<forall>dir. mkdir dir = None"
  shows "\<exists>p' db2. main_steps ce p p' \<and> pr_main p' = Gone \<and> pr_sig p' = CloseDB \<and>
    pr_hist p' = pr_hist p @ [EvPut k v rnd dt] \<and> pr_resps p' = pr_resps p @ [RAck None] \<and>
    NewDB rnd' (Inr wfile') (Inr (f_data (wal_file (db_wal (pr_db p'))))) opts mkdir now d em = Some (Inr db2) \<and>
    (\<forall>x. db_Get db2 x = Some (Inr (live_map rs x), db2))"
proof -
  let ?w = "db_wal (pr_db p)"
  have wal: "bw_err (wal_writer ?w) = None" "f_data (wal_file ?w) = wal_log rs"
    using assms(1,3) by (simp_all add: db_inv_def wal_inv_def bw_healthy_def wal_total_def bw_total_def)
  obtain w where w: "wal_Append ?w OpPut k v = (None, w)" "wal_file w = wal_file ?w"
    using wal_Append_fits [OF wal(1)] assms(3,9) by (auto simp: bw_Available_def)
  obtain db' where put: "db_Put rnd dt (pr_db p) k v = Some (None, db')" using db_Put_inv [OF assms(1,7,8)] by blast
  then have fdata: "f_data (wal_file (db_wal db')) = wal_log rs"
    using w wal(2) by (auto simp: db_Put_def dest!: put_loop_wal split: option.splits)
  let ?q = "p\<lparr>pr_db := db', pr_hist := pr_hist p @ [EvPut k v rnd dt], pr_resps := pr_resps p @ [RAck None]\<rparr>"
  let ?r = "?q\<lparr>pr_sig := CloseDB, pr_server := snd (server_Stop (pr_server p))\<rparr>"
  have "main_step ce p ?q" using put assms(4,5) by (intro main_step.serve) simp_all
  moreover have "main_steps ce ?q ?r" using signal_to_close [of ?q ce] assms(4,5) by simp
  moreover have "main_step ce ?r (?r\<lparr>pr_main := Gone\<rparr>)"
    using assms(4,6) by (intro main_step.start_returns) (simp_all add: server_Stop_def Let_def)
  ultimately have steps: "main_steps ce p (?r\<lparr>pr_main := Gone\<rparr>)"
    by (meson rtranclp.rtrancl_into_rtrancl converse_rtranclp_into_rtranclp)
  obtain db2 where "NewDB rnd' (Inr wfile') (Inr (wal_log rs)) opts mkdir now d em = Some (Inr db2)"
    "\<forall>x. db_Get db2 x = Some (Inr (live_map rs x), db2)" using reopen_map [OF assms(2,10)] by blast
  then show ?thesis using steps fdata by (intro exI [of _ "?r\<lparr>pr_main := Gone\<rparr>"] exI [of _ db2]) simp
qed

section \<open>A sample process\<close>

definition sample_env :: env where
  "sample_env = \<lparr>e_crypto = sample_crypto, e_mkdir = (\<lambda>_. None), e_gen = (\<lambda>_. Inr (sample_key 0)), e_now = (\<lambda>_. 0),
     e_opened = (\<lambda>_. Inr sample_file), e_walOpened = (\<lambda>_. Inr empty_os_file), e_recOpened = (\<lambda>_. Inr (f_data empty_os_file)),
     e_clock = 7, e_rnd = (\<lambda>_ _. False), e_dt = 0, e_disk = (\<lambda>_. Some (sample_file\<lparr>f_data := [1, 2]\<rparr>)), e_metrics = NewEngineMetrics\<rparr>"

definition sample_close :: close_env where
  "sample_close = \<lparr>ce_dt = 0, ce_o1 = Inr empty_os_file, ce_now1 = 8, ce_c1 = Inr empty_os_file, ce_pick = True,
     ce_o2 = Inr empty_os_file, ce_now2 = 9, ce_c2 = Inr empty_os_file\<rparr>"

lemma empty_os_file_ok: "healthy empty_os_file" "f_data empty_os_file = wal_log []" "f_durable empty_os_file = wal_log []"
  by (simp_all add: healthy_def empty_os_file_def)

lemma sample_log_ok: "log_ok [(OpPut, [1], [2])]" "log_ok []"
  by (simp_all add: log_ok_def rec_ok_def rec_entry_def short_keys_def)

lemma sample_main:
  assumes "\<not> fl_genCerts fl"
  obtains db srv m where "main_setup sample_env fl = Some (Serving db srv m)" and "db_inv db [] {}"
    and "\<not> sv_stopped srv" and "bw_buf (wal_writer (db_wal db)) = []" and "bw_cap (wal_writer (db_wal db)) = 4 * 1024 * 1024"
proof -
  obtain db where db: "NewDB (\<lambda>_ _. False) (Inr empty_os_file) (Inr (f_data empty_os_file)) [WithSSTDir (fl_sstDir fl)] (\<lambda>_. None)
      7 (e_disk sample_env) NewEngineMetrics = Some (Inr db)" "db_inv db [] {}"
    using NewDB_inv [OF sample_log_ok(2) _ empty_os_file_ok, of "\<lambda>_. None"] by blast
  then have wal: "bw_buf (wal_writer (db_wal db)) = []" "bw_cap (wal_writer (db_wal db)) = 4 * 1024 * 1024"
    by (auto simp: NewDB_def NewWAL_def NewWriterSize_def Recover_def empty_os_file_def Let_def split: if_splits)
  have "\<exists>opts. tls_options (e_crypto sample_env) (e_disk sample_env) fl = Inr opts"
    by (cases "fl_tlsCert fl = []"; cases "fl_tlsKey fl = []"; cases "fl_tlsCA fl = []")
      (simp_all add: tls_options_def LoadServerTLSConfig_def LoadX509KeyPair_def os_ReadFile_def pool_from_PEM_def
        sample_env_def sample_crypto_def Let_def)
  then obtain opts where opts: "tls_options (e_crypto sample_env) (e_disk sample_env) fl = Inr opts" by blast
  have stop: "\<not> sv_stopped (NewServer em addr st os)" for em addr and st :: "DB Storage" and os :: "string list ServerOption list"
    by (rule NewServer_not_stopped)
  show ?thesis
    by (rule that) (use assms db opts wal stop in \<open>simp_all add: main_setup_def sample_env_def Let_def\<close>)
qed

theorem main_protection_witness:
  "\<exists>db srv m cfg. main_setup sample_env (default_flags\<lparr>fl_tlsCert := ''c'', fl_tlsKey := ''k''\<rparr>) = Some (Serving db srv m) \<and>
    sv_tlsConfig srv = Some cfg \<and> tls_ClientAuth cfg \<noteq> RequireAndVerifyClientCert"
proof -
  obtain db srv m where m: "main_setup sample_env (default_flags\<lparr>fl_tlsCert := ''c'', fl_tlsKey := ''k''\<rparr>) = Some (Serving db srv m)"
    by (rule sample_main [of "default_flags\<lparr>fl_tlsCert := ''c'', fl_tlsKey := ''k''\<rparr>"]) (simp_all add: default_flags_def)
  then show ?thesis using main_protection [OF m] by (auto simp: default_flags_def)
qed

theorem signal_race_loses_write_witness:
  "\<exists>p p' db2. main_steps sample_close p p' \<and> pr_main p' = Gone \<and> pr_hist p' = [EvPut [1] [2] (\<lambda>_ _. False) 0] \<and>
    pr_resps p' = [RAck None] \<and>
    NewDB (\<lambda>_ _. False) (Inr empty_os_file) (Inr (f_data (wal_file (db_wal (pr_db p'))))) [] (\<lambda>_. None) 9 (\<lambda>_. None) NewEngineMetrics =
      Some (Inr db2) \<and> db_Get db2 [1] = Some (Inr None, db2)"
proof -
  obtain db srv m where s: "main_setup sample_env default_flags = Some (Serving db srv m)" "db_inv db [] {}" "\<not> sv_stopped srv"
    "bw_buf (wal_writer (db_wal db)) = []" "bw_cap (wal_writer (db_wal db)) = 4 * 1024 * 1024"
    by (rule sample_main [of default_flags]) (simp_all add: default_flags_def)
  let ?p = "(boot db srv)\<lparr>pr_main := Accepting\<rparr>"
  have h: "db_inv (pr_db ?p) [] {}" "bw_buf (wal_writer (db_wal (pr_db ?p))) = []" "pr_main ?p = Accepting" "pr_sig ?p = AwaitSignal"
    "\<not> sv_stopped (pr_server ?p)" "[1 :: byte] \<noteq> []" "length [1 :: byte] < 65530"
    "length (wal_encode (OpPut, [1], [2])) \<le> bw_cap (wal_writer (db_wal (pr_db ?p)))" "\<forall>dir. (\<lambda>_. None) dir = None"
    "pr_hist ?p = []" "pr_resps ?p = []"
    using s by (simp_all add: boot_def length_wal_encode)
  obtain p' db2 where p': "main_steps sample_close ?p p'" "pr_main p' = Gone"
    "pr_hist p' = pr_hist ?p @ [EvPut [1] [2] (\<lambda>_ _. False) 0]" "pr_resps p' = pr_resps ?p @ [RAck None]"
    "NewDB (\<lambda>_ _. False) (Inr empty_os_file) (Inr (f_data (wal_file (db_wal (pr_db p'))))) [] (\<lambda>_. None) 9 (\<lambda>_. None)
      NewEngineMetrics = Some (Inr db2)" "\<forall>x. db_Get db2 x = Some (Inr (live_map [] x), db2)"
    using signal_race_loses_write [OF h(1) sample_log_ok(2) h(2-9), of sample_close "\<lambda>_ _. False" 0 "\<lambda>_ _. False" empty_os_file "[]" 9
        "\<lambda>_. None" NewEngineMetrics] by blast
  have "db_Get db2 [1] = Some (Inr None, db2)" using spec [OF p'(6), of "[1]"] by (simp add: live_def)
  then show ?thesis using p'(1,2,5) p'(3,4) [unfolded h(10,11) append_Nil] by blast
qed

theorem signal_keeps_writes_witness:
  "\<exists>db srv m p db2. main_setup sample_env default_flags = Some (Serving db srv m) \<and> main_steps sample_close (boot db srv) p \<and>
    pr_sig p = ExitOS \<and>
    NewDB (\<lambda>_ _. False) (Inr empty_os_file) (Inr (f_data (wal_file (db_wal (pr_db p))))) [] (e_mkdir sample_env) 9 (\<lambda>_. None)
      NewEngineMetrics = Some (Inr db2) \<and> db_Get db2 [1] = Some (Inr (Some [2]), db2)"
proof -
  let ?ev = "EvPut [1] [2] (\<lambda>_ _. False) 0"
  obtain db srv m where s: "main_setup sample_env default_flags = Some (Serving db srv m)" "db_inv db [] {}"
    by (rule sample_main [of default_flags]) (simp_all add: default_flags_def)
  obtain r db1 where put: "db_step ?ev db = Some (r, db1)" "db_inv db1 [(OpPut, [1], [2])] {}"
    using db_step_sim [OF s(2), of ?ev] sample_log_ok(1) by auto
  obtain db' where cl: "close_with sample_close db1 = Some (None, db')"
    using db_Close_inv [OF put(2) sample_log_ok(1), of 8 9 empty_os_file empty_os_file 0 "Inr empty_os_file" True "Inr empty_os_file"]
      empty_os_file_ok(1)
    by (auto simp: close_with_def sample_close_def)
  let ?q = "(boot db srv)\<lparr>pr_db := db1, pr_hist := [?ev], pr_resps := [r]\<rparr>"
  let ?c = "?q\<lparr>pr_sig := CloseDB, pr_server := snd (server_Stop srv)\<rparr>"
  let ?p = "?c\<lparr>pr_sig := ExitOS, pr_db := db'\<rparr>"
  have "main_step sample_close (boot db srv) ?q" using main_step.serve [of "boot db srv" ?ev r db1 sample_close] put(1) by (simp add: boot_def)
  moreover have "main_steps sample_close ?q ?c" using signal_to_close [of ?q sample_close] by (simp add: boot_def)
  moreover have "main_step sample_close ?c ?p" using main_step.close [of ?c sample_close None db'] cl by (simp add: boot_def)
  ultimately have steps: "main_steps sample_close (boot db srv) ?p"
    by (meson rtranclp.rtrancl_into_rtrancl converse_rtranclp_into_rtranclp)
  have env: "e_walOpened sample_env = (\<lambda>_. Inr empty_os_file)" "e_recOpened sample_env = (\<lambda>_. Inr (f_data empty_os_file))"
    "\<forall>dir. e_mkdir sample_env dir = None" by (simp_all add: sample_env_def)
  have hist: "pr_sig ?p = ExitOS" "log_ok ([] @ writes (pr_hist ?p))" "\<forall>ev \<in> set (pr_hist ?p). ev_ok ev"
    "distinct (ce_now2 sample_close # ce_now1 sample_close # clocks (pr_hist ?p))"
    "ce_o1 sample_close = Inr empty_os_file" "ce_o2 sample_close = Inr empty_os_file"
    using sample_log_ok(1) by (simp_all add: boot_def sample_close_def)
  have "live_map ([] @ writes (pr_hist ?p)) [1] = Some [2]" by (simp add: rec_entry_def opcodes live_def)
  then show ?thesis
    using s(1) steps hist(1) signal_keeps_writes [OF s(1) env empty_os_file_ok steps hist(1-5) empty_os_file_ok(1) hist(6) empty_os_file_ok(1),
        of "\<lambda>_ _. False" empty_os_file "[]" 9 "\<lambda>_. None" NewEngineMetrics]
    by (elim exE conjE) (intro exI conjI, assumption+, simp)
qed

end
