(* ===== verification/Exposition.thy ===== *)
theory Exposition
  imports Metrics Paths
begin

text \<open>
  \<open>WritePrometheusText\<close> of \<open>internal/metrics/metrics.go\<close>: the text format of the metrics endpoint, and
  the \<open>Timer\<close> helper. \<open>fmtFloat\<close> stands for \<open>strconv.FormatFloat(x, 'f', -1, 64)\<close>; the runtime
  statistics are arguments. The buffer is the string built so far; \<open>write\<close> is the outcome of writing it
  to the response.
\<close>

section \<open>The text\<close>

definition FormatUint :: "u64 \<Rightarrow> string" where
  "FormatUint v = fmt_nat (unat v)"

definition FormatInt :: "int \<Rightarrow> string" where
  "FormatInt v = fmt_int v"

definition newline :: string where
  "newline = [CHR 0x0A]"

text \<open>The two comment lines before a metric.\<close>

definition metric_head :: "string \<Rightarrow> string \<Rightarrow> string \<Rightarrow> string" where
  "metric_head name hlp kind =
     ''# HELP '' @ name @ '' '' @ hlp @ newline @ ''# TYPE '' @ name @ '' '' @ kind @ newline"

definition counter_text :: "counter \<Rightarrow> string" where
  "counter_text c =
     metric_head (c_name c) (c_help c) ''counter'' @
     c_name c @ (if c_labels c \<noteq> [] then ''{'' @ c_labels c @ ''}'' else []) @ '' '' @
     FormatUint (counter_Value c) @ newline @ newline"

definition gauge_text :: "gauge \<Rightarrow> string" where
  "gauge_text g =
     metric_head (g_name g) (g_help g) ''gauge'' @
     g_name g @ '' '' @ FormatInt (gauge_Value g) @ newline @ newline"

definition bucket_line :: "string \<Rightarrow> string \<Rightarrow> u64 \<Rightarrow> string" where
  "bucket_line name le n =
     name @ ''_bucket{le='' @ [CHR 0x22] @ le @ [CHR 0x22] @ ''} '' @ FormatUint n @ newline"

fun bucket_lines :: "(real \<Rightarrow> string) \<Rightarrow> string \<Rightarrow> real list \<Rightarrow> u64 list \<Rightarrow> string" where
  "bucket_lines fmtFloat name (bound # bs) (n # ns) =
     bucket_line name (fmtFloat bound) n @ bucket_lines fmtFloat name bs ns"
| "bucket_lines fmtFloat name _ _ = []"

definition histogram_text :: "(real \<Rightarrow> string) \<Rightarrow> histogram \<Rightarrow> string" where
  "histogram_text fmtFloat h =
     metric_head (h_name h) (h_help h) ''histogram'' @
     bucket_lines fmtFloat (h_name h) (h_buckets h) (h_counts h) @
     bucket_line (h_name h) ''+Inf'' (h_count h) @
     h_name h @ ''_sum '' @ fmtFloat (h_sum h) @ newline @
     h_name h @ ''_count '' @ FormatUint (h_count h) @ newline @ newline"

record runtime_stats =
  rt_goroutines :: int
  rt_Alloc :: u64
  rt_Sys :: u64
  rt_HeapInuse :: u64
  rt_NumGC :: u32

definition runtime_metric :: "string \<Rightarrow> string \<Rightarrow> string \<Rightarrow> string \<Rightarrow> string" where
  "runtime_metric name hlp kind v = metric_head name hlp kind @ name @ '' '' @ v @ newline @ newline"

definition runtime_text :: "runtime_stats \<Rightarrow> string" where
  "runtime_text rt =
     runtime_metric ''go_goroutines'' ''Number of goroutines that currently exist.'' ''gauge'' (fmt_int (rt_goroutines rt)) @
     runtime_metric ''go_memstats_alloc_bytes'' ''Number of bytes allocated and still in use.'' ''gauge''
       (FormatUint (rt_Alloc rt)) @
     runtime_metric ''go_memstats_sys_bytes'' ''Number of bytes obtained from system.'' ''gauge'' (FormatUint (rt_Sys rt)) @
     runtime_metric ''go_memstats_heap_inuse_bytes'' ''Number of heap bytes in in-use spans.'' ''gauge''
       (FormatUint (rt_HeapInuse rt)) @
     runtime_metric ''go_memstats_num_gc'' ''Total number of completed GC cycles.'' ''counter''
       (FormatUint (ucast (rt_NumGC rt)))"

definition prometheus_text :: "(real \<Rightarrow> string) \<Rightarrow> runtime_stats \<Rightarrow> EngineMetrics \<Rightarrow> string" where
  "prometheus_text fmtFloat rt em =
     concat (map (\<lambda>i. counter_text (em_counter em i)) (reg_counters (em_registry em))) @
     concat (map (\<lambda>i. gauge_text (em_gauge em i)) (reg_gauges (em_registry em))) @
     concat (map (\<lambda>i. histogram_text fmtFloat (em_histogram em i)) (reg_histograms (em_registry em))) @
     runtime_text rt"

definition WritePrometheusText ::
  "(string \<Rightarrow> go_error option) \<Rightarrow> (real \<Rightarrow> string) \<Rightarrow> runtime_stats \<Rightarrow> EngineMetrics \<Rightarrow> go_error option" where
  "WritePrometheusText write fmtFloat rt em = write (prometheus_text fmtFloat rt em)"

text \<open>\<open>Handler\<close>: the content type, and the error response when writing fails.\<close>

definition metrics_Handler ::
  "(string \<Rightarrow> go_error option) \<Rightarrow> (real \<Rightarrow> string) \<Rightarrow> runtime_stats \<Rightarrow> EngineMetrics \<Rightarrow> string \<times> (nat \<times> go_error) option" where
  "metrics_Handler write fmtFloat rt em =
     (''text/plain; version=0.0.4; charset=utf-8'',
      case WritePrometheusText write fmtFloat rt em of
        None \<Rightarrow> None
      | Some e \<Rightarrow> Some (500, Wrapped ''failed writing metrics'' e))"

section \<open>Timers\<close>

record Timer =
  tm_h :: "histogram_id option"
  tm_start :: real

definition NewTimer :: "histogram_id option \<Rightarrow> real \<Rightarrow> Timer" where
  "NewTimer h now = \<lparr>tm_h = h, tm_start = now\<rparr>"

definition ObserveDuration :: "Timer \<Rightarrow> real \<Rightarrow> EngineMetrics \<Rightarrow> EngineMetrics" where
  "ObserveDuration t now em = (case tm_h t of None \<Rightarrow> em | Some h \<Rightarrow> em_Observe h (now - tm_start t) em)"

section \<open>The buckets of a histogram\<close>






end
