(* ===== verification/Spec2Isabelle.thy ===== *)
theory Spec2Isabelle
  imports Cmd_Server Exposition
begin

text \<open>
  \<^bold>\<open>Forest: a verification development of the storage engine, its network service and its client.\<close>

  Forest is a key/value store written in Go. A write goes to a write-ahead log and to a skip list in
  memory; a full skip list is frozen and flushed by a background worker into a sorted file (level L0);
  when enough L0 files have piled up they are merged into one L1 file. Reads look at the active table,
  the table being flushed, the L0 files from new to old and the L1 files. A TCP server offers the store
  with a binary protocol and takes telemetry by UDP; a client package speaks that protocol; counters and
  histograms are exposed as text; TLS configurations are loaded from files or generated; \<open>main\<close> wires
  all this together and shuts it down on a signal.

  \<^bold>\<open>Theories and sources.\<close> Every definition bears the name of the Go function, method or type it
  translates, with a prefix for the receiver where names would clash (\<open>mt_Put\<close>, \<open>wal_Append\<close>, \<open>db_Get\<close>,
  \<open>client_Scan\<close>, \<open>server_Stop\<close>); structs are records, enumerations and option functions are datatypes.

  \<^item> \<open>Forest_Prelude\<close>: machine types, error values and panics, results, the order on byte slices,
    sorted association lists. \<open>Go_Std\<close>: the parts of \<open>encoding/binary\<close>, \<open>hash/crc32\<close>, \<open>hash/fnv\<close>, \<open>io\<close>,
    \<open>os\<close> and \<open>bufio\<close> in use, written out at machine width. \<open>Paths\<close>: \<open>filepath.Join\<close> and decimal
    numbers. \<open>Heap\<close>: \<open>container/heap\<close>.
  \<^item> \<open>Store_Interface\<close> (locale \<open>sorted_store\<close>), \<open>Framing\<close> (locale \<open>framed\<close>): interfaces used by several
    components.
  \<^item> \<open>MemTable\<close> (\<open>internal/engine/memtable.go\<close>): the skip list as a heap of nodes with next pointers.
    \<open>WAL\<close> (\<open>wal.go\<close>): appending, syncing, closing, recovery. \<open>Bloom\<close> (\<open>bloom.go\<close>). \<open>SSTable\<close> (\<open>sstable.go\<close>):
    writer and reader of the sorted files byte for byte. \<open>SSTIter\<close> (\<open>iterator.go\<close>). \<open>Compactor\<close>
    (\<open>compactor.go\<close>): heap, merge and purge. \<open>Version\<close> (\<open>version.go\<close>): reference counts, as functions and
    as a step relation over all interleavings of readers, installs and purges.
  \<^item> \<open>Engine\<close> (\<open>db.go\<close>): options, opening, \<open>Get\<close>, \<open>Scan\<close>, \<open>Put\<close>, \<open>Delete\<close>, \<open>CheckFlush\<close>, the flush worker,
    compaction, \<open>Close\<close>. \<open>Engine_Spec\<close>, \<open>Engine_Inv\<close>, \<open>Engine_Run\<close> and \<open>Engine_Props\<close> hold the layered view of
    its state, the invariant with its preservation by every operation, histories with the abstract map
    machine, and the properties.
  \<^item> \<open>Protocol\<close> (\<open>internal/network/protocol.go\<close>), \<open>Handler\<close> (\<open>handler.go\<close>), \<open>Server\<close> (\<open>server.go\<close>), \<open>Tls\<close>
    (\<open>tls.go\<close>), \<open>Client\<close> (\<open>pkg/client/client.go\<close>), \<open>Service\<close> (client, handler and engine together).
  \<^item> \<open>Metrics\<close> and \<open>Exposition\<close> (\<open>internal/metrics\<close>): counters, gauges, histograms, timers, the registry and
    its text form. \<open>Cmd_Server\<close> (\<open>cmd/server/main.go\<close>): set-up and the running process.

  \<^bold>\<open>State, errors, time.\<close> An operation takes its state and returns it updated. An error is the left side
  of a sum, or \<open>Some\<close> of an error where Go returns only an error; panics are errors too, so that theorems
  can exclude them. What the operating system answers (an opened file with its remaining capacity and
  its faults, a clock reading, an accepted connection) and random levels are arguments, over which the
  theorems quantify. \<open>None\<close> as the result of an operation is an operation that never returns (a spinning
  loop, a blocked goroutine); the theorems show that the operations do return. Loops over pointers and
  retry loops are partial functions in the option monad; no fuel is used anywhere. Reals stand for
  \<open>float64\<close> in histograms, durations and the sizing of Bloom filters.

  \<^bold>\<open>Interfaces.\<close> \<open>sorted_store\<close> states what a mutable ordered store promises and is interpreted by the
  MemTable; \<open>framed\<close> states how length-prefixed records are found again and is interpreted by the blocks
  and the index of a sorted file; \<open>entry_stream\<close> is what the merge and the engine's scan need of an
  iterator, interpreted by the file iterator; \<open>weak_order\<close> and \<open>priority_queue\<close> are interpreted by the
  merge order and the heap of the compactor; \<open>storage_map\<close> is what the request handler needs of the
  storage and \<open>storage_session\<close> what a connection needs over time, both interpreted by the engine.

  \<^bold>\<open>What is proved.\<close>
  \<^item> The engine implements a map through any interleaving of requests with sync ticks, flushes,
    compactions and purges; after a crash a prefix of the writes with all synced ones is recovered;
    closing and reopening loses nothing; client calls over the protocol get the answers of a map.
  \<^item> Components: the skip list implements a map and publishes nodes atomically; recovery survives torn and
    corrupt logs; sorted files and Bloom filters return what was written; lookups agree with full scans;
    compaction keeps the newest values; purges never meet a reader of the purged version and complete; the
    number of L0 files is bounded; writes return exactly when the active table is open; telemetry,
    metrics and TLS credentials round trips; the life of a server and of the process.
  \<^item> Flaws, as theorems: acknowledged writes lost in the log buffer, behind a torn record, after
    \<open>Close\<close>, or when \<open>main\<close> returns before the signal goroutine has closed the engine; the empty key lost
    in compaction; a panic on a very long first key; a failed flush that breaks reads; a reader of an old
    version that finds its file deleted; a longest key the client hides; a scan count that wraps; a
    server that cannot be stopped.

  \<^bold>\<open>Bounds in the hypotheses.\<close> Keys of the engine theorems have 1 to 65529 bytes (the empty key and
  longer keys meet the flaws above), the logged data has less than 2^32 bytes (the 32-bit lengths of the
  file format), request payloads have at most 4 MiB (the server's buffer), clock readings that name L1
  files are distinct, and flushes get a working file; compactions may fail in any way.

  \<^bold>\<open>Concurrency.\<close> Engine histories interleave whole operations and background turns. Finer grain is
  modelled where the code relies on it: the single stores with which a skip list node is published, the
  loads and compare-and-swaps of the reference counts, and the goroutines of \<open>main\<close>. Two writers inside
  \<open>Put\<close> at once, or a flush and an explicit compaction both updating the current version, are not.

  \<^bold>\<open>Not modelled.\<close> The cryptography of \<open>crypto/*\<close> and \<open>encoding/pem\<close>, a parameter of \<open>Tls\<close> with documented
  laws as hypotheses; file modes; number formatting of floats; \<open>net/http\<close> around the metrics handler;
  log output other than the telemetry callback's; memory reuse by buffer pools. Tests, benchmarks and
  their tools are not part of the program.

  \<^bold>\<open>Plan.\<close> Next: writers that interleave between log and table inside \<open>Put\<close>; sessions with background
  turns between requests; several connections on one engine.
\<close>

end
